(* ===== verification/GoPrelude.thy ===== *)
theory GoPrelude
  imports Main "HOL-Library.Word" "HOL-Library.Sublist"
begin

text \<open>
  What every component of the proxy takes from Go: bytes, error values, the ways a call can end,
  errors.Join, channels of the signal kind, and generic lemmas on prefixes of byte strings.
  Nothing here models a file of the repository; it is the language and its standard library.
\<close>

named_theorems go_simps \<open>unfolding rules of the outcome combinators\<close>

subsection \<open>Bytes and errors\<close>

type_synonym byte = "8 word"
type_synonym bytes = "byte list"

text \<open>
  An error value of Go. The named constructors are the sentinels the code compares with or returns;
  \<open>ErrExt\<close> stands for an error made by the operating system, a peer or an RPC library.
\<close>

datatype err =
    EOF
  | ErrClosedPipe
  | ErrClosed
  | ErrNetClosed
  | ErrShutdown
  | ErrShortWrite
  | ErrInvalidWrite
  | ErrCanceled
  | Errorf string
  | ErrExt nat
  | Joined "err list"

text \<open>errors.Join: nil when every argument is nil, otherwise the non-nil ones in order.\<close>

definition errors_Join :: "err option list \<Rightarrow> err option" where
  "errors_Join es =
     (let ns = List.map_filter id es in if ns = [] then None else Some (Joined ns))"

lemma errors_Join_None_iff: "errors_Join es = None \<longleftrightarrow> (\<forall>e \<in> set es. e = None)"
proof -
  have "List.map_filter id es = [] \<longleftrightarrow> (\<forall>e \<in> set es. e = None)"
    by (induction es) (auto simp: List.map_filter_simps split: option.splits)
  then show ?thesis by (simp add: errors_Join_def Let_def)
qed

lemma errors_Join_two [simp]:
  "errors_Join [None, None] = None"
  "errors_Join [Some a, None] = Some (Joined [a])"
  "errors_Join [None, Some b] = Some (Joined [b])"
  "errors_Join [Some a, Some b] = Some (Joined [a, b])"
  by (simp_all add: errors_Join_def List.map_filter_simps)

subsection \<open>How a call ends\<close>

text \<open>
  A call returns, panics, ends the process (log.Fatalf) or waits. \<open>Blocked\<close> is the value of
  a call that cannot go on with what has arrived so far.
\<close>

datatype 'a outcome = Ret 'a | Panic string | Fatal string | Blocked

fun then_do :: "'a outcome \<Rightarrow> ('a \<Rightarrow> 'b outcome) \<Rightarrow> 'b outcome" where
  "then_do (Ret x) f = f x"
| "then_do (Panic m) f = Panic m"
| "then_do (Fatal m) f = Fatal m"
| "then_do Blocked f = Blocked"

lemma then_do_Ret_iff: "then_do r f = Ret y \<longleftrightarrow> (\<exists>x. r = Ret x \<and> f x = Ret y)"
  by (cases r) auto

lemma then_do_assoc: "then_do (then_do r f) g = then_do r (\<lambda>x. then_do (f x) g)"
  by (cases r) auto

lemma map_sum_Inr_iff: "map_sum f g r = Inr y \<longleftrightarrow> (\<exists>x. r = Inr x \<and> y = g x)"
  by (cases r) auto

declare then_do_Ret_iff [go_simps] map_sum_Inr_iff [go_simps]

text \<open>An operation on a receiver of type \<open>'s\<close> with results of type \<open>'a\<close>.\<close>

type_synonym ('s, 'a) action = "'s \<Rightarrow> ('a \<times> 's) outcome"

subsection \<open>Signal channels\<close>

text \<open>
  A value of type chan struct\{\} that is only ever closed and received from: nil (declared, never
  made), open, or closed. Receiving from a nil or an open one waits; closing a nil or a closed one
  panics.
\<close>

datatype sigchan = NilChan | OpenChan | ClosedChan

fun close_chan :: "sigchan \<Rightarrow> sigchan outcome" where
  "close_chan NilChan = Panic ''close of nil channel''"
| "close_chan OpenChan = Ret ClosedChan"
| "close_chan ClosedChan = Panic ''close of closed channel''"

fun recv_ready :: "sigchan \<Rightarrow> bool" where
  "recv_ready ClosedChan = True"
| "recv_ready _ = False"

lemma close_chan_Ret_iff: "close_chan c = Ret c' \<longleftrightarrow> c = OpenChan \<and> c' = ClosedChan"
  by (cases c) auto

lemma close_chan_panics_iff: "(\<exists>m. close_chan c = Panic m) \<longleftrightarrow> c \<noteq> OpenChan"
  by (cases c) auto

declare close_chan_Ret_iff [go_simps]

subsection \<open>Prefixes\<close>

lemma prefix_append_mono: "prefix xs ys \<Longrightarrow> prefix (zs @ xs) (zs @ ys)"
  by (rule same_prefix_prefix [THEN iffD2])

lemma prefix_take [simp]: "prefix (take n xs) xs"
  by (rule take_is_prefix)

lemma prefix_appendI: "prefix (xs @ ys) zs \<Longrightarrow> prefix xs zs"
  by (rule append_prefixD)

lemma ex_take_all [simp]: "\<exists>k. xs = take k xs"
  by (rule exI [of _ "length xs"]) simp

lemma append_take_drop_assoc: "xs @ take n ys @ drop n ys @ zs = xs @ ys @ zs"
  by (metis append.assoc append_take_drop_id)

end
