(* ===== verification/Netx.thy ===== *)
theory Netx
  imports GoPrelude
begin

text \<open>
  The interfaces of netx/netx.go and the one client they have in the standard library.
  A stream is read and written through io.Reader and io.Writer: the locales below say what
  io.Copy relies on (\<open>byte_source\<close>, \<open>byte_sink\<close>), and \<open>copy_loop\<close> is the loop of io.Copy
  with its 32 KiB buffer, the generic one, since no stream of the repository is an io.WriterTo or
  an io.ReaderFrom. The lemmas of \<open>copy_pair\<close> are proved once here and used for every pair of
  stream implementations through the interpretation in the theory of the proxy.
\<close>

subsection \<open>io.Copy\<close>

definition copy_buf_size :: nat where
  "copy_buf_size = 32 * 1024"

type_synonym 's reader = "nat \<Rightarrow> ('s, bytes \<times> err option) action"
type_synonym 'd writer = "bytes \<Rightarrow> ('d, int \<times> err option) action"

text \<open>
  One round of the loop ends with another round to run, or with the end of the copy.
\<close>

datatype ('s, 'd) copy_step =
    CopyMore int 's 'd
  | CopyStop "((int \<times> err option) \<times> 's \<times> 'd) outcome"

text \<open>The checks on what Write returned: invalid counts, errors, short writes, in this order.\<close>

definition copy_account :: "int \<Rightarrow> int \<Rightarrow> err option \<Rightarrow> int \<times> err option" where
  "copy_account len nw ew =
     (let bad = nw < 0 \<or> len < nw;
          nw' = (if bad then 0 else nw);
          ew' = (if bad \<and> ew = None then Some ErrInvalidWrite else ew)
      in if ew' = None \<and> nw' \<noteq> len then (nw', Some ErrShortWrite) else (nw', ew'))"

text \<open>What the read's own error does to the loop; io.EOF ends it without an error.\<close>

definition copy_end :: "int \<Rightarrow> err option \<Rightarrow> 's \<Rightarrow> 'd \<Rightarrow> ('s, 'd) copy_step" where
  "copy_end written er s d =
     (case er of
        None \<Rightarrow> CopyMore written s d
      | Some e \<Rightarrow> CopyStop (Ret ((written, if e = EOF then None else Some e), s, d)))"

definition copy_once :: "'s reader \<Rightarrow> 'd writer \<Rightarrow> int \<Rightarrow> 's \<Rightarrow> 'd \<Rightarrow> ('s, 'd) copy_step" where
  "copy_once rd wr written s d =
     (case rd copy_buf_size s of
        Ret ((bs, er), s') \<Rightarrow>
          (if bs = [] then copy_end written er s' d
           else
             (case wr bs d of
                Ret ((nw, ew), d') \<Rightarrow>
                  (case copy_account (int (length bs)) nw ew of
                     (n, None) \<Rightarrow> copy_end (written + n) er s' d'
                   | (n, Some e) \<Rightarrow> CopyStop (Ret ((written + n, Some e), s', d')))
              | Panic m \<Rightarrow> CopyStop (Panic m)
              | Fatal m \<Rightarrow> CopyStop (Fatal m)
              | Blocked \<Rightarrow> CopyStop Blocked))
      | Panic m \<Rightarrow> CopyStop (Panic m)
      | Fatal m \<Rightarrow> CopyStop (Fatal m)
      | Blocked \<Rightarrow> CopyStop Blocked)"

text \<open>
  The loop. \<open>None\<close> means it runs for ever, \<open>Some Blocked\<close> that it waits in a read or a write.
\<close>

partial_function (option) copy_loop ::
    "'s reader \<Rightarrow> 'd writer \<Rightarrow> int \<Rightarrow> 's \<Rightarrow> 'd \<Rightarrow> ((int \<times> err option) \<times> 's \<times> 'd) outcome option" where
  "copy_loop rd wr written s d =
     (case copy_once rd wr written s d of
        CopyStop r \<Rightarrow> Some r
      | CopyMore written' s' d' \<Rightarrow> copy_loop rd wr written' s' d')"

subsection \<open>What io.Copy relies on\<close>

text \<open>
  A source: \<open>avail s\<close> are the bytes the reads will still hand out before an error, \<open>gas s\<close>
  decreases with every read that returns no error.
\<close>

locale byte_source =
  fixes rd :: "nat \<Rightarrow> 's \<Rightarrow> ((bytes \<times> err option) \<times> 's) outcome"
    and avail :: "'s \<Rightarrow> bytes"
    and gas :: "'s \<Rightarrow> nat"
  assumes rd_bound: "rd n s = Ret ((bs, er), s') \<Longrightarrow> length bs \<le> n"
    and rd_avail: "rd n s = Ret ((bs, er), s') \<Longrightarrow> avail s = bs @ avail s'"
    and rd_eof: "rd n s = Ret ((bs, Some EOF), s') \<Longrightarrow> avail s' = []"
    and rd_gas: "rd n s = Ret ((bs, None), s') \<Longrightarrow> 0 < n \<Longrightarrow> gas s' < gas s"

text \<open>
  A sink: \<open>sunk d\<close> are the bytes handed over so far. \<open>wr_nil\<close> is io.Writer's promise that a
  nil error means all bytes were taken. \<open>exact_sink\<close> adds that the count returned with an error
  is the number of bytes taken.
\<close>

locale byte_sink =
  fixes wr :: "bytes \<Rightarrow> 'd \<Rightarrow> ((int \<times> err option) \<times> 'd) outcome"
    and sunk :: "'d \<Rightarrow> bytes"
    and dst_ok :: "'d \<Rightarrow> bool"
  assumes wr_dst_ok: "dst_ok d \<Longrightarrow> wr bs d = Ret (r, d') \<Longrightarrow> dst_ok d'"
    and wr_nil: "dst_ok d \<Longrightarrow> wr bs d = Ret ((n, None), d') \<Longrightarrow>
      n = int (length bs) \<and> sunk d' = sunk d @ bs"
    and wr_part: "dst_ok d \<Longrightarrow> wr bs d = Ret ((n, ew), d') \<Longrightarrow>
      \<exists>k. sunk d' = sunk d @ take k bs"
    and wr_range: "dst_ok d \<Longrightarrow> wr bs d = Ret ((n, ew), d') \<Longrightarrow> 0 \<le> n \<and> n \<le> int (length bs)"

locale exact_sink = byte_sink +
  assumes wr_exact: "dst_ok d \<Longrightarrow> wr bs d = Ret ((n, ew), d') \<Longrightarrow>
      sunk d' = sunk d @ take (nat n) bs"

locale copy_pair = byte_source + byte_sink

locale exact_copy_pair = copy_pair + exact_sink

text \<open>
  netx.Stream as a whole: a read touches only the incoming bytes, a write only the outgoing ones,
  and closing an end, or both, hands nothing over and makes nothing new readable; closing the
  write end leaves all that can be read.
\<close>

locale netx_stream =
    byte_source rd avail gas + byte_sink wr sunk dst_ok
  for rd :: "nat \<Rightarrow> 's \<Rightarrow> ((bytes \<times> err option) \<times> 's) outcome"
    and avail :: "'s \<Rightarrow> bytes"
    and gas :: "'s \<Rightarrow> nat"
    and wr :: "bytes \<Rightarrow> 's \<Rightarrow> ((int \<times> err option) \<times> 's) outcome"
    and sunk :: "'s \<Rightarrow> bytes"
    and dst_ok :: "'s \<Rightarrow> bool" +
  fixes close_read close_write close_both :: "'s \<Rightarrow> (err option \<times> 's) outcome"
  assumes rd_sunk: "rd n s = Ret (r, s') \<Longrightarrow> sunk s' = sunk s"
    and wr_avail: "wr bs s = Ret (q, s') \<Longrightarrow> avail s' = avail s"
    and close_sunk:
      "close_read s = Ret (e, s') \<Longrightarrow> sunk s' = sunk s"
      "close_write s = Ret (e, s') \<Longrightarrow> sunk s' = sunk s"
      "close_both s = Ret (e, s') \<Longrightarrow> sunk s' = sunk s"
    and close_avail:
      "close_read s = Ret (e, s') \<Longrightarrow> prefix (avail s') (avail s)"
      "close_write s = Ret (e, s') \<Longrightarrow> avail s' = avail s"
      "close_both s = Ret (e, s') \<Longrightarrow> prefix (avail s') (avail s)"

text \<open>
  How an implementation shows the contract: one fact about each of Read and Write, and one about
  the three ways of closing.
\<close>

lemma netx_streamI:
  assumes rd: "\<And>n s bs er s'. rd n s = Ret ((bs, er), s') \<Longrightarrow>
      length bs \<le> n \<and> avail s = bs @ avail s' \<and> (er = Some EOF \<longrightarrow> avail s' = []) \<and>
      (er = None \<longrightarrow> 0 < n \<longrightarrow> gas s' < gas s) \<and> sunk s' = sunk s"
    and wr: "\<And>bs s n ew s'. wr bs s = Ret ((n, ew), s') \<Longrightarrow>
      (\<exists>k. sunk s' = sunk s @ take k bs) \<and> 0 \<le> n \<and> n \<le> int (length bs) \<and>
      (ew = None \<longrightarrow> n = int (length bs) \<and> sunk s' = sunk s @ bs) \<and> avail s' = avail s"
    and cl: "\<And>s e s'. close_read s = Ret (e, s') \<or> close_write s = Ret (e, s') \<or> close_both s = Ret (e, s') \<Longrightarrow>
      sunk s' = sunk s \<and> prefix (avail s') (avail s)"
    and cw: "\<And>s e s'. close_write s = Ret (e, s') \<Longrightarrow> avail s' = avail s"
  shows "netx_stream rd avail gas wr sunk (\<lambda>_. True) close_read close_write close_both"
proof (unfold_locales, goal_cases)
  case (9 n s r s')
  then show ?case by (cases r) (use rd in blast)
next
  case (10 bs s q s')
  then show ?case by (cases q) (use wr in blast)
qed (use rd wr cl cw in blast)+

subsection \<open>Scripts\<close>

text \<open>
  What a peer, the operating system or a library will answer to the coming receive calls is a list
  of results. An error stays at its head. \<open>script_bytes\<close> are the bytes it still brings.
\<close>

type_synonym script = "(err + bytes) list"

fun script_bytes :: "script \<Rightarrow> bytes" where
  "script_bytes (Inr data # rs) = data @ script_bytes rs"
| "script_bytes _ = []"

fun script_gas :: "script \<Rightarrow> nat" where
  "script_gas (Inr data # rs) = Suc (length data) + script_gas rs"
| "script_gas _ = 0"

subsection \<open>What io.Copy then does\<close>

lemma copy_account_valid:
  "0 \<le> nw \<Longrightarrow> nw \<le> len \<Longrightarrow>
   copy_account len nw ew = (nw, if ew = None \<and> nw \<noteq> len then Some ErrShortWrite else ew)"
  by (auto simp: copy_account_def Let_def)

context copy_pair
begin

lemma copy_once_more:
  assumes "dst_ok d" and "copy_once rd wr w s d = CopyMore w' s' d'"
  shows "\<exists>bs. avail s = bs @ avail s' \<and> sunk d' = sunk d @ bs \<and> w' = w + int (length bs) \<and>
    gas s' < gas s \<and> dst_ok d'"
proof -
  from assms(2) obtain bs s1 where rd: "rd copy_buf_size s = Ret ((bs, None), s1)" and s1: "s' = s1"
    by (auto simp: copy_once_def copy_end_def split: outcome.splits prod.splits option.splits if_splits)
  have "0 < copy_buf_size" by (simp add: copy_buf_size_def)
  with rd_gas [OF rd] s1 have gas: "gas s' < gas s" by simp
  have av: "avail s = bs @ avail s'" using rd_avail [OF rd] s1 by simp
  show ?thesis
  proof (cases "bs = []")
    case True
    with assms rd s1 have "d' = d" "w' = w" by (auto simp: copy_once_def copy_end_def)
    with True av gas assms(1) show ?thesis by auto
  next
    case False
    with assms(2) rd obtain n where wr: "wr bs d = Ret ((n, None), d')"
        and n: "w' = w + n"
      using assms(1) wr_range
      by (fastforce simp: copy_once_def copy_end_def copy_account_valid
          split: outcome.splits prod.splits option.splits if_splits)
    from wr_nil [OF assms(1) wr] wr_dst_ok [OF assms(1) wr] n av gas show ?thesis by auto
  qed
qed

lemma copy_once_stop:
  assumes "dst_ok d" and "copy_once rd wr w s d = CopyStop (Ret ((n, e), s', d'))"
  shows "dst_ok d' \<and>
    (\<exists>bs k. avail s = bs @ avail s' \<and> sunk d' = sunk d @ take k bs \<and>
       (e = None \<longrightarrow> k = length bs \<and> n = w + int k \<and> avail s' = []))"
proof -
  from assms(2) obtain bs er where rd: "rd copy_buf_size s = Ret ((bs, er), s')"
    by (auto simp: copy_once_def copy_end_def split: outcome.splits prod.splits option.splits if_splits)
  have av: "avail s = bs @ avail s'" using rd_avail [OF rd] .
  show ?thesis
  proof (cases "bs = []")
    case True
    with assms rd have "d' = d" "n = w" "\<exists>x. er = Some x \<and> e = (if x = EOF then None else Some x)"
      by (auto simp: copy_once_def copy_end_def split: option.splits if_splits)
    with True av assms(1) rd rd_eof show ?thesis by (auto split: if_splits)
  next
    case False
    with assms(2) rd obtain nw ew where wr: "wr bs d = Ret ((nw, ew), d')"
      by (auto simp: copy_once_def copy_end_def split: outcome.splits prod.splits option.splits if_splits)
    note facts = wr_dst_ok [OF assms(1) wr] wr_part [OF assms(1) wr] wr_range [OF assms(1) wr]
    show ?thesis
    proof (cases e)
      case None
      with False assms(2) rd wr facts have "er = Some EOF" "ew = None" "n = w + nw"
        by (auto simp: copy_once_def copy_end_def copy_account_valid split: option.splits if_splits)
      with None av facts(1) wr_nil [OF assms(1)] wr rd rd_eof show ?thesis by auto
    qed (use av facts in auto)
  qed
qed

lemma copy_terminates:
  assumes "dst_ok d"
  shows "\<exists>r. copy_loop rd wr w s d = Some r"
  using assms
proof (induction "gas s" arbitrary: w s d rule: less_induct)
  case less
  show ?case
  proof (cases "copy_once rd wr w s d")
    case (CopyMore w' s' d')
    with copy_once_more [OF less.prems CopyMore] less.hyps show ?thesis
      by (subst copy_loop.simps) auto
  qed (subst copy_loop.simps, simp)
qed

text \<open>
  Whatever the copy's end, what reached the sink is a prefix of what the source had; a copy that
  ends without an error has moved all of it and returns its length.
\<close>

lemma copy_transfers:
  assumes "dst_ok d" and "copy_loop rd wr w s d = Some (Ret ((n, e), s', d'))"
  shows "dst_ok d' \<and>
    (\<exists>t. sunk d' = sunk d @ t \<and> prefix t (avail s) \<and>
      (e = None \<longrightarrow> t = avail s \<and> n = w + int (length t) \<and> avail s' = []))"
  using assms
proof (induction "gas s" arbitrary: w s d rule: less_induct)
  case less
  show ?case
  proof (cases "copy_once rd wr w s d")
    case (CopyMore w1 s1 d1)
    obtain bs where bs: "avail s = bs @ avail s1" "sunk d1 = sunk d @ bs" "w1 = w + int (length bs)"
        "gas s1 < gas s" "dst_ok d1"
      using copy_once_more [OF less.prems(1) CopyMore] by blast
    have "copy_loop rd wr w1 s1 d1 = Some (Ret ((n, e), s', d'))"
      using less.prems(2) CopyMore by (subst (asm) copy_loop.simps) simp
    from less.hyps [OF bs(4,5) this] show ?thesis using bs by fastforce
  next
    case (CopyStop r)
    with less.prems(2) have "r = Ret ((n, e), s', d')"
      by (subst (asm) copy_loop.simps) simp
    from copy_once_stop [OF less.prems(1) CopyStop [unfolded this]]
    obtain bs k where k: "dst_ok d'" "avail s = bs @ avail s'" "sunk d' = sunk d @ take k bs"
        "e = None \<longrightarrow> k = length bs \<and> n = w + int k \<and> avail s' = []"
      by blast
    moreover from k(2) have "prefix (take k bs) (avail s)"
      by (metis prefix_prefix prefix_take)
    ultimately show ?thesis by auto
  qed
qed

text \<open>What every Write keeps of the destination, the whole copy keeps.\<close>

lemma copy_once_keeps:
  assumes "\<And>bs d r d'. P d \<Longrightarrow> wr bs d = Ret (r, d') \<Longrightarrow> P d'" and "P d"
  shows "copy_once rd wr w s d = CopyMore w' s' d' \<Longrightarrow> P d'"
    and "copy_once rd wr w s d = CopyStop (Ret (q, s', d')) \<Longrightarrow> P d'"
  using assms
  by (auto simp: copy_once_def copy_end_def split: outcome.splits prod.splits option.splits if_splits)

lemma copy_keeps:
  assumes keeps: "\<And>bs d r d'. P d \<Longrightarrow> wr bs d = Ret (r, d') \<Longrightarrow> P d'"
    and "dst_ok d" and "P d" and "copy_loop rd wr w s d = Some (Ret (q, s', d'))"
  shows "P d'"
  using assms(2-)
proof (induction "gas s" arbitrary: w s d rule: less_induct)
  case less
  show ?case
  proof (cases "copy_once rd wr w s d")
    case (CopyMore w1 s1 d1)
    have "copy_loop rd wr w1 s1 d1 = Some (Ret (q, s', d'))"
      using less.prems(3) CopyMore by (subst (asm) copy_loop.simps) simp
    moreover have "P d1" using copy_once_keeps(1) [of P] keeps less.prems(2) CopyMore by metis
    ultimately show ?thesis using copy_once_more [OF less.prems(1) CopyMore] less.hyps by blast
  next
    case (CopyStop r)
    with less.prems(3) have "r = Ret (q, s', d')" by (subst (asm) copy_loop.simps) simp
    with copy_once_keeps(2) [of P] keeps less.prems(2) CopyStop show ?thesis by metis
  qed
qed

end

context exact_copy_pair
begin

text \<open>With honest counts the number io.Copy returns is the number of bytes taken by the sink.\<close>

lemma copy_once_stop_exact:
  assumes "dst_ok d" and "copy_once rd wr w s d = CopyStop (Ret ((n, e), s', d'))"
  shows "\<exists>t. sunk d' = sunk d @ t \<and> n = w + int (length t)"
proof -
  from assms(2) obtain bs er where rd: "rd copy_buf_size s = Ret ((bs, er), s')"
    by (auto simp: copy_once_def copy_end_def split: outcome.splits prod.splits option.splits if_splits)
  show ?thesis
  proof (cases "bs = []")
    case True
    with assms rd show ?thesis
      by (auto simp: copy_once_def copy_end_def split: option.splits if_splits)
  next
    case False
    with assms(2) rd obtain nw ew where wr: "wr bs d = Ret ((nw, ew), d')"
      by (auto simp: copy_once_def copy_end_def split: outcome.splits prod.splits option.splits if_splits)
    with False assms(2) rd wr_range [OF assms(1) wr] have "n = w + nw"
      by (auto simp: copy_once_def copy_end_def copy_account_valid split: option.splits if_splits)
    with wr_exact [OF assms(1) wr] wr_range [OF assms(1) wr] show ?thesis by auto
  qed
qed

lemma copy_counts:
  assumes "dst_ok d" and "copy_loop rd wr w s d = Some (Ret ((n, e), s', d'))"
  shows "\<exists>t. sunk d' = sunk d @ t \<and> n = w + int (length t)"
  using assms
proof (induction "gas s" arbitrary: w s d rule: less_induct)
  case less
  show ?case
  proof (cases "copy_once rd wr w s d")
    case (CopyMore w1 s1 d1)
    obtain bs where bs: "sunk d1 = sunk d @ bs" "w1 = w + int (length bs)" "gas s1 < gas s" "dst_ok d1"
      using copy_once_more [OF less.prems(1) CopyMore] by blast
    have "copy_loop rd wr w1 s1 d1 = Some (Ret ((n, e), s', d'))"
      using less.prems(2) CopyMore by (subst (asm) copy_loop.simps) simp
    from less.hyps [OF bs(3,4) this] bs show ?thesis by fastforce
  next
    case (CopyStop r)
    with less.prems(2) have "r = Ret ((n, e), s', d')"
      by (subst (asm) copy_loop.simps) simp
    from copy_once_stop_exact [OF less.prems(1) CopyStop [unfolded this]] show ?thesis .
  qed
qed

end

end
