(* ===== verification/StdStream.thy ===== *)
theory StdStream
  imports Netx
begin

text \<open>
  The stream half of std_net.go: stdStream, a net.Conn or tls.Conn wrapped so that CloseRead and
  CloseWrite exist. The connection is the standard library's and the network's: what it delivers is
  the script \<open>c_in\<close>, how its writes end the list \<open>c_wres\<close> (\<open>None\<close>: all bytes taken;
  \<open>Some (k, e)\<close>: error \<open>e\<close> after at most \<open>k\<close> bytes), both arbitrary.
\<close>

subsection \<open>Connections\<close>

datatype conn_kind = TCPConn | UnixConn | TLSConn

text \<open>The method sets of the dynamic types: a TLS connection has no CloseRead.\<close>

fun has_CloseRead :: "conn_kind \<Rightarrow> bool" where
  "has_CloseRead TLSConn = False"
| "has_CloseRead _ = True"

fun has_CloseWrite :: "conn_kind \<Rightarrow> bool" where
  "has_CloseWrite _ = True"

record conn =
  c_kind :: conn_kind
  c_in :: script
  c_out :: bytes
  c_wres :: "(nat \<times> err) option list"
  c_closeRead_res :: "err option"
  c_closeWrite_res :: "err option"
  c_close_res :: "err option"
  c_closeReads :: nat
  c_closeWrites :: nat
  c_closes :: nat

definition new_conn :: "conn_kind \<Rightarrow> script \<Rightarrow> (nat \<times> err) option list \<Rightarrow> conn" where
  "new_conn k ins wres =
     \<lparr>c_kind = k, c_in = ins, c_out = [], c_wres = wres, c_closeRead_res = None,
      c_closeWrite_res = None, c_close_res = None, c_closeReads = 0, c_closeWrites = 0, c_closes = 0\<rparr>"

text \<open>
  After Close every call fails with net.ErrClosed; after a CloseWrite that succeeded writes fail (one
  that failed, as on a TLS connection before its handshake, need not have shut anything down). A slice
  longer than the buffer is delivered by several reads. On a unixpacket connection the system drops the
  rest of a packet longer than the buffer, which here is always io.Copy's: its script is what the
  system delivers, packets already cut.
\<close>

definition conn_Read :: "nat \<Rightarrow> (conn, bytes \<times> err option) action" where
  "conn_Read n c =
     (if 0 < c_closes c then Ret (([], Some ErrNetClosed), c)
      else if n = 0 then Ret (([], None), c)
      else case c_in c of
        [] \<Rightarrow> Blocked
      | Inl e # _ \<Rightarrow> Ret (([], Some e), c)
      | Inr data # rs \<Rightarrow>
          Ret ((take n data, None),
            c\<lparr>c_in := (if length data \<le> n then rs else Inr (drop n data) # rs)\<rparr>))"

definition conn_Write :: "bytes \<Rightarrow> (conn, int \<times> err option) action" where
  "conn_Write p c =
     (if 0 < c_closes c then Ret ((0, Some ErrNetClosed), c)
      else if 0 < c_closeWrites c \<and> c_closeWrite_res c = None then Ret ((0, Some ErrShutdown), c)
      else case c_wres c of
        [] \<Rightarrow> Blocked
      | None # ws \<Rightarrow> Ret ((int (length p), None), c\<lparr>c_wres := ws, c_out := c_out c @ p\<rparr>)
      | Some (k, e) # ws \<Rightarrow>
          Ret ((int (min k (length p)), Some e), c\<lparr>c_wres := ws, c_out := c_out c @ take k p\<rparr>))"

definition conn_CloseRead :: "(conn, err option) action" where
  "conn_CloseRead c =
     (if 0 < c_closes c then Ret (Some ErrNetClosed, c)
      else Ret (c_closeRead_res c, c\<lparr>c_closeReads := Suc (c_closeReads c)\<rparr>))"

definition conn_CloseWrite :: "(conn, err option) action" where
  "conn_CloseWrite c =
     (if 0 < c_closes c then Ret (Some ErrNetClosed, c)
      else Ret (c_closeWrite_res c, c\<lparr>c_closeWrites := Suc (c_closeWrites c)\<rparr>))"

definition conn_Close :: "(conn, err option) action" where
  "conn_Close c =
     Ret (if 0 < c_closes c then Some ErrNetClosed else c_close_res c,
          c\<lparr>c_closes := Suc (c_closes c)\<rparr>)"

subsection \<open>stdStream\<close>

text \<open>
  The struct embeds its connection, so Read, Write and Close are the connection's own. CloseRead
  and CloseWrite ask the dynamic type for the method and do nothing when it has none.
\<close>

record stdStream =
  ReadWriteCloser :: conn

definition std_Read :: "nat \<Rightarrow> (stdStream, bytes \<times> err option) action" where
  "std_Read n s =
     then_do (conn_Read n (ReadWriteCloser s)) (\<lambda>(r, c). Ret (r, s\<lparr>ReadWriteCloser := c\<rparr>))"

definition std_Write :: "bytes \<Rightarrow> (stdStream, int \<times> err option) action" where
  "std_Write p s =
     then_do (conn_Write p (ReadWriteCloser s)) (\<lambda>(r, c). Ret (r, s\<lparr>ReadWriteCloser := c\<rparr>))"

definition std_Close :: "(stdStream, err option) action" where
  "std_Close s =
     then_do (conn_Close (ReadWriteCloser s)) (\<lambda>(r, c). Ret (r, s\<lparr>ReadWriteCloser := c\<rparr>))"

definition std_CloseRead :: "(stdStream, err option) action" where
  "std_CloseRead s =
     (if has_CloseRead (c_kind (ReadWriteCloser s))
      then then_do (conn_CloseRead (ReadWriteCloser s)) (\<lambda>(r, c). Ret (r, s\<lparr>ReadWriteCloser := c\<rparr>))
      else Ret (None, s))"

definition std_CloseWrite :: "(stdStream, err option) action" where
  "std_CloseWrite s =
     (if has_CloseWrite (c_kind (ReadWriteCloser s))
      then then_do (conn_CloseWrite (ReadWriteCloser s)) (\<lambda>(r, c). Ret (r, s\<lparr>ReadWriteCloser := c\<rparr>))
      else Ret (None, s))"

subsection \<open>The byte stream it implements\<close>

definition std_avail :: "stdStream \<Rightarrow> bytes" where
  "std_avail s =
     (let c = ReadWriteCloser s in if 0 < c_closes c then [] else script_bytes (c_in c))"

definition std_gas :: "stdStream \<Rightarrow> nat" where
  "std_gas s = script_gas (c_in (ReadWriteCloser s))"

definition std_sunk :: "stdStream \<Rightarrow> bytes" where
  "std_sunk s = c_out (ReadWriteCloser s)"

lemmas std_defs = std_Read_def std_Write_def std_Close_def std_CloseRead_def std_CloseWrite_def
  conn_Close_def conn_CloseRead_def conn_CloseWrite_def std_avail_def std_sunk_def std_gas_def

lemma conn_Read_cases:
  assumes "conn_Read n c = Ret ((bs, er), c')"
  obtains
    (closed) "0 < c_closes c" "bs = []" "er = Some ErrNetClosed" "c' = c"
  | (empty) "n = 0" "bs = []" "er = None" "c' = c"
  | (failed) e qs where "c_in c = Inl e # qs" "bs = []" "er = Some e" "c' = c"
  | (data) data rs where "c_closes c = 0" "0 < n" "c_in c = Inr data # rs" "bs = take n data" "er = None"
      "c' = c\<lparr>c_in := (if length data \<le> n then rs else Inr (drop n data) # rs)\<rparr>"
proof (cases "0 < c_closes c \<or> n = 0")
  case True
  with assms closed empty show thesis by (auto simp: conn_Read_def split: if_splits)
next
  case False
  show thesis
  proof (cases "c_in c")
    case Nil
    with False assms show thesis by (simp add: conn_Read_def)
  next
    case (Cons r rs)
    show thesis
    proof (cases r)
      case (Inl e)
      from False Cons Inl assms have "bs = []" "er = Some e" "c' = c" by (auto simp: conn_Read_def)
      with Cons Inl show thesis by (intro failed) auto
    next
      case (Inr d)
      from False Cons Inr assms have "bs = take n d" "er = None"
        "c' = c\<lparr>c_in := (if length d \<le> n then rs else Inr (drop n d) # rs)\<rparr>"
        by (simp_all add: conn_Read_def)
      with False Cons Inr show thesis by (intro data) auto
    qed
  qed
qed

lemma conn_Write_cases:
  assumes "conn_Write p c = Ret ((m, ew), c')"
  obtains
    (refused) e where "m = 0" "ew = Some e" "c' = c"
  | (all) ws where "m = int (length p)" "ew = None" "c' = c\<lparr>c_wres := ws, c_out := c_out c @ p\<rparr>"
  | (part) k e ws where "m = int (min k (length p))" "ew = Some e"
      "c' = c\<lparr>c_wres := ws, c_out := c_out c @ take k p\<rparr>"
proof (cases "0 < c_closes c \<or> 0 < c_closeWrites c \<and> c_closeWrite_res c = None")
  case True
  with assms refused show thesis by (auto simp: conn_Write_def split: if_splits)
next
  case False
  then have open_conn: "c_closes c = 0" "(0 < c_closeWrites c \<and> c_closeWrite_res c = None) = False" by auto
  show thesis
  proof (cases "c_wres c")
    case Nil
    with assms show thesis by (simp add: conn_Write_def open_conn)
  next
    case (Cons r ws)
    show thesis
    proof (cases r)
      case None
      from Cons None assms
      have "m = int (length p)" "ew = None" "c' = c\<lparr>c_wres := ws, c_out := c_out c @ p\<rparr>"
        by (simp_all add: conn_Write_def open_conn)
      then show thesis by (rule all)
    next
      case (Some ke)
      obtain k e where "ke = (k, e)" by (cases ke)
      with Cons Some assms
      have "m = int (min k (length p))" "ew = Some e" "c' = c\<lparr>c_wres := ws, c_out := c_out c @ take k p\<rparr>"
        by (simp_all add: conn_Write_def open_conn)
      then show thesis by (rule part)
    qed
  qed
qed

lemma std_Read_contract:
  assumes "std_Read n s = Ret ((bs, er), s')"
  shows "length bs \<le> n \<and> std_avail s = bs @ std_avail s' \<and>
    (er = Some EOF \<longrightarrow> std_avail s' = []) \<and> (er = None \<longrightarrow> 0 < n \<longrightarrow> std_gas s' < std_gas s) \<and>
    std_sunk s' = std_sunk s"
proof -
  from assms have "conn_Read n (ReadWriteCloser s) = Ret ((bs, er), ReadWriteCloser s')"
    by (auto simp: std_Read_def then_do_Ret_iff)
  then show ?thesis
    by (cases rule: conn_Read_cases) (auto simp: std_avail_def std_gas_def std_sunk_def Let_def)
qed

lemma std_Write_contract:
  assumes "std_Write bs s = Ret ((n, ew), s')"
  shows "std_sunk s' = std_sunk s @ take (nat n) bs"
    and "(\<exists>k. std_sunk s' = std_sunk s @ take k bs) \<and> 0 \<le> n \<and> n \<le> int (length bs) \<and>
      (ew = None \<longrightarrow> n = int (length bs) \<and> std_sunk s' = std_sunk s @ bs) \<and> std_avail s' = std_avail s"
proof -
  from assms have wr: "conn_Write bs (ReadWriteCloser s) = Ret ((n, ew), ReadWriteCloser s')"
    by (auto simp: std_Write_def then_do_Ret_iff)
  then show "std_sunk s' = std_sunk s @ take (nat n) bs"
    by (cases rule: conn_Write_cases) (auto simp: std_sunk_def min_def)
  from wr show "(\<exists>k. std_sunk s' = std_sunk s @ take k bs) \<and> 0 \<le> n \<and> n \<le> int (length bs) \<and>
      (ew = None \<longrightarrow> n = int (length bs) \<and> std_sunk s' = std_sunk s @ bs) \<and> std_avail s' = std_avail s"
    by (cases rule: conn_Write_cases) (auto simp: std_sunk_def std_avail_def Let_def intro: exI [of _ 0])
qed

lemma std_close_contract:
  assumes "std_CloseRead s = Ret (e, s') \<or> std_CloseWrite s = Ret (e, s') \<or> std_Close s = Ret (e, s')"
  shows "std_sunk s' = std_sunk s \<and> prefix (std_avail s') (std_avail s)"
  using assms by (auto simp: std_defs then_do_Ret_iff Let_def split: if_splits)

lemma std_CloseWrite_avail: "std_CloseWrite s = Ret (e, s') \<Longrightarrow> std_avail s' = std_avail s"
  by (auto simp: std_defs then_do_Ret_iff Let_def split: if_splits)

interpretation std: netx_stream std_Read std_avail std_gas std_Write std_sunk "\<lambda>_. True"
    std_CloseRead std_CloseWrite std_Close
  by (rule netx_streamI
      [OF std_Read_contract std_Write_contract(2) std_close_contract std_CloseWrite_avail])

interpretation std_exact: exact_sink std_Write std_sunk "\<lambda>_. True"
  by unfold_locales (rule std_Write_contract(1))

end
