(* ===== verification/GrpcStream.thy ===== *)
theory GrpcStream
  imports Netx
begin

text \<open>
  The stream half of grpcnet/grpc_net.go: grpcStream, which turns the packets of a gRPC bidi
  stream into a byte stream. The gRPC library is outside the repository: what its Recv will return
  is the list \<open>g_recv\<close>, what its Send will return the list \<open>g_send\<close>; both are arbitrary, so every
  behaviour of the library is covered. A Recv error stays (the stream is over, as the library
  documents), and an exhausted list means that the call waits.
\<close>

subsection \<open>State\<close>

record grpc_stream =
  g_recv :: script
  g_send :: "err option list"
  g_sent :: "bytes list"
  g_client :: bool
  g_closesend_res :: "err option"
  g_closesends :: nat
  g_buf :: bytes
  g_readClosed :: bool
  g_writeClosed :: bool
  g_closeCallback :: "sigchan option"

text \<open>
  newGrpcStream wraps a gRPC stream, here its two scripts and whether it is the client's (only
  that one has a CloseSend method); the callback is nil or closes the given done channel.
\<close>

definition newGrpcStream ::
    "script \<Rightarrow> err option list \<Rightarrow> bool \<Rightarrow> err option \<Rightarrow> sigchan option \<Rightarrow> grpc_stream" where
  "newGrpcStream recv send client csres callback =
     \<lparr>g_recv = recv, g_send = send, g_sent = [], g_client = client, g_closesend_res = csres,
      g_closesends = 0, g_buf = [], g_readClosed = False, g_writeClosed = False,
      g_closeCallback = callback\<rparr>"

subsection \<open>The two calls of the library\<close>

fun grpc_Recv :: "script \<Rightarrow> ((err + bytes) \<times> script) outcome" where
  "grpc_Recv [] = Blocked"
| "grpc_Recv (Inl e # rs) = Ret (Inl e, Inl e # rs)"
| "grpc_Recv (Inr data # rs) = Ret (Inr data, rs)"

subsection \<open>Operations\<close>

definition grpc_Read :: "nat \<Rightarrow> (grpc_stream, bytes \<times> err option) action" where
  "grpc_Read n s =
     (if g_buf s \<noteq> [] then
        Ret ((take n (g_buf s), None), s\<lparr>g_buf := drop n (g_buf s)\<rparr>)
      else if g_readClosed s then Ret (([], Some EOF), s)
      else then_do (grpc_Recv (g_recv s)) (\<lambda>(r, recv').
        case r of
          Inl e \<Rightarrow> Ret (([], Some e), s\<lparr>g_recv := recv'\<rparr>)
        | Inr data \<Rightarrow>
            (let copied = min n (length data)
             in if copied = length data
                then Ret ((take copied data, None), s\<lparr>g_recv := recv'\<rparr>)
                else Ret ((take copied data, None),
                       s\<lparr>g_recv := recv', g_buf := g_buf s @ drop copied data\<rparr>))))"

definition grpc_Write :: "bytes \<Rightarrow> (grpc_stream, int \<times> err option) action" where
  "grpc_Write p s =
     (if g_writeClosed s then Ret ((0, Some ErrClosedPipe), s)
      else case g_send s of
        [] \<Rightarrow> Blocked
      | Some e # ss \<Rightarrow> Ret ((0, Some e), s\<lparr>g_send := ss\<rparr>)
      | None # ss \<Rightarrow> Ret ((int (length p), None), s\<lparr>g_send := ss, g_sent := g_sent s @ [p]\<rparr>))"

definition grpc_CloseRead :: "(grpc_stream, err option) action" where
  "grpc_CloseRead s = Ret (None, s\<lparr>g_readClosed := True\<rparr>)"

text \<open>CompareAndSwap lets only the first call through; a server's stream has no CloseSend.\<close>

definition grpc_CloseWrite :: "(grpc_stream, err option) action" where
  "grpc_CloseWrite s =
     (if \<not> g_writeClosed s then
        (let s' = s\<lparr>g_writeClosed := True\<rparr>
         in if g_client s then Ret (g_closesend_res s, s'\<lparr>g_closesends := Suc (g_closesends s)\<rparr>)
            else Ret (None, s'))
      else Ret (None, s))"

definition grpc_Close :: "(grpc_stream, err option) action" where
  "grpc_Close s =
     then_do (grpc_CloseRead s) (\<lambda>(e1, s1).
     then_do (grpc_CloseWrite s1) (\<lambda>(e2, s2).
       let err = errors_Join [e1, e2]
       in case g_closeCallback s2 of
            None \<Rightarrow> Ret (err, s2)
          | Some done \<Rightarrow>
              then_do (close_chan done) (\<lambda>done'. Ret (err, s2\<lparr>g_closeCallback := Some done'\<rparr>))))"

subsection \<open>The byte stream it implements\<close>

definition grpc_avail :: "grpc_stream \<Rightarrow> bytes" where
  "grpc_avail s = g_buf s @ (if g_readClosed s then [] else script_bytes (g_recv s))"

definition grpc_gas :: "grpc_stream \<Rightarrow> nat" where
  "grpc_gas s = length (g_buf s) + script_gas (g_recv s)"

definition grpc_sunk :: "grpc_stream \<Rightarrow> bytes" where
  "grpc_sunk s = concat (g_sent s)"

lemma grpc_Recv_cases:
  assumes "grpc_Recv rs = Ret (r, rs')"
  obtains (error) e qs where "r = Inl e" "rs' = rs" "rs = Inl e # qs"
    | (packet) data where "r = Inr data" "rs = Inr data # rs'"
  using assms by (cases rs rule: grpc_Recv.cases) auto

text \<open>The ways a Read can return, one per return statement of the code.\<close>

lemma grpc_Read_cases:
  assumes "grpc_Read n s = Ret ((bs, er), s')"
  obtains
    (buffered) "g_buf s \<noteq> []" "bs = take n (g_buf s)" "er = None" "s' = s\<lparr>g_buf := drop n (g_buf s)\<rparr>"
  | (closed) "g_buf s = []" "g_readClosed s" "bs = []" "er = Some EOF" "s' = s"
  | (failed) e qs where "g_buf s = []" "\<not> g_readClosed s" "g_recv s = Inl e # qs" "bs = []"
      "er = Some e" "s' = s"
  | (packet) data rs where "g_buf s = []" "\<not> g_readClosed s" "g_recv s = Inr data # rs"
      "bs = take n data" "er = None" "s' = s\<lparr>g_recv := rs, g_buf := drop n data\<rparr>"
proof (cases "g_buf s = [] \<and> \<not> g_readClosed s")
  case True
  with assms obtain r rs where rs: "grpc_Recv (g_recv s) = Ret (r, rs)"
    by (auto simp: grpc_Read_def then_do_Ret_iff)
  from rs show thesis
  proof (cases rule: grpc_Recv_cases)
    case error
    with True assms rs failed show thesis by (auto simp: grpc_Read_def)
  next
    case (packet data)
    have "s\<lparr>g_recv := rs, g_buf := []\<rparr> = s\<lparr>g_recv := rs\<rparr>" using True by (cases s) simp
    with True assms rs packet that(4) [of data rs] show thesis
      by (auto simp: grpc_Read_def Let_def min_def split: if_splits)
  qed
qed (use assms buffered closed in \<open>auto simp: grpc_Read_def split: if_splits\<close>)

lemma grpc_Read_contract:
  assumes "grpc_Read n s = Ret ((bs, er), s')"
  shows "length bs \<le> n \<and> grpc_avail s = bs @ grpc_avail s' \<and>
    (er = Some EOF \<longrightarrow> grpc_avail s' = []) \<and> (er = None \<longrightarrow> 0 < n \<longrightarrow> grpc_gas s' < grpc_gas s) \<and>
    grpc_sunk s' = grpc_sunk s"
  using assms
  by (cases rule: grpc_Read_cases) (auto simp: grpc_avail_def grpc_gas_def grpc_sunk_def)

lemma grpc_Write_contract:
  assumes "grpc_Write bs s = Ret ((n, ew), s')"
  shows "grpc_sunk s' = grpc_sunk s @ take (nat n) bs"
    and "(\<exists>k. grpc_sunk s' = grpc_sunk s @ take k bs) \<and> 0 \<le> n \<and> n \<le> int (length bs) \<and>
      (ew = None \<longrightarrow> n = int (length bs) \<and> grpc_sunk s' = grpc_sunk s @ bs) \<and>
      grpc_avail s' = grpc_avail s"
  using assms
  by (auto simp: grpc_Write_def grpc_sunk_def grpc_avail_def intro: exI [of _ 0]
      split: if_splits list.splits option.splits)

lemma grpc_CloseRead_Ret:
  "grpc_CloseRead s = Ret (e, s') \<longleftrightarrow> e = None \<and> s' = s\<lparr>g_readClosed := True\<rparr>"
  by (auto simp: grpc_CloseRead_def)

lemma grpc_CloseWrite_Ret:
  "grpc_CloseWrite s = Ret (e, s') \<Longrightarrow>
   e = (if \<not> g_writeClosed s \<and> g_client s then g_closesend_res s else None) \<and> g_writeClosed s' \<and>
   g_closesends s' = g_closesends s + (if \<not> g_writeClosed s \<and> g_client s then 1 else 0) \<and>
   g_recv s' = g_recv s \<and> g_buf s' = g_buf s \<and> g_sent s' = g_sent s \<and>
   g_readClosed s' = g_readClosed s \<and> g_closeCallback s' = g_closeCallback s \<and> g_client s' = g_client s"
  by (auto simp: grpc_CloseWrite_def Let_def split: if_splits)

lemma grpc_CloseWrite_avail: "grpc_CloseWrite s = Ret (e, s') \<Longrightarrow> grpc_avail s' = grpc_avail s"
  by (auto dest: grpc_CloseWrite_Ret simp: grpc_avail_def)

text \<open>Close runs the callback last; closing the same done channel twice panics.\<close>

lemma grpc_Close_Ret:
  assumes "grpc_Close s = Ret (e, s')"
  shows "g_readClosed s'" and "g_writeClosed s'" and "g_buf s' = g_buf s" and "g_sent s' = g_sent s"
    and "g_closeCallback s \<noteq> Some ClosedChan"
    and "g_closeCallback s' = map_option (\<lambda>_. ClosedChan) (g_closeCallback s)"
    and "g_closesends s' = g_closesends s + (if \<not> g_writeClosed s \<and> g_client s then 1 else 0)"
    and "e = errors_Join [None, if \<not> g_writeClosed s \<and> g_client s then g_closesend_res s else None]"
proof -
  let ?s1 = "s\<lparr>g_readClosed := True\<rparr>"
  from assms obtain e2 s2 where cw: "grpc_CloseWrite ?s1 = Ret (e2, s2)" and
      cb: "(case g_closeCallback s2 of
            None \<Rightarrow> Ret (errors_Join [None, e2], s2)
          | Some done \<Rightarrow> then_do (close_chan done) (\<lambda>done'.
              Ret (errors_Join [None, e2], s2\<lparr>g_closeCallback := Some done'\<rparr>))) = Ret (e, s')"
    by (auto simp: grpc_Close_def grpc_CloseRead_def then_do_Ret_iff Let_def)
  note s2 = grpc_CloseWrite_Ret [OF cw]
  from cb s2 have *: "e = errors_Join [None, e2] \<and> g_readClosed s' \<and> g_writeClosed s' \<and>
      g_buf s' = g_buf s \<and> g_sent s' = g_sent s \<and> g_closeCallback s \<noteq> Some ClosedChan \<and>
      g_closeCallback s' = map_option (\<lambda>_. ClosedChan) (g_closeCallback s) \<and>
      g_closesends s' = g_closesends s2"
    by (cases "g_closeCallback s") (auto simp: then_do_Ret_iff close_chan_Ret_iff)
  then show "g_readClosed s'" "g_writeClosed s'" "g_buf s' = g_buf s" "g_sent s' = g_sent s"
    "g_closeCallback s \<noteq> Some ClosedChan"
    "g_closeCallback s' = map_option (\<lambda>_. ClosedChan) (g_closeCallback s)"
    by simp_all
  from * s2 show "g_closesends s' = g_closesends s + (if \<not> g_writeClosed s \<and> g_client s then 1 else 0)"
    by simp
  from * s2 show "e = errors_Join [None, if \<not> g_writeClosed s \<and> g_client s then g_closesend_res s else None]"
    by simp
qed

lemma grpc_Close_closed:
  "grpc_Close s = Ret (e, s') \<Longrightarrow>
   g_readClosed s' \<and> g_writeClosed s' \<and> g_closeCallback s' \<noteq> Some OpenChan"
  using grpc_Close_Ret(1,2,6) by auto

lemma grpc_close_contract:
  assumes "grpc_CloseRead s = Ret (e, s') \<or> grpc_CloseWrite s = Ret (e, s') \<or> grpc_Close s = Ret (e, s')"
  shows "grpc_sunk s' = grpc_sunk s \<and> prefix (grpc_avail s') (grpc_avail s)"
  using assms
  by (auto dest!: grpc_CloseWrite_Ret dest: grpc_Close_Ret(1,3,4)
      simp: grpc_CloseRead_Ret grpc_sunk_def grpc_avail_def)

interpretation grpc: netx_stream grpc_Read grpc_avail grpc_gas grpc_Write grpc_sunk "\<lambda>_. True"
    grpc_CloseRead grpc_CloseWrite grpc_Close
  by (rule netx_streamI
      [OF grpc_Read_contract grpc_Write_contract(2) grpc_close_contract grpc_CloseWrite_avail])

interpretation grpc_exact: exact_sink grpc_Write grpc_sunk "\<lambda>_. True"
  by unfold_locales (rule grpc_Write_contract(1))

end
