(* ===== verification/Pipe.thy ===== *)
theory Pipe
  imports GoPrelude
begin

text \<open>
  io.Pipe of the standard library, which both Cap'n Proto transports put between the RPC handler
  that receives a peer's write calls and the local Read. The pipe has no buffer: a Write waits
  until reads have taken all of its bytes or one end is closed. One writer at a time (the pipe's
  wrMu); the slice a waiting writer still offers is \<open>p_pend\<close>.
\<close>

subsection \<open>State and operations\<close>

record pipe =
  p_pend :: "bytes option"
  p_rerr :: "err option"
  p_werr :: "err option"
  p_done :: bool

definition new_pipe :: pipe where
  "new_pipe = \<lparr>p_pend = None, p_rerr = None, p_werr = None, p_done = False\<rparr>"

definition readCloseError :: "pipe \<Rightarrow> err" where
  "readCloseError p =
     (case (p_rerr p, p_werr p) of (None, Some e) \<Rightarrow> e | _ \<Rightarrow> ErrClosedPipe)"

definition writeCloseError :: "pipe \<Rightarrow> err" where
  "writeCloseError p =
     (case (p_werr p, p_rerr p) of (None, Some e) \<Rightarrow> e | _ \<Rightarrow> ErrClosedPipe)"

text \<open>
  A read takes what fits of the pending slice. The writer goes on as soon as its slice is empty,
  also when it was empty from the start.
\<close>

definition pipe_read :: "nat \<Rightarrow> (pipe, bytes \<times> err option) action" where
  "pipe_read n p =
     (if p_done p then Ret (([], Some (readCloseError p)), p)
      else case p_pend p of
        None \<Rightarrow> Blocked
      | Some bw \<Rightarrow>
          Ret ((take n bw, None), p\<lparr>p_pend := (if length bw \<le> n then None else Some (drop n bw))\<rparr>))"

text \<open>
  A write on a closed pipe fails at once; otherwise its bytes are offered to the reader, and its
  result is known when the slice has been taken or an end has been closed.
\<close>

definition pipe_write :: "bytes \<Rightarrow> pipe \<Rightarrow> err option \<times> pipe" where
  "pipe_write bs p =
     (if p_done p then (Some (writeCloseError p), p) else (None, p\<lparr>p_pend := Some bs\<rparr>))"

text \<open>Closing either end: the first error stored stays, a waiting writer is released.\<close>

definition pipe_close_writer :: "pipe \<Rightarrow> pipe" where
  "pipe_close_writer p =
     p\<lparr>p_werr := (case p_werr p of None \<Rightarrow> Some EOF | e \<Rightarrow> e), p_done := True, p_pend := None\<rparr>"

definition pipe_close_reader :: "pipe \<Rightarrow> pipe" where
  "pipe_close_reader p =
     p\<lparr>p_rerr := (case p_rerr p of None \<Rightarrow> Some ErrClosedPipe | e \<Rightarrow> e), p_done := True, p_pend := None\<rparr>"

definition pipe_idle :: "pipe \<Rightarrow> bool" where
  "pipe_idle p \<longleftrightarrow> p_pend p = None"

text \<open>What a Write waiting in the pipe returns when an operation from \<open>p\<close> to \<open>p'\<close> ends its wait.\<close>

definition reply_of_waiting :: "pipe \<Rightarrow> pipe \<Rightarrow> err option list" where
  "reply_of_waiting p p' =
     (if p_pend p \<noteq> None \<and> p_pend p' = None
      then [if p_done p' then Some (writeCloseError p') else None] else [])"

subsection \<open>Bytes waiting in the pipe\<close>

definition pipe_bytes :: "pipe \<Rightarrow> bytes" where
  "pipe_bytes p = (if p_done p then [] else case p_pend p of None \<Rightarrow> [] | Some bw \<Rightarrow> bw)"

text \<open>A bound on the reads that can still return without an error.\<close>

definition pipe_gas :: "pipe \<Rightarrow> nat" where
  "pipe_gas p = (case p_pend p of None \<Rightarrow> 0 | Some bw \<Rightarrow> Suc (length bw))"

text \<open>No byte is lost or reordered by a read, and a read never returns more than it was given room for.\<close>

lemma pipe_read_bytes:
  "pipe_read n p = Ret ((bs, er), p') \<Longrightarrow> pipe_bytes p = bs @ pipe_bytes p' \<and> length bs \<le> n"
  by (auto simp: pipe_read_def pipe_bytes_def split: if_splits option.splits)

lemma pipe_read_err:
  "pipe_read n p = Ret ((bs, Some e), p') \<Longrightarrow> p_done p \<and> bs = [] \<and> p' = p \<and> e = readCloseError p"
  by (auto simp: pipe_read_def split: if_splits option.splits)

lemma pipe_read_ok:
  "pipe_read n p = Ret ((bs, None), p') \<Longrightarrow>
   \<not> p_done p \<and> (\<exists>bw. p_pend p = Some bw \<and> bs = take n bw \<and>
     p' = p\<lparr>p_pend := (if length bw \<le> n then None else Some (drop n bw))\<rparr>)"
  by (auto simp: pipe_read_def split: if_splits option.splits)

lemma pipe_read_done: "pipe_read n p = Ret (r, p') \<Longrightarrow> p_done p' = p_done p"
  by (auto simp: pipe_read_def split: if_splits option.splits)

lemma pipe_write_bytes:
  "pipe_idle p \<Longrightarrow> pipe_write bs p = (e, p') \<Longrightarrow>
   pipe_bytes p' = pipe_bytes p @ (if e = None then bs else [])"
  by (auto simp: pipe_write_def pipe_bytes_def pipe_idle_def split: if_splits)

lemma pipe_close_bytes [simp]:
  "pipe_bytes (pipe_close_writer p) = []" "pipe_bytes (pipe_close_reader p) = []"
  by (simp_all add: pipe_bytes_def pipe_close_writer_def pipe_close_reader_def)

lemma pipe_close_done [simp]:
  "p_done (pipe_close_writer p)" "p_done (pipe_close_reader p)"
  "p_pend (pipe_close_writer p) = None" "p_pend (pipe_close_reader p) = None"
  by (simp_all add: pipe_close_writer_def pipe_close_reader_def)

text \<open>
  Closing the writer of an open pipe makes every read report the end of the stream; closing the
  reader makes every write report a closed pipe.
\<close>

definition pipe_wf :: "pipe \<Rightarrow> bool" where
  "pipe_wf p \<longleftrightarrow> (p_done p \<longleftrightarrow> p_rerr p \<noteq> None \<or> p_werr p \<noteq> None) \<and> (p_done p \<longrightarrow> p_pend p = None)"

lemma pipe_wf_ops:
  "pipe_wf new_pipe"
  "pipe_wf p \<Longrightarrow> pipe_wf (pipe_close_writer p)"
  "pipe_wf p \<Longrightarrow> pipe_wf (pipe_close_reader p)"
  "pipe_wf p \<Longrightarrow> pipe_read n p = Ret (r, p') \<Longrightarrow> pipe_wf p'"
  "pipe_wf p \<Longrightarrow> pipe_write bs p = (e, p') \<Longrightarrow> pipe_wf p'"
  by (auto simp: pipe_wf_def new_pipe_def pipe_close_writer_def pipe_close_reader_def pipe_read_def
      pipe_write_def split: if_splits option.splits)

lemma read_after_close_writer:
  "pipe_wf p \<Longrightarrow> \<not> p_done p \<Longrightarrow>
   pipe_read n (pipe_close_writer p) = Ret (([], Some EOF), pipe_close_writer p)"
  by (auto simp: pipe_wf_def pipe_read_def pipe_close_writer_def readCloseError_def)

lemma write_after_close_reader:
  "pipe_wf p \<Longrightarrow> \<not> p_done p \<Longrightarrow> fst (pipe_write bs (pipe_close_reader p)) = Some ErrClosedPipe"
  by (auto simp: pipe_wf_def pipe_write_def pipe_close_reader_def writeCloseError_def)

lemma write_after_close_writer:
  "pipe_wf p \<Longrightarrow> \<not> p_done p \<Longrightarrow> fst (pipe_write bs (pipe_close_writer p)) = Some ErrClosedPipe"
  by (auto simp: pipe_wf_def pipe_write_def pipe_close_writer_def writeCloseError_def)

end
