(* ===== verification/CapnpStream.thy ===== *)
theory CapnpStream
  imports Netx Pipe
begin

text \<open>
  The stream half of capnpnet/capnp_net.go: byteStreamReader, the local object whose Write and End
  the peer calls, and capnpStream, which reads from it and writes to the peer's. The Cap'n Proto
  library is outside the repository: the calls the peer will make are the list \<open>cs_calls\<close>, the
  results of the own calls the lists \<open>cs_wres\<close> and \<open>cs_endres\<close>, all arbitrary. As the
  library documents, the calls on one object are run in order, one at a time; a Write call that
  waits in the pipe keeps the next call waiting.
\<close>

subsection \<open>byteStreamReader\<close>

text \<open>
  \<open>release\<close> is nil until OpenStream sets it; a set one counts its calls. \<open>bsr_replies\<close> records
  what the calls made by the peer returned, in order.
\<close>

record byteStreamReader =
  bsr_pipe :: pipe
  bsr_release :: "nat option"
  bsr_replies :: "err option list"

definition newByteStreamReader :: byteStreamReader where
  "newByteStreamReader = \<lparr>bsr_pipe = new_pipe, bsr_release = None, bsr_replies = []\<rparr>"

text \<open>
  Write, called by the peer: an argument that cannot be decoded is an error, otherwise the bytes go
  into the pipe. The reply to a Write that waits in the pipe comes later.
\<close>

definition bsr_Write :: "err + bytes \<Rightarrow> byteStreamReader \<Rightarrow> byteStreamReader" where
  "bsr_Write arg s =
     (case arg of
        Inl e \<Rightarrow> s\<lparr>bsr_replies := bsr_replies s @ [Some e]\<rparr>
      | Inr bytes \<Rightarrow>
          (case pipe_write bytes (bsr_pipe s) of
             (Some e, p) \<Rightarrow> s\<lparr>bsr_pipe := p, bsr_replies := bsr_replies s @ [Some e]\<rparr>
           | (None, p) \<Rightarrow> s\<lparr>bsr_pipe := p\<rparr>))"

definition bsr_Read :: "nat \<Rightarrow> (byteStreamReader, bytes \<times> err option) action" where
  "bsr_Read n s =
     then_do (pipe_read n (bsr_pipe s)) (\<lambda>(r, p).
       Ret (r, s\<lparr>bsr_pipe := p, bsr_replies := bsr_replies s @ reply_of_waiting (bsr_pipe s) p\<rparr>))"

text \<open>Close (CloseRead for the stream) closes the writer end and calls release when there is one.\<close>

definition bsr_Close :: "(byteStreamReader, err option) action" where
  "bsr_Close s =
     (let p = pipe_close_writer (bsr_pipe s);
          s1 = s\<lparr>bsr_pipe := p, bsr_replies := bsr_replies s @ reply_of_waiting (bsr_pipe s) p\<rparr>
      in Ret (None, s1\<lparr>bsr_release := map_option Suc (bsr_release s1)\<rparr>))"

text \<open>End, called by the peer.\<close>

definition bsr_End :: "byteStreamReader \<Rightarrow> byteStreamReader" where
  "bsr_End s =
     (let p = pipe_close_writer (bsr_pipe s)
      in s\<lparr>bsr_pipe := p,
           bsr_replies := bsr_replies s @ reply_of_waiting (bsr_pipe s) p @ [None]\<rparr>)"

subsection \<open>Calls of the peer\<close>

datatype bs_call = CallWrite "err + bytes" | CallEnd

fun serve_call :: "bs_call \<Rightarrow> byteStreamReader \<Rightarrow> byteStreamReader" where
  "serve_call (CallWrite arg) s = bsr_Write arg s"
| "serve_call CallEnd s = bsr_End s"

text \<open>
  The calls that run while a Read waits: in order, until one of them waits in the pipe, the pipe
  is closed or no call is left.
\<close>

fun run_calls :: "byteStreamReader \<Rightarrow> bs_call list \<Rightarrow> byteStreamReader \<times> bs_call list" where
  "run_calls s [] = (s, [])"
| "run_calls s (c # cs) =
     (if pipe_idle (bsr_pipe s) \<and> \<not> p_done (bsr_pipe s) then run_calls (serve_call c s) cs
      else (s, c # cs))"

subsection \<open>capnpStream\<close>

record capnpStream =
  cs_reader :: byteStreamReader
  cs_closed :: bool
  cs_calls :: "bs_call list"
  cs_wres :: "err option list"
  cs_sent :: "bytes list"
  cs_endres :: "err option"
  cs_ends :: nat
  cs_released :: bool

definition newCapnpStream ::
    "byteStreamReader \<Rightarrow> bs_call list \<Rightarrow> err option list \<Rightarrow> err option \<Rightarrow> capnpStream" where
  "newCapnpStream reader calls wres endres =
     \<lparr>cs_reader = reader, cs_closed = False, cs_calls = calls, cs_wres = wres, cs_sent = [],
      cs_endres = endres, cs_ends = 0, cs_released = False\<rparr>"

text \<open>Read waits in the pipe, so the calls of the peer run first.\<close>

definition capnp_Read :: "nat \<Rightarrow> (capnpStream, bytes \<times> err option) action" where
  "capnp_Read n s =
     (let (r1, cs) = run_calls (cs_reader s) (cs_calls s)
      in then_do (bsr_Read n r1) (\<lambda>(r, r2). Ret (r, s\<lparr>cs_reader := r2, cs_calls := cs\<rparr>)))"

definition capnp_Write :: "bytes \<Rightarrow> (capnpStream, int \<times> err option) action" where
  "capnp_Write b s =
     (if cs_closed s then Ret ((0, Some ErrClosedPipe), s)
      else case cs_wres s of
        [] \<Rightarrow> Blocked
      | Some e # ws \<Rightarrow> Ret ((0, Some e), s\<lparr>cs_wres := ws\<rparr>)
      | None # ws \<Rightarrow> Ret ((int (length b), None), s\<lparr>cs_wres := ws, cs_sent := cs_sent s @ [b]\<rparr>))"

definition capnp_CloseRead :: "(capnpStream, err option) action" where
  "capnp_CloseRead s =
     then_do (bsr_Close (cs_reader s)) (\<lambda>(e, r). Ret (e, s\<lparr>cs_reader := r\<rparr>))"

text \<open>
  CompareAndSwap lets only the first call through to the End call. The stream is marked closed before
  the wait for End's answer, and nothing else of it changes meanwhile, so the wait is not a step of its
  own: a goroutine that gets past CloseWrite has got the answer, and another goroutine's Close does
  not wait for it.
\<close>

definition capnp_CloseWrite :: "(capnpStream, err option) action" where
  "capnp_CloseWrite s =
     (if \<not> cs_closed s
      then Ret (cs_endres s, s\<lparr>cs_closed := True, cs_ends := Suc (cs_ends s)\<rparr>)
      else Ret (None, s))"

text \<open>
  Close releases the writer capability at the end; releasing it a second time panics, as the
  comment on Release says.
\<close>

definition capnp_Close :: "(capnpStream, err option) action" where
  "capnp_Close s =
     then_do (capnp_CloseWrite s) (\<lambda>(e1, s1).
     then_do (capnp_CloseRead s1) (\<lambda>(e2, s2).
       if cs_released s2 then Panic ''release of a released client''
       else Ret (errors_Join [e1, e2], s2\<lparr>cs_released := True\<rparr>)))"

subsection \<open>The byte stream it implements\<close>

text \<open>The bytes of the calls up to the End call; a call whose argument is bad brings none.\<close>

fun calls_bytes :: "bs_call list \<Rightarrow> bytes" where
  "calls_bytes (CallWrite (Inr bs) # cs) = bs @ calls_bytes cs"
| "calls_bytes (CallWrite (Inl e) # cs) = calls_bytes cs"
| "calls_bytes _ = []"

fun calls_gas :: "bs_call list \<Rightarrow> nat" where
  "calls_gas (CallWrite (Inr bs) # cs) = Suc (length bs) + calls_gas cs"
| "calls_gas (_ # cs) = calls_gas cs"
| "calls_gas [] = 0"

definition reader_avail :: "byteStreamReader \<Rightarrow> bs_call list \<Rightarrow> bytes" where
  "reader_avail s cs =
     (if p_done (bsr_pipe s) then [] else pipe_bytes (bsr_pipe s) @ calls_bytes cs)"

definition capnp_avail :: "capnpStream \<Rightarrow> bytes" where
  "capnp_avail s = reader_avail (cs_reader s) (cs_calls s)"

definition capnp_gas :: "capnpStream \<Rightarrow> nat" where
  "capnp_gas s = pipe_gas (bsr_pipe (cs_reader s)) + calls_gas (cs_calls s)"

definition capnp_sunk :: "capnpStream \<Rightarrow> bytes" where
  "capnp_sunk s = concat (cs_sent s)"

lemma serve_call_avail:
  assumes "pipe_idle (bsr_pipe s)" and "\<not> p_done (bsr_pipe s)"
  shows "reader_avail (serve_call c s) cs = reader_avail s (c # cs)"
    and "pipe_gas (bsr_pipe (serve_call c s)) + calls_gas cs \<le> pipe_gas (bsr_pipe s) + calls_gas (c # cs)"
  using assms
  by (cases c; auto simp: reader_avail_def bsr_Write_def bsr_End_def pipe_write_def pipe_bytes_def
      pipe_idle_def pipe_gas_def Let_def split: sum.splits)+

lemma run_calls_avail:
  "run_calls s cs = (s', cs') \<Longrightarrow>
   reader_avail s' cs' = reader_avail s cs \<and>
   pipe_gas (bsr_pipe s') + calls_gas cs' \<le> pipe_gas (bsr_pipe s) + calls_gas cs"
proof (induction s cs rule: run_calls.induct)
  case (2 s c cs)
  show ?case
  proof (cases "pipe_idle (bsr_pipe s) \<and> \<not> p_done (bsr_pipe s)")
    case True
    with "2.prems" have "run_calls (serve_call c s) cs = (s', cs')" by simp
    with "2.IH" [OF True] serve_call_avail [of s c cs] True show ?thesis by auto
  qed (use "2.prems" in auto)
qed simp

lemma bsr_Read_pipe:
  "bsr_Read n s = Ret (r, s') \<Longrightarrow> pipe_read n (bsr_pipe s) = Ret (r, bsr_pipe s')"
  by (auto simp: bsr_Read_def then_do_Ret_iff)

lemma bsr_Read_avail:
  assumes "bsr_Read n s = Ret ((bs, er), s')"
  shows "reader_avail s cs = bs @ reader_avail s' cs"
    and "length bs \<le> n"
    and "er = Some e \<Longrightarrow> reader_avail s' cs = []"
    and "er = None \<Longrightarrow> 0 < n \<Longrightarrow> pipe_gas (bsr_pipe s') < pipe_gas (bsr_pipe s)"
proof -
  note rd = bsr_Read_pipe [OF assms]
  from pipe_read_bytes [OF rd] pipe_read_done [OF rd]
  show "length bs \<le> n" and "reader_avail s cs = bs @ reader_avail s' cs"
    using pipe_read_err pipe_read_ok rd by (cases er; fastforce simp: reader_avail_def pipe_bytes_def)+
  show "reader_avail s' cs = []" if "er = Some e"
    using pipe_read_err rd that by (fastforce simp: reader_avail_def)
  show "pipe_gas (bsr_pipe s') < pipe_gas (bsr_pipe s)" if "er = None" "0 < n"
    using pipe_read_ok rd that by (fastforce simp: pipe_gas_def)
qed

lemma capnp_Read_split:
  assumes "capnp_Read n s = Ret (r, s')"
  obtains r1 where "run_calls (cs_reader s) (cs_calls s) = (r1, cs_calls s')"
    "bsr_Read n r1 = Ret (r, cs_reader s')" "cs_sent s' = cs_sent s"
  using assms by (auto simp: capnp_Read_def then_do_Ret_iff split: prod.splits)

lemma capnp_Read_contract:
  assumes "capnp_Read n s = Ret ((bs, er), s')"
  shows "length bs \<le> n \<and> capnp_avail s = bs @ capnp_avail s' \<and>
    (er = Some EOF \<longrightarrow> capnp_avail s' = []) \<and> (er = None \<longrightarrow> 0 < n \<longrightarrow> capnp_gas s' < capnp_gas s) \<and>
    capnp_sunk s' = capnp_sunk s"
proof -
  from assms obtain r1 where run: "run_calls (cs_reader s) (cs_calls s) = (r1, cs_calls s')"
      and rd: "bsr_Read n r1 = Ret ((bs, er), cs_reader s')" and sent: "cs_sent s' = cs_sent s"
    by (rule capnp_Read_split)
  note run = run_calls_avail [OF run] and rd = bsr_Read_avail [OF rd]
  show ?thesis
    using run rd(1) [of "cs_calls s'"] rd(2) rd(3) [of EOF "cs_calls s'"] rd(4) sent
    by (auto simp: capnp_avail_def capnp_gas_def capnp_sunk_def)
qed

lemma capnp_CloseRead_Ret:
  "capnp_CloseRead s = Ret (e, s') \<Longrightarrow>
   e = None \<and> p_done (bsr_pipe (cs_reader s')) \<and> cs_sent s' = cs_sent s \<and>
   cs_closed s' = cs_closed s \<and> cs_ends s' = cs_ends s \<and> cs_released s' = cs_released s"
  by (auto simp: capnp_CloseRead_def bsr_Close_def Let_def)

lemma capnp_CloseWrite_Ret:
  "capnp_CloseWrite s = Ret (e, s') \<Longrightarrow>
   e = (if cs_closed s then None else cs_endres s) \<and> cs_closed s' \<and>
   cs_ends s' = (if cs_closed s then cs_ends s else Suc (cs_ends s)) \<and>
   cs_reader s' = cs_reader s \<and> cs_calls s' = cs_calls s \<and> cs_sent s' = cs_sent s \<and>
   cs_released s' = cs_released s"
  by (auto simp: capnp_CloseWrite_def split: if_splits)

lemma capnp_Close_Ret:
  assumes "capnp_Close s = Ret (e, s')"
  shows "\<not> cs_released s" and "cs_released s'" and "p_done (bsr_pipe (cs_reader s'))"
    and "cs_sent s' = cs_sent s" and "cs_closed s'"
    and "cs_ends s' = (if cs_closed s then cs_ends s else Suc (cs_ends s))"
    and "e = errors_Join [if cs_closed s then None else cs_endres s, None]"
  using assms
  by (auto simp: capnp_Close_def then_do_Ret_iff split: if_splits
      dest!: capnp_CloseWrite_Ret capnp_CloseRead_Ret)

lemma capnp_close_contract:
  assumes "capnp_CloseRead s = Ret (e, s') \<or> capnp_CloseWrite s = Ret (e, s') \<or> capnp_Close s = Ret (e, s')"
  shows "capnp_sunk s' = capnp_sunk s \<and> prefix (capnp_avail s') (capnp_avail s)"
  using assms
  by (auto dest!: capnp_CloseRead_Ret capnp_CloseWrite_Ret
      simp: capnp_sunk_def capnp_avail_def reader_avail_def dest: capnp_Close_Ret(3,4))

lemma capnp_Write_contract:
  assumes "capnp_Write bs s = Ret ((n, ew), s')"
  shows "capnp_sunk s' = capnp_sunk s @ take (nat n) bs"
    and "(\<exists>k. capnp_sunk s' = capnp_sunk s @ take k bs) \<and> 0 \<le> n \<and> n \<le> int (length bs) \<and>
      (ew = None \<longrightarrow> n = int (length bs) \<and> capnp_sunk s' = capnp_sunk s @ bs) \<and>
      capnp_avail s' = capnp_avail s"
  using assms
  by (auto simp: capnp_Write_def capnp_sunk_def capnp_avail_def intro: exI [of _ 0]
      split: if_splits list.splits option.splits)

lemma capnp_CloseWrite_avail: "capnp_CloseWrite s = Ret (e, s') \<Longrightarrow> capnp_avail s' = capnp_avail s"
  by (auto simp: capnp_CloseWrite_def capnp_avail_def split: if_splits)

interpretation capnp: netx_stream capnp_Read capnp_avail capnp_gas capnp_Write capnp_sunk "\<lambda>_. True"
    capnp_CloseRead capnp_CloseWrite capnp_Close
  by (rule netx_streamI
      [OF capnp_Read_contract capnp_Write_contract(2) capnp_close_contract capnp_CloseWrite_avail])

interpretation capnp_exact: exact_sink capnp_Write capnp_sunk "\<lambda>_. True"
  by unfold_locales (rule capnp_Write_contract(1))

end
