(* ===== verification/MdStream.thy ===== *)
theory MdStream
  imports Netx Pipe
begin

text \<open>
  The stream half of mdcapnp: the hand-written API of handwritten_api.go (interface and method
  numbers, the calls a ByteStream capability makes) and, from mdcapnp_net.go, byteStreamServer,
  which receives a peer's calls, and streamImpl, the netx.Stream made of one of each. The RPC
  library is outside the repository: the calls the peer will make are the list \<open>ms_calls\<close>,
  the results of the own calls \<open>ms_wres\<close> and \<open>ms_endres\<close>, all arbitrary; calls on one object are
  run in order, one at a time.
\<close>

subsection \<open>The hand-written API\<close>

definition Proxy_InterfaceId :: nat where "Proxy_InterfaceId = 0x1701c"
definition Proxy_OpenStream_MethodId :: nat where "Proxy_OpenStream_MethodId = 0x2001"
definition ByteStream_InterfaceId :: nat where "ByteStream_InterfaceId = 0x1701d"
definition ByteStream_Write_MethodId :: nat where "ByteStream_Write_MethodId = 1001"
definition ByteStream_End_MethodId :: nat where "ByteStream_End_MethodId = 1002"

lemmas md_ids = Proxy_InterfaceId_def Proxy_OpenStream_MethodId_def ByteStream_InterfaceId_def
  ByteStream_Write_MethodId_def ByteStream_End_MethodId_def

text \<open>A call as it reaches a CallHandler: which interface, which method, and its parameters.\<close>

record 'p md_call =
  mc_iid :: nat
  mc_mid :: nat
  mc_params :: 'p

record struct_size =
  DataSectionSize :: nat
  PointerSectionSize :: nat

definition writeRequestSize :: struct_size where
  "writeRequestSize = \<lparr>DataSectionSize = 0, PointerSectionSize = 1\<rparr>"

text \<open>
  A call set up by Write or End: the size asked for the message, the call, and whether a shallow
  copy of the result will do. The word count of a byte string and the size of a struct are the
  serialization library's functions.
\<close>

record 'p call_setup =
  su_size :: nat
  su_call :: "'p md_call"
  su_shallow :: bool

definition ByteStream_Write ::
    "(nat \<Rightarrow> nat) \<Rightarrow> (struct_size \<Rightarrow> nat) \<Rightarrow> bytes \<Rightarrow> (err + bytes) call_setup" where
  "ByteStream_Write storageWordCount totalSize bs =
     \<lparr>su_size = totalSize writeRequestSize + storageWordCount (length bs),
      su_call = \<lparr>mc_iid = ByteStream_InterfaceId, mc_mid = ByteStream_Write_MethodId, mc_params = Inr bs\<rparr>,
      su_shallow = True\<rparr>"

text \<open>End has no parameters, so decoding write parameters from it would be an error of the library's.\<close>

definition ByteStream_End :: "err \<Rightarrow> (err + bytes) md_call" where
  "ByteStream_End noparams =
     \<lparr>mc_iid = ByteStream_InterfaceId, mc_mid = ByteStream_End_MethodId, mc_params = Inl noparams\<rparr>"

definition Proxy_OpenStream :: "'cap \<Rightarrow> (err + 'cap) md_call" where
  "Proxy_OpenStream down =
     \<lparr>mc_iid = Proxy_InterfaceId, mc_mid = Proxy_OpenStream_MethodId, mc_params = Inr down\<rparr>"

subsection \<open>byteStreamServer\<close>

text \<open>Both ends of one pipe, and (for the specification) what the peer's calls returned.\<close>

record byteStreamServer =
  bs_pipe :: pipe
  bs_replies :: "err option list"

definition newByteStreamServer :: byteStreamServer where
  "newByteStreamServer = \<lparr>bs_pipe = new_pipe, bs_replies = []\<rparr>"

text \<open>
  Call, with its checks in the order of the code. A Write that waits in the pipe replies later;
  closing the pipe's writer returns nil and releases a waiting Write.
\<close>

definition bss_replies :: "err option list \<Rightarrow> byteStreamServer \<Rightarrow> byteStreamServer" where
  "bss_replies es s = s\<lparr>bs_replies := bs_replies s @ es\<rparr>"

definition bss_reply :: "err option \<Rightarrow> byteStreamServer \<Rightarrow> byteStreamServer" where
  "bss_reply e s = bss_replies [e] s"

definition bss_Call :: "(err + bytes) md_call \<Rightarrow> byteStreamServer \<Rightarrow> byteStreamServer" where
  "bss_Call cc s =
     (if mc_iid cc \<noteq> ByteStream_InterfaceId then bss_reply (Some (Errorf ''unkown interface'')) s
      else if mc_mid cc = ByteStream_Write_MethodId then
        (case mc_params cc of
           Inl e \<Rightarrow> bss_reply (Some e) s
         | Inr data \<Rightarrow>
             (case pipe_write data (bs_pipe s) of
                (Some e, p) \<Rightarrow> bss_reply (Some e) (s\<lparr>bs_pipe := p\<rparr>)
              | (None, p) \<Rightarrow> s\<lparr>bs_pipe := p\<rparr>))
      else if mc_mid cc = ByteStream_End_MethodId then
        (let p = pipe_close_writer (bs_pipe s)
         in bss_reply None (bss_replies (reply_of_waiting (bs_pipe s) p) (s\<lparr>bs_pipe := p\<rparr>)))
      else bss_reply (Some (Errorf ''unknown method'')) s)"

text \<open>The calls that run while a Read waits, as for the other Cap'n Proto transport.\<close>

fun md_run_calls ::
    "byteStreamServer \<Rightarrow> (err + bytes) md_call list \<Rightarrow> byteStreamServer \<times> (err + bytes) md_call list" where
  "md_run_calls s [] = (s, [])"
| "md_run_calls s (c # cs) =
     (if pipe_idle (bs_pipe s) \<and> \<not> p_done (bs_pipe s) then md_run_calls (bss_Call c s) cs
      else (s, c # cs))"

subsection \<open>streamImpl\<close>

record streamImpl =
  ms_server :: byteStreamServer
  ms_calls :: "(err + bytes) md_call list"
  ms_wres :: "err option list"
  ms_sent :: "bytes list"
  ms_endres :: "err option list"
  ms_ends :: nat

definition newStreamImpl ::
    "byteStreamServer \<Rightarrow> (err + bytes) md_call list \<Rightarrow> err option list \<Rightarrow> err option list \<Rightarrow> streamImpl" where
  "newStreamImpl server calls wres endres =
     \<lparr>ms_server = server, ms_calls = calls, ms_wres = wres, ms_sent = [], ms_endres = endres, ms_ends = 0\<rparr>"

text \<open>A read that empties the pipe answers the Write call that waited there.\<close>

definition md_Read :: "nat \<Rightarrow> (streamImpl, bytes \<times> err option) action" where
  "md_Read n s =
     (let (b, cs) = md_run_calls (ms_server s) (ms_calls s)
      in then_do (pipe_read n (bs_pipe b)) (\<lambda>(r, p).
           Ret (r, s\<lparr>ms_server := bss_replies (reply_of_waiting (bs_pipe b) p) (b\<lparr>bs_pipe := p\<rparr>),
                     ms_calls := cs\<rparr>)))"

text \<open>Write returns the length of its argument whatever the call's result was.\<close>

definition md_Write :: "bytes \<Rightarrow> (streamImpl, int \<times> err option) action" where
  "md_Write p s =
     (case ms_wres s of
        [] \<Rightarrow> Blocked
      | e # ws \<Rightarrow>
          Ret ((int (length p), e),
            s\<lparr>ms_wres := ws, ms_sent := (if e = None then ms_sent s @ [p] else ms_sent s)\<rparr>))"

text \<open>Close closes the pipe's reader, which never fails, and then waits for the End call.\<close>

definition md_Close :: "(streamImpl, err option) action" where
  "md_Close s =
     (let b = ms_server s; p = pipe_close_reader (bs_pipe b);
          s1 = s\<lparr>ms_server := bss_replies (reply_of_waiting (bs_pipe b) p) (b\<lparr>bs_pipe := p\<rparr>)\<rparr>
      in case ms_endres s1 of
           [] \<Rightarrow> Blocked
         | err2 # es \<Rightarrow>
             Ret (errors_Join [None, err2], s1\<lparr>ms_endres := es, ms_ends := Suc (ms_ends s1)\<rparr>))"

definition md_CloseRead :: "(streamImpl, err option) action" where
  "md_CloseRead s = Ret (None, s)"

definition md_CloseWrite :: "(streamImpl, err option) action" where
  "md_CloseWrite s = Ret (None, s)"

subsection \<open>The byte stream it implements\<close>

definition is_end_call :: "'p md_call \<Rightarrow> bool" where
  "is_end_call c \<longleftrightarrow> mc_iid c = ByteStream_InterfaceId \<and> mc_mid c = ByteStream_End_MethodId"

definition call_bytes :: "(err + bytes) md_call \<Rightarrow> bytes" where
  "call_bytes c =
     (if mc_iid c = ByteStream_InterfaceId \<and> mc_mid c = ByteStream_Write_MethodId
      then (case mc_params c of Inl _ \<Rightarrow> [] | Inr bs \<Rightarrow> bs) else [])"

fun md_calls_bytes :: "(err + bytes) md_call list \<Rightarrow> bytes" where
  "md_calls_bytes [] = []"
| "md_calls_bytes (c # cs) = (if is_end_call c then [] else call_bytes c @ md_calls_bytes cs)"

fun md_calls_gas :: "(err + bytes) md_call list \<Rightarrow> nat" where
  "md_calls_gas [] = 0"
| "md_calls_gas (c # cs) = Suc (length (call_bytes c)) + md_calls_gas cs"

definition server_avail :: "byteStreamServer \<Rightarrow> (err + bytes) md_call list \<Rightarrow> bytes" where
  "server_avail b cs = (if p_done (bs_pipe b) then [] else pipe_bytes (bs_pipe b) @ md_calls_bytes cs)"

definition md_avail :: "streamImpl \<Rightarrow> bytes" where
  "md_avail s = server_avail (ms_server s) (ms_calls s)"

definition md_gas :: "streamImpl \<Rightarrow> nat" where
  "md_gas s = pipe_gas (bs_pipe (ms_server s)) + md_calls_gas (ms_calls s)"

definition md_sunk :: "streamImpl \<Rightarrow> bytes" where
  "md_sunk s = concat (ms_sent s)"

lemma bss_reply_pipe [simp]:
  "bs_pipe (bss_reply e s) = bs_pipe s" "bs_pipe (bss_replies es s) = bs_pipe s"
  by (simp_all add: bss_reply_def bss_replies_def)

lemma bss_Call_avail:
  assumes "pipe_idle (bs_pipe s)" and "\<not> p_done (bs_pipe s)"
  shows "server_avail (bss_Call c s) cs = server_avail s (c # cs)"
    and "pipe_gas (bs_pipe (bss_Call c s)) + md_calls_gas cs \<le> pipe_gas (bs_pipe s) + md_calls_gas (c # cs)"
  using assms
  by (auto simp: server_avail_def bss_Call_def pipe_write_def pipe_bytes_def pipe_idle_def pipe_gas_def
      is_end_call_def call_bytes_def md_ids Let_def split: sum.splits)

lemma md_run_calls_avail:
  "md_run_calls s cs = (s', cs') \<Longrightarrow>
   server_avail s' cs' = server_avail s cs \<and>
   pipe_gas (bs_pipe s') + md_calls_gas cs' \<le> pipe_gas (bs_pipe s) + md_calls_gas cs"
proof (induction s cs rule: md_run_calls.induct)
  case (2 s c cs)
  show ?case
  proof (cases "pipe_idle (bs_pipe s) \<and> \<not> p_done (bs_pipe s)")
    case True
    with "2.prems" have "md_run_calls (bss_Call c s) cs = (s', cs')" by simp
    with "2.IH" [OF True] bss_Call_avail [of s c cs] True show ?thesis by auto
  qed (use "2.prems" in auto)
qed simp

lemma md_Read_split:
  assumes "md_Read n s = Ret (r, s')"
  obtains b where "md_run_calls (ms_server s) (ms_calls s) = (b, ms_calls s')"
    "pipe_read n (bs_pipe b) = Ret (r, bs_pipe (ms_server s'))" "ms_sent s' = ms_sent s"
  using assms by (auto simp: md_Read_def then_do_Ret_iff Let_def split: prod.splits if_splits)

lemma md_Read_contract:
  assumes "md_Read n s = Ret ((bs, er), s')"
  shows "length bs \<le> n \<and> md_avail s = bs @ md_avail s' \<and>
    (er = Some EOF \<longrightarrow> md_avail s' = []) \<and> (er = None \<longrightarrow> 0 < n \<longrightarrow> md_gas s' < md_gas s) \<and>
    md_sunk s' = md_sunk s"
proof -
  from assms obtain b where run: "md_run_calls (ms_server s) (ms_calls s) = (b, ms_calls s')"
      and rd: "pipe_read n (bs_pipe b) = Ret ((bs, er), bs_pipe (ms_server s'))"
      and sent: "ms_sent s' = ms_sent s"
    by (rule md_Read_split)
  note run = md_run_calls_avail [OF run]
  have av: "server_avail b cs = bs @ server_avail (ms_server s') cs" for cs
    using pipe_read_bytes [OF rd] pipe_read_done [OF rd] pipe_read_err pipe_read_ok rd
    by (cases er; fastforce simp: server_avail_def pipe_bytes_def)
  show ?thesis
  proof (cases er)
    case None
    with pipe_read_ok rd have "0 < n \<longrightarrow> pipe_gas (bs_pipe (ms_server s')) < pipe_gas (bs_pipe b)"
      by (fastforce simp: pipe_gas_def)
    with None run av pipe_read_bytes [OF rd] sent show ?thesis
      by (auto simp: md_avail_def md_gas_def md_sunk_def)
  next
    case (Some e)
    with pipe_read_err rd have "p_done (bs_pipe (ms_server s'))" by fastforce
    with Some run av pipe_read_bytes [OF rd] sent show ?thesis
      by (auto simp: md_avail_def md_sunk_def server_avail_def)
  qed
qed

lemma md_Write_contract:
  assumes "md_Write bs s = Ret ((n, ew), s')"
  shows "(\<exists>k. md_sunk s' = md_sunk s @ take k bs) \<and> 0 \<le> n \<and> n \<le> int (length bs) \<and>
    (ew = None \<longrightarrow> n = int (length bs) \<and> md_sunk s' = md_sunk s @ bs) \<and> md_avail s' = md_avail s"
  using assms
  by (auto simp: md_Write_def md_sunk_def md_avail_def intro: exI [of _ 0] split: list.splits if_splits)

lemma md_close_contract:
  assumes "md_CloseRead s = Ret (e, s') \<or> md_CloseWrite s = Ret (e, s') \<or> md_Close s = Ret (e, s')"
  shows "md_sunk s' = md_sunk s \<and> prefix (md_avail s') (md_avail s)"
  using assms
  by (auto simp: md_CloseRead_def md_CloseWrite_def md_Close_def Let_def md_sunk_def md_avail_def
      server_avail_def split: list.splits)

lemma md_CloseWrite_avail: "md_CloseWrite s = Ret (e, s') \<Longrightarrow> md_avail s' = md_avail s"
  by (auto simp: md_CloseWrite_def md_avail_def split: if_splits)

interpretation md: netx_stream md_Read md_avail md_gas md_Write md_sunk "\<lambda>_. True"
    md_CloseRead md_CloseWrite md_Close
  by (rule netx_streamI
      [OF md_Read_contract md_Write_contract md_close_contract md_CloseWrite_avail])

end
