(* ===== verification/ProxyStream.thy ===== *)
theory ProxyStream
  imports StdStream GrpcStream CapnpStream MdStream
begin

text \<open>
  A netx.Stream value: one of the four implementations of the interface, with the interface's
  methods dispatched on the dynamic type. The contract of netx.Stream for the interface value
  follows from the contracts of the four, and with it everything proved about io.Copy.
\<close>

subsection \<open>Interface values and their methods\<close>

datatype stream =
    StdS stdStream
  | GrpcS grpc_stream
  | CapnpS capnpStream
  | MdS streamImpl

definition lift :: "('s \<Rightarrow> stream) \<Rightarrow> ('a \<times> 's) outcome \<Rightarrow> ('a \<times> stream) outcome" where
  "lift c r = then_do r (\<lambda>(x, s). Ret (x, c s))"

lemma lift_Ret_iff: "lift c r = Ret (x, t) \<longleftrightarrow> (\<exists>s. r = Ret (x, s) \<and> t = c s)"
  by (auto simp: lift_def then_do_Ret_iff)

fun stream_Read :: "nat \<Rightarrow> (stream, bytes \<times> err option) action" where
  "stream_Read n (StdS s) = lift StdS (std_Read n s)"
| "stream_Read n (GrpcS s) = lift GrpcS (grpc_Read n s)"
| "stream_Read n (CapnpS s) = lift CapnpS (capnp_Read n s)"
| "stream_Read n (MdS s) = lift MdS (md_Read n s)"

fun stream_Write :: "bytes \<Rightarrow> (stream, int \<times> err option) action" where
  "stream_Write b (StdS s) = lift StdS (std_Write b s)"
| "stream_Write b (GrpcS s) = lift GrpcS (grpc_Write b s)"
| "stream_Write b (CapnpS s) = lift CapnpS (capnp_Write b s)"
| "stream_Write b (MdS s) = lift MdS (md_Write b s)"

fun stream_Close :: "(stream, err option) action" where
  "stream_Close (StdS s) = lift StdS (std_Close s)"
| "stream_Close (GrpcS s) = lift GrpcS (grpc_Close s)"
| "stream_Close (CapnpS s) = lift CapnpS (capnp_Close s)"
| "stream_Close (MdS s) = lift MdS (md_Close s)"

fun stream_CloseRead :: "(stream, err option) action" where
  "stream_CloseRead (StdS s) = lift StdS (std_CloseRead s)"
| "stream_CloseRead (GrpcS s) = lift GrpcS (grpc_CloseRead s)"
| "stream_CloseRead (CapnpS s) = lift CapnpS (capnp_CloseRead s)"
| "stream_CloseRead (MdS s) = lift MdS (md_CloseRead s)"

fun stream_CloseWrite :: "(stream, err option) action" where
  "stream_CloseWrite (StdS s) = lift StdS (std_CloseWrite s)"
| "stream_CloseWrite (GrpcS s) = lift GrpcS (grpc_CloseWrite s)"
| "stream_CloseWrite (CapnpS s) = lift CapnpS (capnp_CloseWrite s)"
| "stream_CloseWrite (MdS s) = lift MdS (md_CloseWrite s)"

fun is_MdS :: "stream \<Rightarrow> bool" where
  "is_MdS (MdS _) = True"
| "is_MdS _ = False"

subsection \<open>The byte stream behind an interface value\<close>

fun stream_avail :: "stream \<Rightarrow> bytes" where
  "stream_avail (StdS s) = std_avail s"
| "stream_avail (GrpcS s) = grpc_avail s"
| "stream_avail (CapnpS s) = capnp_avail s"
| "stream_avail (MdS s) = md_avail s"

fun stream_gas :: "stream \<Rightarrow> nat" where
  "stream_gas (StdS s) = std_gas s"
| "stream_gas (GrpcS s) = grpc_gas s"
| "stream_gas (CapnpS s) = capnp_gas s"
| "stream_gas (MdS s) = md_gas s"

fun stream_sunk :: "stream \<Rightarrow> bytes" where
  "stream_sunk (StdS s) = std_sunk s"
| "stream_sunk (GrpcS s) = grpc_sunk s"
| "stream_sunk (CapnpS s) = capnp_sunk s"
| "stream_sunk (MdS s) = md_sunk s"

lemma stream_Read_contract:
  assumes "stream_Read n s = Ret ((bs, er), s')"
  shows "length bs \<le> n \<and> stream_avail s = bs @ stream_avail s' \<and>
    (er = Some EOF \<longrightarrow> stream_avail s' = []) \<and>
    (er = None \<longrightarrow> 0 < n \<longrightarrow> stream_gas s' < stream_gas s) \<and> stream_sunk s' = stream_sunk s"
  using assms
  by (cases s)
    (auto simp: lift_Ret_iff dest: std_Read_contract grpc_Read_contract capnp_Read_contract md_Read_contract)

lemma stream_Write_contract:
  assumes "stream_Write bs s = Ret ((n, ew), s')"
  shows "(\<exists>k. stream_sunk s' = stream_sunk s @ take k bs) \<and> 0 \<le> n \<and> n \<le> int (length bs) \<and>
      (ew = None \<longrightarrow> n = int (length bs) \<and> stream_sunk s' = stream_sunk s @ bs) \<and>
      stream_avail s' = stream_avail s"
    and "\<not> is_MdS s \<Longrightarrow> stream_sunk s' = stream_sunk s @ take (nat n) bs"
    and "is_MdS s' = is_MdS s"
  using assms
  by (cases s; auto simp: lift_Ret_iff dest: std_Write_contract grpc_Write_contract
      capnp_Write_contract md_Write_contract)+

lemma stream_close_contract:
  assumes "stream_CloseRead s = Ret (e, s') \<or> stream_CloseWrite s = Ret (e, s') \<or> stream_Close s = Ret (e, s')"
  shows "stream_sunk s' = stream_sunk s \<and> prefix (stream_avail s') (stream_avail s)"
proof (cases s)
  case (StdS x)
  with assms show ?thesis using std_close_contract [of x] by (fastforce simp: lift_Ret_iff)
next
  case (GrpcS x)
  with assms show ?thesis using grpc_close_contract [of x] by (fastforce simp: lift_Ret_iff)
next
  case (CapnpS x)
  with assms show ?thesis using capnp_close_contract [of x] by (fastforce simp: lift_Ret_iff)
next
  case (MdS x)
  with assms show ?thesis using md_close_contract [of x] by (fastforce simp: lift_Ret_iff)
qed

lemma stream_CloseWrite_avail: "stream_CloseWrite s = Ret (e, s') \<Longrightarrow> stream_avail s' = stream_avail s"
  by (cases s) (auto simp: lift_Ret_iff dest: std_CloseWrite_avail grpc_CloseWrite_avail
      capnp_CloseWrite_avail md_CloseWrite_avail)

interpretation netx: netx_stream stream_Read stream_avail stream_gas stream_Write stream_sunk "\<lambda>_. True"
    stream_CloseRead stream_CloseWrite stream_Close
  by (rule netx_streamI
      [OF stream_Read_contract stream_Write_contract(1) stream_close_contract stream_CloseWrite_avail])

interpretation netx_copy: copy_pair stream_Read stream_avail stream_gas stream_Write stream_sunk "\<lambda>_. True"
  by unfold_locales

text \<open>Every stream but mdcapnp's returns an honest count with an error.\<close>

interpretation netx_exact: exact_copy_pair stream_Read stream_avail stream_gas stream_Write stream_sunk
    "\<lambda>d. \<not> is_MdS d"
proof unfold_locales
  fix d bs r d'
  assume "\<not> is_MdS d" and "stream_Write bs d = Ret (r, d')"
  then show "\<not> is_MdS d'" by (cases r) (auto dest: stream_Write_contract(3))
qed (auto dest: stream_Write_contract)

subsection \<open>Closed streams\<close>

text \<open>
  What the peer learns: \<open>end_sent\<close> holds when the call that tells the peer that no more bytes come
  has been made (a shutdown or close of a connection, CloseSend or the end of the RPC handler, an End
  call), whatever it returned.
\<close>

fun end_sent :: "stream \<Rightarrow> bool" where
  "end_sent (StdS s) = (0 < c_closeWrites (ReadWriteCloser s) \<or> 0 < c_closes (ReadWriteCloser s))"
| "end_sent (GrpcS s) = (0 < g_closesends s \<or> g_closeCallback s = Some ClosedChan)"
| "end_sent (CapnpS s) = (0 < cs_ends s)"
| "end_sent (MdS s) = (0 < ms_ends s)"

text \<open>
  Half-close: how often CloseWrite has made its call, what that call returns, and whether it was made
  and succeeded, so that the peer has been told. The CloseWrite of a gRPC server's stream and of an
  mdcapnp stream makes no call.
\<close>

fun half_closes :: "stream \<Rightarrow> nat" where
  "half_closes (StdS s) = c_closeWrites (ReadWriteCloser s)"
| "half_closes (GrpcS s) = g_closesends s"
| "half_closes (CapnpS s) = cs_ends s"
| "half_closes (MdS s) = 0"

fun half_close_error :: "stream \<Rightarrow> err option" where
  "half_close_error (StdS s) = c_closeWrite_res (ReadWriteCloser s)"
| "half_close_error (GrpcS s) = g_closesend_res s"
| "half_close_error (CapnpS s) = cs_endres s"
| "half_close_error (MdS s) = None"

definition half_closed :: "stream \<Rightarrow> bool" where
  "half_closed s \<longleftrightarrow> 0 < half_closes s \<and> half_close_error s = None"

text \<open>Close has been called.\<close>

fun stream_closed :: "stream \<Rightarrow> bool" where
  "stream_closed (StdS s) = (0 < c_closes (ReadWriteCloser s))"
| "stream_closed (GrpcS s) = (g_readClosed s \<and> g_writeClosed s \<and> g_closeCallback s \<noteq> Some OpenChan)"
| "stream_closed (CapnpS s) = (cs_released s \<and> p_done (bsr_pipe (cs_reader s)))"
| "stream_closed (MdS s) = (0 < ms_ends s \<and> p_done (bs_pipe (ms_server s)))"

lemma stream_Close_closed:
  assumes "stream_Close s = Ret (e, s')"
  shows "stream_closed s'"
proof (cases s)
  case (GrpcS g)
  with assms show ?thesis by (auto simp: lift_Ret_iff dest!: grpc_Close_closed)
next
  case (CapnpS c)
  with assms show ?thesis by (auto simp: lift_Ret_iff dest: capnp_Close_Ret)
qed (use assms in \<open>auto simp: lift_Ret_iff std_defs then_do_Ret_iff md_Close_def Let_def split: list.splits\<close>)

text \<open>A closed stream stays closed, whatever is called on it.\<close>

lemma grpc_closed_stays:
  assumes "g_readClosed s \<and> g_writeClosed s \<and> g_closeCallback s \<noteq> Some OpenChan"
  shows "grpc_Read n s = Ret (r, s') \<Longrightarrow> stream_closed (GrpcS s')"
    and "grpc_Write b s = Ret (q, s') \<Longrightarrow> stream_closed (GrpcS s')"
    and "grpc_CloseRead s = Ret (e, s') \<Longrightarrow> stream_closed (GrpcS s')"
    and "grpc_CloseWrite s = Ret (e, s') \<Longrightarrow> stream_closed (GrpcS s')"
  using assms
  by (auto simp: grpc_Read_def grpc_Write_def grpc_CloseRead_def grpc_CloseWrite_def split: if_splits)

lemma std_closed_stays:
  assumes "0 < c_closes (ReadWriteCloser s)"
  shows "std_Read n s = Ret (r, s') \<Longrightarrow> stream_closed (StdS s')"
    and "std_Write b s = Ret (q, s') \<Longrightarrow> stream_closed (StdS s')"
    and "std_CloseRead s = Ret (e, s') \<Longrightarrow> stream_closed (StdS s')"
    and "std_CloseWrite s = Ret (e, s') \<Longrightarrow> stream_closed (StdS s')"
  using assms
  by (auto simp: std_defs conn_Read_def conn_Write_def then_do_Ret_iff split: if_splits)

lemma capnp_closed_stays:
  assumes "cs_released s \<and> p_done (bsr_pipe (cs_reader s))"
  shows "capnp_Read n s = Ret (r, s') \<Longrightarrow> stream_closed (CapnpS s')"
    and "capnp_Write b s = Ret (q, s') \<Longrightarrow> stream_closed (CapnpS s')"
    and "capnp_CloseRead s = Ret (e, s') \<Longrightarrow> stream_closed (CapnpS s')"
    and "capnp_CloseWrite s = Ret (e, s') \<Longrightarrow> stream_closed (CapnpS s')"
  using assms
proof -
  assume rd: "capnp_Read n s = Ret (r, s')"
  have "run_calls (cs_reader s) (cs_calls s) = (cs_reader s, cs_calls s)"
    using assms by (cases "cs_calls s") auto
  with rd assms show "stream_closed (CapnpS s')"
    by (auto simp: capnp_Read_def bsr_Read_def then_do_Ret_iff dest: pipe_read_done)
qed (use assms in \<open>auto simp: capnp_Write_def capnp_CloseRead_def bsr_Close_def capnp_CloseWrite_def Let_def
      split: if_splits list.splits option.splits\<close>)

lemma md_closed_stays:
  assumes "0 < ms_ends s \<and> p_done (bs_pipe (ms_server s))"
  shows "md_Read n s = Ret (r, s') \<Longrightarrow> stream_closed (MdS s')"
    and "md_Write b s = Ret (q, s') \<Longrightarrow> stream_closed (MdS s')"
    and "md_CloseRead s = Ret (e, s') \<Longrightarrow> stream_closed (MdS s')"
    and "md_CloseWrite s = Ret (e, s') \<Longrightarrow> stream_closed (MdS s')"
proof -
  assume rd: "md_Read n s = Ret (r, s')"
  have "md_run_calls (ms_server s) (ms_calls s) = (ms_server s, ms_calls s)"
    using assms by (cases "ms_calls s") auto
  with rd assms show "stream_closed (MdS s')"
    by (auto simp: md_Read_def then_do_Ret_iff dest: pipe_read_done)
qed (use assms in \<open>auto simp: md_Write_def md_CloseRead_def md_CloseWrite_def split: list.splits\<close>)

lemma stream_closed_stays:
  assumes "stream_closed s"
    and "stream_Read n s = Ret (r, s') \<or> stream_Write b s = Ret (q, s') \<or>
      stream_CloseRead s = Ret (e, s') \<or> stream_CloseWrite s = Ret (e, s')"
  shows "stream_closed s'"
proof (cases s)
  case (StdS x)
  with assms(2) obtain x' where "s' = StdS x'"
      "std_Read n x = Ret (r, x') \<or> std_Write b x = Ret (q, x') \<or>
       std_CloseRead x = Ret (e, x') \<or> std_CloseWrite x = Ret (e, x')"
    by (auto simp: lift_Ret_iff)
  with StdS assms(1) std_closed_stays [of x] show ?thesis by (cases r, cases q) auto
next
  case (GrpcS x)
  with assms(2) obtain x' where "s' = GrpcS x'"
      "grpc_Read n x = Ret (r, x') \<or> grpc_Write b x = Ret (q, x') \<or>
       grpc_CloseRead x = Ret (e, x') \<or> grpc_CloseWrite x = Ret (e, x')"
    by (auto simp: lift_Ret_iff)
  with GrpcS assms(1) grpc_closed_stays [of x] show ?thesis by (cases r, cases q) auto
next
  case (CapnpS x)
  with assms(2) obtain x' where "s' = CapnpS x'"
      "capnp_Read n x = Ret (r, x') \<or> capnp_Write b x = Ret (q, x') \<or>
       capnp_CloseRead x = Ret (e, x') \<or> capnp_CloseWrite x = Ret (e, x')"
    by (auto simp: lift_Ret_iff)
  with CapnpS assms(1) capnp_closed_stays [of x] show ?thesis by (cases r, cases q) auto
next
  case (MdS x)
  with assms(2) obtain x' where "s' = MdS x'"
      "md_Read n x = Ret (r, x') \<or> md_Write b x = Ret (q, x') \<or>
       md_CloseRead x = Ret (e, x') \<or> md_CloseWrite x = Ret (e, x')"
    by (auto simp: lift_Ret_iff)
  with MdS assms(1) md_closed_stays [of x] show ?thesis by (cases r, cases q) auto
qed

subsection \<open>Calls that panic\<close>

text \<open>
  Only Close can panic, and only on a stream closed before: a server's gRPC stream would close its
  done channel twice, a Cap'n Proto stream would release its writer twice.
\<close>

fun close_ready :: "stream \<Rightarrow> bool" where
  "close_ready (StdS s) = True"
| "close_ready (GrpcS s) = (g_closeCallback s = None \<or> g_closeCallback s = Some OpenChan)"
| "close_ready (CapnpS s) = (\<not> cs_released s)"
| "close_ready (MdS s) = True"

lemma lift_panic_iff: "lift c r = Panic m \<longleftrightarrow> r = Panic m"
  by (cases r) (auto simp: lift_def)

lemma then_do_panic_iff: "then_do r f = Panic m \<longleftrightarrow> r = Panic m \<or> (\<exists>x. r = Ret x \<and> f x = Panic m)"
  by (cases r) auto

lemma pipe_read_no_panic: "pipe_read n p \<noteq> Panic m"
  by (simp add: pipe_read_def split: option.splits)

lemma stream_calls_no_panic:
  "stream_Read n s \<noteq> Panic m" "stream_Write b s \<noteq> Panic m"
  "stream_CloseRead s \<noteq> Panic m" "stream_CloseWrite s \<noteq> Panic m"
proof -
  have "grpc_Recv r \<noteq> Panic m" for r by (cases r rule: grpc_Recv.cases) auto
  then show "stream_Read n s \<noteq> Panic m"
    by (cases s) (auto simp: lift_panic_iff then_do_panic_iff std_Read_def conn_Read_def grpc_Read_def
        capnp_Read_def bsr_Read_def md_Read_def pipe_read_no_panic Let_def
        split: if_splits list.splits sum.splits prod.splits)
  show "stream_Write b s \<noteq> Panic m"
    by (cases s) (auto simp: lift_panic_iff then_do_panic_iff std_Write_def conn_Write_def grpc_Write_def
        capnp_Write_def md_Write_def split: if_splits list.splits option.splits)
  show "stream_CloseRead s \<noteq> Panic m"
    by (cases s) (auto simp: lift_panic_iff then_do_panic_iff std_CloseRead_def conn_CloseRead_def
        grpc_CloseRead_def capnp_CloseRead_def bsr_Close_def md_CloseRead_def Let_def)
  show "stream_CloseWrite s \<noteq> Panic m"
    by (cases s) (auto simp: lift_panic_iff then_do_panic_iff std_CloseWrite_def conn_CloseWrite_def
        grpc_CloseWrite_def capnp_CloseWrite_def md_CloseWrite_def Let_def)
qed

lemma grpc_CloseWrite_returns: "\<exists>e s'. grpc_CloseWrite s = Ret (e, s')"
  by (simp add: grpc_CloseWrite_def Let_def)

lemma capnp_CloseWrite_returns: "\<exists>e s'. capnp_CloseWrite s = Ret (e, s')"
  by (simp add: capnp_CloseWrite_def)

lemma capnp_CloseRead_returns: "\<exists>e s'. capnp_CloseRead s = Ret (e, s')"
  by (simp add: capnp_CloseRead_def bsr_Close_def Let_def)

lemma stream_Close_panic_iff: "(\<exists>m. stream_Close s = Panic m) \<longleftrightarrow> \<not> close_ready s"
proof (cases s)
  case (GrpcS g)
  obtain e2 s2 where cw: "grpc_CloseWrite (g\<lparr>g_readClosed := True\<rparr>) = Ret (e2, s2)"
    using grpc_CloseWrite_returns by blast
  have "g_closeCallback s2 = g_closeCallback g" using grpc_CloseWrite_Ret [OF cw] by simp
  with cw GrpcS show ?thesis
    by (auto simp: lift_panic_iff grpc_Close_def grpc_CloseRead_def Let_def then_do_panic_iff
        elim: close_chan.elims split: option.splits)
      (metis close_chan_panics_iff sigchan.exhaust)+
next
  case (CapnpS c)
  obtain e1 s1 where cw: "capnp_CloseWrite c = Ret (e1, s1)"
    using capnp_CloseWrite_returns by blast
  obtain e2 s2 where cr: "capnp_CloseRead s1 = Ret (e2, s2)"
    using capnp_CloseRead_returns by blast
  have "cs_released s2 = cs_released c"
    using capnp_CloseWrite_Ret [OF cw] capnp_CloseRead_Ret [OF cr] by simp
  with cw cr CapnpS show ?thesis by (simp add: lift_panic_iff capnp_Close_def)
qed (auto simp: lift_panic_iff std_Close_def conn_Close_def md_Close_def Let_def split: list.splits)

lemma grpc_callback_stays:
  "grpc_Read n g = Ret (r, g') \<Longrightarrow> g_closeCallback g' = g_closeCallback g"
  "grpc_Write b g = Ret (q, g') \<Longrightarrow> g_closeCallback g' = g_closeCallback g"
  "grpc_CloseRead g = Ret (e, g') \<Longrightarrow> g_closeCallback g' = g_closeCallback g"
  "grpc_CloseWrite g = Ret (e, g') \<Longrightarrow> g_closeCallback g' = g_closeCallback g"
proof -
  show "grpc_Read n g = Ret (r, g') \<Longrightarrow> g_closeCallback g' = g_closeCallback g"
    by (cases r) (auto elim: grpc_Read_cases)
qed (auto simp: grpc_Write_def grpc_CloseRead_Ret dest: grpc_CloseWrite_Ret
    split: if_splits list.splits option.splits)

lemma capnp_released_stays:
  "capnp_Read n c = Ret (r, c') \<Longrightarrow> cs_released c' = cs_released c"
  "capnp_Write b c = Ret (q, c') \<Longrightarrow> cs_released c' = cs_released c"
  "capnp_CloseRead c = Ret (e, c') \<Longrightarrow> cs_released c' = cs_released c"
  "capnp_CloseWrite c = Ret (e, c') \<Longrightarrow> cs_released c' = cs_released c"
  by (auto simp: capnp_Read_def then_do_Ret_iff capnp_Write_def
      dest: capnp_CloseRead_Ret capnp_CloseWrite_Ret split: prod.splits if_splits list.splits option.splits)

lemma close_ready_stays:
  assumes "close_ready s"
    and "stream_Read n s = Ret (r, s') \<or> stream_Write b s = Ret (q, s') \<or>
      stream_CloseRead s = Ret (e, s') \<or> stream_CloseWrite s = Ret (e, s')"
  shows "close_ready s'"
proof (cases s)
  case (GrpcS g)
  with assms(2) obtain g' where "s' = GrpcS g'" "g_closeCallback g' = g_closeCallback g"
    by (auto simp: lift_Ret_iff dest: grpc_callback_stays)
  with GrpcS assms(1) show ?thesis by simp
next
  case (CapnpS c)
  with assms(2) obtain c' where "s' = CapnpS c'" "cs_released c' = cs_released c"
    by (auto simp: lift_Ret_iff dest: capnp_released_stays)
  with CapnpS assms(1) show ?thesis by simp
qed (use assms(2) in \<open>auto simp: lift_Ret_iff\<close>)

end
