(* ===== verification/Proxy.thy ===== *)
theory Proxy
  imports ProxyStream
begin

text \<open>
  The data path of main.go: copyStream, and handleStream with its two goroutines. copyStream is
  modelled twice: as the call that runs to its end, and as the steps it takes one call at a time, in
  which form the two copies of handleStream interleave.
\<close>

subsection \<open>copyStream\<close>

datatype log_msg =
    CopyFailed string string int err
  | CopySucceeded string string int
  | CloseReadFailed string err
  | CloseReadSucceeded string
  | CloseWriteFailed string err
  | CloseWriteSucceeded string

definition log_copy :: "string \<Rightarrow> string \<Rightarrow> int \<Rightarrow> err option \<Rightarrow> log_msg" where
  "log_copy srcName dstName written e =
     (case e of None \<Rightarrow> CopySucceeded srcName dstName written
      | Some x \<Rightarrow> CopyFailed srcName dstName written x)"

definition log_close_read :: "string \<Rightarrow> err option \<Rightarrow> log_msg" where
  "log_close_read name e = (case e of None \<Rightarrow> CloseReadSucceeded name | Some x \<Rightarrow> CloseReadFailed name x)"

definition log_close_write :: "string \<Rightarrow> err option \<Rightarrow> log_msg" where
  "log_close_write name e = (case e of None \<Rightarrow> CloseWriteSucceeded name | Some x \<Rightarrow> CloseWriteFailed name x)"

record copy_result =
  written :: int
  copyErr :: "err option"
  cr_src :: stream
  cr_dst :: stream
  cr_log :: "log_msg list"

text \<open>
  The copy, then CloseRead of the source and CloseWrite of the destination, whatever the copy
  returned; the results of the two closings are only logged. \<open>None\<close>: the copy never ends.
\<close>

definition copyStream :: "stream \<Rightarrow> stream \<Rightarrow> string \<Rightarrow> string \<Rightarrow> copy_result outcome option" where
  "copyStream src dst srcName dstName =
     map_option (\<lambda>res.
       then_do res (\<lambda>((n, e), src1, dst1).
       then_do (stream_CloseRead src1) (\<lambda>(e1, src2).
       then_do (stream_CloseWrite dst1) (\<lambda>(e2, dst2).
         Ret \<lparr>written = n, copyErr = e, cr_src = src2, cr_dst = dst2,
              cr_log = [log_copy srcName dstName n e, log_close_read srcName e1,
                log_close_write dstName e2]\<rparr>))))
     (copy_loop stream_Read stream_Write 0 src dst)"

lemma copyStream_Ret:
  assumes "copyStream src dst a b = Some (Ret r)"
  obtains src1 dst1 e1 e2 where
    "copy_loop stream_Read stream_Write 0 src dst = Some (Ret ((written r, copyErr r), src1, dst1))"
    "stream_CloseRead src1 = Ret (e1, cr_src r)"
    "stream_CloseWrite dst1 = Ret (e2, cr_dst r)"
    "cr_log r = [log_copy a b (written r) (copyErr r), log_close_read a e1, log_close_write b e2]"
  using assms by (fastforce simp: copyStream_def then_do_Ret_iff)

text \<open>What one copy does to the bytes, from the contract of the two streams.\<close>

lemma copyStream_sunk:
  assumes "copyStream src dst a b = Some (Ret r)"
  shows "\<exists>t. stream_sunk (cr_dst r) = stream_sunk dst @ t \<and> prefix t (stream_avail src) \<and>
    (copyErr r = None \<longrightarrow> t = stream_avail src \<and> written r = int (length t))"
proof -
  from assms obtain src1 dst1 e1 e2 where
      loop: "copy_loop stream_Read stream_Write 0 src dst = Some (Ret ((written r, copyErr r), src1, dst1))"
    and cw: "stream_CloseWrite dst1 = Ret (e2, cr_dst r)"
    by (rule copyStream_Ret)
  from netx_copy.copy_transfers [OF TrueI loop] netx.close_sunk(2) [OF cw] show ?thesis by auto
qed

subsection \<open>copyStream one call at a time\<close>

datatype copy_pc =
    AtRead
  | AtWrite bytes "err option"
  | AtCloseRead
  | AtCloseWrite
  | AtEnd

record copier =
  ck_pc :: copy_pc
  ck_written :: int
  ck_err :: "err option"

definition copier_start :: copier where
  "copier_start = \<lparr>ck_pc = AtRead, ck_written = 0, ck_err = None\<rparr>"

text \<open>After a round: read again, or leave the loop with the read's error (io.EOF is none).\<close>

definition after_round :: "err option \<Rightarrow> copier \<Rightarrow> copier" where
  "after_round er c =
     (case er of
        None \<Rightarrow> c\<lparr>ck_pc := AtRead\<rparr>
      | Some e \<Rightarrow> c\<lparr>ck_pc := AtCloseRead, ck_err := (if e = EOF then None else Some e)\<rparr>)"

definition after_write :: "bytes \<Rightarrow> err option \<Rightarrow> int \<times> err option \<Rightarrow> copier \<Rightarrow> copier" where
  "after_write bs er r c =
     (case copy_account (int (length bs)) (fst r) (snd r) of
        (n, None) \<Rightarrow> after_round er (c\<lparr>ck_written := ck_written c + n\<rparr>)
      | (n, Some e) \<Rightarrow> c\<lparr>ck_written := ck_written c + n, ck_pc := AtCloseRead, ck_err := Some e\<rparr>)"

definition copier_step :: "copier \<Rightarrow> stream \<Rightarrow> stream \<Rightarrow> (copier \<times> stream \<times> stream) outcome" where
  "copier_step c src dst =
     (case ck_pc c of
        AtRead \<Rightarrow>
          then_do (stream_Read copy_buf_size src) (\<lambda>((bs, er), src').
            Ret (if bs = [] then after_round er c else c\<lparr>ck_pc := AtWrite bs er\<rparr>, src', dst))
      | AtWrite bs er \<Rightarrow>
          then_do (stream_Write bs dst) (\<lambda>(r, dst'). Ret (after_write bs er r c, src, dst'))
      | AtCloseRead \<Rightarrow>
          then_do (stream_CloseRead src) (\<lambda>(_, src'). Ret (c\<lparr>ck_pc := AtCloseWrite\<rparr>, src', dst))
      | AtCloseWrite \<Rightarrow>
          then_do (stream_CloseWrite dst) (\<lambda>(_, dst'). Ret (c\<lparr>ck_pc := AtEnd\<rparr>, src, dst'))
      | AtEnd \<Rightarrow> Blocked)"

text \<open>The ways a step can go, one per program point.\<close>

lemma copier_step_cases:
  assumes "copier_step c src dst = Ret (c', src', dst')"
  obtains
    (reading) bs er where "ck_pc c = AtRead" "stream_Read copy_buf_size src = Ret ((bs, er), src')"
      "dst' = dst" "c' = (if bs = [] then after_round er c else c\<lparr>ck_pc := AtWrite bs er\<rparr>)"
  | (writing) bs er r where "ck_pc c = AtWrite bs er" "stream_Write bs dst = Ret (r, dst')"
      "src' = src" "c' = after_write bs er r c"
  | (closing_read) e where "ck_pc c = AtCloseRead" "stream_CloseRead src = Ret (e, src')"
      "dst' = dst" "c' = c\<lparr>ck_pc := AtCloseWrite\<rparr>"
  | (closing_write) e where "ck_pc c = AtCloseWrite" "stream_CloseWrite dst = Ret (e, dst')"
      "src' = src" "c' = c\<lparr>ck_pc := AtEnd\<rparr>"
  using assms
  by (cases "ck_pc c") (simp_all add: copier_step_def then_do_Ret_iff, (blast | force)+)

subsection \<open>handleStream\<close>

datatype main_pc = MOpen | MCopy | MCloseUp | MCloseDown | MDone

text \<open>
  One call of handleStream: the downstream it was given, what client.OpenStream will return, the
  upstream once it is open, where the function is, and the two copies: \<open>h_du\<close> runs in the
  goroutine started for it, \<open>h_ud\<close> in handleStream itself.
\<close>

record handler =
  h_down :: stream
  h_open :: "err + stream"
  h_up :: "stream option"
  h_main :: main_pc
  h_du :: copier
  h_ud :: copier

definition handler_start :: "stream \<Rightarrow> err + stream \<Rightarrow> handler" where
  "handler_start down opened =
     \<lparr>h_down = down, h_open = opened, h_up = None, h_main = MOpen, h_du = copier_start,
      h_ud = copier_start\<rparr>"

text \<open>
  handleStream itself: OpenStream, an early return that only runs the deferred down.Close; else
  start the goroutine, copy upstream to downstream, and on return the deferred calls in reverse
  order: up.Close, then down.Close.
\<close>

definition main_step :: "handler \<Rightarrow> handler outcome" where
  "main_step h =
     (case h_main h of
        MOpen \<Rightarrow>
          (case h_open h of
             Inl e \<Rightarrow> Ret (h\<lparr>h_main := MCloseDown\<rparr>)
           | Inr up \<Rightarrow> Ret (h\<lparr>h_up := Some up, h_main := MCopy\<rparr>))
      | MCopy \<Rightarrow>
          (case h_up h of
             None \<Rightarrow> Blocked
           | Some up \<Rightarrow>
               if ck_pc (h_ud h) = AtEnd then Ret (h\<lparr>h_main := MCloseUp\<rparr>)
               else then_do (copier_step (h_ud h) up (h_down h)) (\<lambda>(c, up', down').
                      Ret (h\<lparr>h_ud := c, h_up := Some up', h_down := down'\<rparr>)))
      | MCloseUp \<Rightarrow>
          (case h_up h of
             None \<Rightarrow> Blocked
           | Some up \<Rightarrow>
               then_do (stream_Close up) (\<lambda>(_, up'). Ret (h\<lparr>h_up := Some up', h_main := MCloseDown\<rparr>)))
      | MCloseDown \<Rightarrow>
          then_do (stream_Close (h_down h)) (\<lambda>(_, down'). Ret (h\<lparr>h_down := down', h_main := MDone\<rparr>))
      | MDone \<Rightarrow> Blocked)"

text \<open>The goroutine; it exists from the moment the upstream is open and outlives handleStream.\<close>

definition spawned_step :: "handler \<Rightarrow> handler outcome" where
  "spawned_step h =
     (case h_up h of
        None \<Rightarrow> Blocked
      | Some up \<Rightarrow>
          then_do (copier_step (h_du h) (h_down h) up) (\<lambda>(c, down', up').
            Ret (h\<lparr>h_du := c, h_down := down', h_up := Some up'\<rparr>)))"

datatype goroutine = MainG | SpawnedG

fun hstep :: "goroutine \<Rightarrow> handler \<Rightarrow> handler outcome" where
  "hstep MainG h = main_step h"
| "hstep SpawnedG h = spawned_step h"

text \<open>Any scheduler: the states some sequence of steps leads to.\<close>

inductive reaches :: "handler \<Rightarrow> handler \<Rightarrow> bool" for h0 where
  reaches_start: "reaches h0 h0"
| reaches_step: "reaches h0 h \<Longrightarrow> hstep g h = Ret h' \<Longrightarrow> reaches h0 h'"

fun hrun :: "goroutine list \<Rightarrow> handler \<Rightarrow> handler outcome" where
  "hrun [] h = Ret h"
| "hrun (g # gs) h = then_do (hstep g h) (hrun gs)"

lemma hrun_reaches: "reaches h0 h \<Longrightarrow> hrun gs h = Ret h' \<Longrightarrow> reaches h0 h'"
  by (induction gs arbitrary: h) (auto simp: then_do_Ret_iff intro: reaches_step)

lemmas hrun_reaches_start = hrun_reaches [OF reaches_start]

subsection \<open>Properties of copyStream\<close>

text \<open>
  C8. copyStream never loops for ever: on any two streams it returns, panics or waits in one of
  their calls, after finitely many rounds.
\<close>

theorem copyStream_ends: "\<exists>res. copyStream src dst srcName dstName = Some res"
  using netx_copy.copy_terminates [OF TrueI, where w = 0 and s = src and d = dst] by (auto simp: copyStream_def)

text \<open>
  C1. When copyStream returns, what it handed to the destination is a prefix of what the source had
  to give, in order and without repetition, for every pair of stream implementations and every
  error; if it returns no error it is everything, and the count is its length.
\<close>

theorem copyStream_transfers:
  assumes "copyStream src dst srcName dstName = Some (Ret r)"
  shows "\<exists>t. stream_sunk (cr_dst r) = stream_sunk dst @ t \<and> prefix t (stream_avail src) \<and>
    (copyErr r = None \<longrightarrow> t = stream_avail src \<and> written r = int (length t))"
  by (rule copyStream_sunk [OF assms])

text \<open>
  C17. With an error too, the number of bytes copyStream returns and logs is the number handed over,
  unless the destination is an mdcapnp stream.
\<close>

theorem copyStream_counts:
  assumes "copyStream src dst srcName dstName = Some (Ret r)" and "\<not> is_MdS dst"
  shows "written r = int (length (stream_sunk (cr_dst r))) - int (length (stream_sunk dst))"
proof -
  from assms(1) obtain src1 dst1 e1 e2 where
      loop: "copy_loop stream_Read stream_Write 0 src dst = Some (Ret ((written r, copyErr r), src1, dst1))"
    and cw: "stream_CloseWrite dst1 = Ret (e2, cr_dst r)"
    by (rule copyStream_Ret)
  from netx_exact.copy_counts [OF assms(2) loop] netx.close_sunk(2) [OF cw] show ?thesis by auto
qed

text \<open>A run used by the witnesses: one packet and the end, from a TCP connection into a sink.\<close>

definition sample_src :: stream where
  "sample_src = StdS \<lparr>ReadWriteCloser = new_conn TCPConn [Inr [1, 2], Inl EOF] []\<rparr>"

definition sample_dst :: stream where
  "sample_dst = StdS \<lparr>ReadWriteCloser = new_conn TCPConn [] [None]\<rparr>"

lemma sample_loop:
  "copy_loop stream_Read stream_Write 0 sample_src sample_dst =
     Some (Ret ((2, None),
       StdS \<lparr>ReadWriteCloser = new_conn TCPConn [Inl EOF] []\<rparr>,
       StdS \<lparr>ReadWriteCloser = (new_conn TCPConn [] [])\<lparr>c_out := [1, 2]\<rparr>\<rparr>))"
  by (subst copy_loop.simps, simp add: copy_once_def copy_end_def copy_account_def sample_src_def
        sample_dst_def new_conn_def lift_def std_Read_def std_Write_def conn_Read_def conn_Write_def
        copy_buf_size_def,
      subst copy_loop.simps, simp add: copy_once_def copy_end_def lift_def std_Read_def conn_Read_def
        copy_buf_size_def)

lemma sample_copy:
  "\<exists>r. copyStream sample_src sample_dst ''downstream'' ''upstream'' = Some (Ret r) \<and>
     copyErr r = None \<and> written r = 2 \<and> stream_sunk (cr_dst r) = [1, 2]"
  by (simp add: copyStream_def sample_loop lift_def new_conn_def std_CloseRead_def std_CloseWrite_def
      conn_CloseRead_def conn_CloseWrite_def std_sunk_def)

lemma sample_streams:
  "stream_sunk sample_dst = []" "stream_avail sample_src = [1, 2]" "\<not> is_MdS sample_dst"
  by (simp_all add: sample_dst_def sample_src_def new_conn_def std_sunk_def std_avail_def)

theorem copyStream_transfers_witness:
  "\<exists>r t. copyStream sample_src sample_dst ''downstream'' ''upstream'' = Some (Ret r) \<and>
     stream_sunk (cr_dst r) = stream_sunk sample_dst @ t \<and> t = [1, 2]"
proof -
  obtain r where r: "copyStream sample_src sample_dst ''downstream'' ''upstream'' = Some (Ret r)"
      "copyErr r = None"
    using sample_copy by blast
  from copyStream_transfers [OF r(1)] r sample_streams show ?thesis by auto
qed

theorem copyStream_counts_witness:
  "\<exists>r. copyStream sample_src sample_dst ''downstream'' ''upstream'' = Some (Ret r) \<and>
     int (length (stream_sunk (cr_dst r))) = 2 \<and> written r = 2"
proof -
  obtain r where r: "copyStream sample_src sample_dst ''downstream'' ''upstream'' = Some (Ret r)"
      "written r = 2"
    using sample_copy by blast
  from copyStream_counts [OF r(1) sample_streams(3)] r sample_streams show ?thesis by auto
qed

text \<open>
  The exception of the count is real: an mdcapnp stream's Write returns the full length with its
  error, so a copy whose one write call failed reports bytes that no call delivered.
\<close>

theorem copyStream_mdcapnp_overcounts:
  "\<exists>dst r. copyStream sample_src (MdS dst) ''downstream'' ''upstream'' = Some (Ret r) \<and>
     copyErr r \<noteq> None \<and> written r = 2 \<and> stream_sunk (cr_dst r) = stream_sunk (MdS dst)"
proof -
  let ?d = "newStreamImpl newByteStreamServer [] [Some (ErrExt 1)] []"
  let ?d' = "newStreamImpl newByteStreamServer [] [] []"
  have "copy_loop stream_Read stream_Write 0 sample_src (MdS ?d) =
    Some (Ret ((2, Some (ErrExt 1)),
      StdS \<lparr>ReadWriteCloser = new_conn TCPConn [Inl EOF] []\<rparr>, MdS ?d'))"
    by (subst copy_loop.simps) (simp add: copy_once_def copy_account_def sample_src_def new_conn_def
        lift_def std_Read_def conn_Read_def md_Write_def newStreamImpl_def copy_buf_size_def)
  then have "\<exists>r. copyStream sample_src (MdS ?d) ''downstream'' ''upstream'' = Some (Ret r) \<and>
     copyErr r \<noteq> None \<and> written r = 2 \<and> stream_sunk (cr_dst r) = stream_sunk (MdS ?d)"
    by (simp add: copyStream_def lift_def std_CloseRead_def conn_CloseRead_def new_conn_def
        md_CloseWrite_def md_sunk_def newStreamImpl_def)
  then show ?thesis by blast
qed

text \<open>
  The streams whose CloseWrite makes its call: a connection not yet closed, the client's side of a gRPC
  stream or a Cap'n Proto stream not yet closed for writing.
\<close>

fun can_half_close :: "stream \<Rightarrow> bool" where
  "can_half_close (StdS s) \<longleftrightarrow> c_closes (ReadWriteCloser s) = 0"
| "can_half_close (GrpcS s) \<longleftrightarrow> g_client s \<and> \<not> g_writeClosed s"
| "can_half_close (CapnpS s) \<longleftrightarrow> \<not> cs_closed s"
| "can_half_close (MdS s) \<longleftrightarrow> False"

lemma CloseWrite_half_closes:
  assumes "stream_CloseWrite s = Ret (e, s')" and "can_half_close s"
  shows "half_closes s' = Suc (half_closes s)" and "half_close_error s' = half_close_error s"
    and "e = half_close_error s"
  using assms
  by (cases s; auto simp: lift_Ret_iff std_CloseWrite_def conn_CloseWrite_def grpc_CloseWrite_def
      capnp_CloseWrite_def then_do_Ret_iff Let_def split: if_splits)+

text \<open>After it, a write is refused; a connection refuses it when the shutdown succeeded.\<close>

lemma CloseWrite_refuses:
  assumes "stream_CloseWrite s = Ret (e, s')" and "can_half_close s" and "half_close_error s = None"
  shows "\<exists>e. stream_Write b s' = Ret ((0, Some e), s')"
  using assms
  by (cases s) (auto simp: lift_def std_CloseWrite_def conn_CloseWrite_def grpc_CloseWrite_def capnp_CloseWrite_def
      std_Write_def conn_Write_def grpc_Write_def capnp_Write_def Let_def split: if_splits)

text \<open>Writing does not close: the copy loop leaves the destination as ready for CloseWrite as it was.\<close>

lemma Write_half_close:
  assumes "stream_Write bs s = Ret (r, s')"
  shows "can_half_close s' = can_half_close s" and "half_closes s' = half_closes s"
    and "half_close_error s' = half_close_error s"
    and "end_sent s' = end_sent s"
  using assms
  by (cases s; auto simp: lift_Ret_iff std_Write_def conn_Write_def then_do_Ret_iff grpc_Write_def
      capnp_Write_def md_Write_def split: if_splits list.splits option.splits)+

text \<open>
  C18. Half-close crosses the proxy: when a copy into a connection, a gRPC client stream or an open
  Cap'n Proto stream has returned, CloseWrite has made its call exactly once; the copy logs success if
  and only if that call succeeded, so that the peer has been told that no more bytes come, and a
  failure with the error it returned otherwise; and once the peer has been told, every further Write is
  refused.
\<close>

theorem copyStream_half_closes:
  assumes "copyStream src dst srcName dstName = Some (Ret r)" and "can_half_close dst"
  shows "half_closes (cr_dst r) = Suc (half_closes dst) \<and>
    (half_closed (cr_dst r) \<longleftrightarrow> CloseWriteSucceeded dstName \<in> set (cr_log r)) \<and>
    (\<forall>e. half_close_error dst = Some e \<longleftrightarrow> CloseWriteFailed dstName e \<in> set (cr_log r)) \<and>
    (half_closed (cr_dst r) \<longrightarrow> (\<forall>b. \<exists>e. stream_Write b (cr_dst r) = Ret ((0, Some e), cr_dst r)))"
proof -
  from assms(1) obtain src1 dst1 e1 e2 where
      loop: "copy_loop stream_Read stream_Write 0 src dst = Some (Ret ((written r, copyErr r), src1, dst1))"
    and cw: "stream_CloseWrite dst1 = Ret (e2, cr_dst r)"
    and log: "cr_log r = [log_copy srcName dstName (written r) (copyErr r), log_close_read srcName e1,
      log_close_write dstName e2]"
    by (rule copyStream_Ret)
  let ?P = "\<lambda>d. can_half_close d \<and> half_closes d = half_closes dst \<and> half_close_error d = half_close_error dst"
  have keeps: "?P d'" if "?P d" and "stream_Write bs d = Ret (w, d')" for bs d w d'
    using that(1) Write_half_close(1-3) [OF that(2)] by simp
  have d: "?P dst1"
    by (rule netx_copy.copy_keeps [of ?P, OF keeps TrueI _ loop]) (use assms(2) in simp_all)
  note c = CloseWrite_half_closes [OF cw] and refuses = CloseWrite_refuses [OF cw]
  have "CloseWriteSucceeded dstName \<in> set (cr_log r) \<longleftrightarrow> e2 = None"
    and "CloseWriteFailed dstName e \<in> set (cr_log r) \<longleftrightarrow> e2 = Some e" for e
    by (auto simp: log log_copy_def log_close_read_def log_close_write_def split: option.splits)
  with c refuses d show ?thesis by (auto simp: half_closed_def)
qed

theorem copyStream_half_closes_witness:
  "can_half_close sample_dst \<and>
   (\<exists>r. copyStream sample_src sample_dst ''downstream'' ''upstream'' = Some (Ret r) \<and>
      half_closes (cr_dst r) = 1)"
proof -
  obtain r where r: "copyStream sample_src sample_dst ''downstream'' ''upstream'' = Some (Ret r)"
    using sample_copy by blast
  have t: "can_half_close sample_dst" by (simp add: sample_dst_def new_conn_def)
  moreover have "half_closes sample_dst = 0" by (simp add: sample_dst_def new_conn_def)
  ultimately show ?thesis using copyStream_half_closes [OF r t] r by auto
qed

fun silent_CloseWrite :: "stream \<Rightarrow> bool" where
  "silent_CloseWrite (GrpcS s) = (\<not> g_client s)"
| "silent_CloseWrite s = is_MdS s"

lemma silent_CloseWrite_told:
  "stream_CloseWrite s = Ret (e, s') \<Longrightarrow> silent_CloseWrite s \<Longrightarrow> end_sent s' = end_sent s"
  by (cases s) (auto simp: lift_Ret_iff md_CloseWrite_def dest!: grpc_CloseWrite_Ret)

lemma Write_silent: "stream_Write bs s = Ret (r, s') \<Longrightarrow> silent_CloseWrite s' = silent_CloseWrite s"
  by (cases s) (auto simp: lift_Ret_iff grpc_Write_def md_Write_def split: if_splits list.splits option.splits)

text \<open>
  Through an mdcapnp stream, and towards a gRPC client from the server's side, nothing is told
  at the end of a copy: its CloseWrite does nothing on the wire, so the peer waits for more bytes
  until Close.
\<close>

theorem copyStream_no_half_close:
  assumes "copyStream src dst srcName dstName = Some (Ret r)" and "silent_CloseWrite dst"
  shows "end_sent (cr_dst r) = end_sent dst"
proof -
  from assms(1) obtain src1 dst1 e1 e2 where
      loop: "copy_loop stream_Read stream_Write 0 src dst = Some (Ret ((written r, copyErr r), src1, dst1))"
    and cw: "stream_CloseWrite dst1 = Ret (e2, cr_dst r)"
    by (rule copyStream_Ret)
  let ?P = "\<lambda>d. silent_CloseWrite d \<and> end_sent d = end_sent dst"
  have "?P dst1"
    using netx_copy.copy_keeps [of ?P, OF _ TrueI _ loop] Write_half_close(4) Write_silent assms(2) by blast
  with silent_CloseWrite_told [OF cw] show ?thesis by simp
qed

definition sample_md :: stream where
  "sample_md = MdS (newStreamImpl newByteStreamServer [] [None] [])"

lemma sample_md_copy:
  "\<exists>r. copyStream sample_src sample_md ''downstream'' ''upstream'' = Some (Ret r) \<and>
     copyErr r = None \<and> stream_sunk (cr_dst r) = [1, 2]"
proof -
  have "copy_loop stream_Read stream_Write 0 sample_src sample_md =
    Some (Ret ((2, None),
      StdS \<lparr>ReadWriteCloser = new_conn TCPConn [Inl EOF] []\<rparr>,
      MdS ((newStreamImpl newByteStreamServer [] [] [])\<lparr>ms_sent := [[1, 2]]\<rparr>)))"
    by (subst copy_loop.simps, simp add: copy_once_def copy_end_def copy_account_def sample_src_def
          sample_md_def new_conn_def newStreamImpl_def lift_def std_Read_def md_Write_def conn_Read_def
          copy_buf_size_def,
        subst copy_loop.simps, simp add: copy_once_def copy_end_def lift_def std_Read_def conn_Read_def
          copy_buf_size_def)
  then show ?thesis
    by (simp add: copyStream_def lift_def new_conn_def std_CloseRead_def conn_CloseRead_def
        md_CloseWrite_def md_sunk_def)
qed

theorem copyStream_no_half_close_witness:
  "\<exists>r. copyStream sample_src sample_md ''downstream'' ''upstream'' = Some (Ret r) \<and>
     copyErr r = None \<and> \<not> end_sent (cr_dst r)"
proof -
  obtain r where r: "copyStream sample_src sample_md ''downstream'' ''upstream'' = Some (Ret r)"
      "copyErr r = None"
    using sample_md_copy by blast
  have "silent_CloseWrite sample_md" "\<not> end_sent sample_md"
    by (simp_all add: sample_md_def newStreamImpl_def)
  with copyStream_no_half_close [OF r(1)] r show ?thesis by blast
qed

end
