(* ===== verification/Handler.thy ===== *)
theory Handler
  imports Proxy
begin

text \<open>
  Invariants of handleStream under every schedule of its two goroutines: what each direction has
  moved, which calls have been made on the streams, and that no call panics.
\<close>

subsection \<open>Bytes moved by one direction\<close>

text \<open>What the copy will still write if nothing fails.\<close>

definition copier_rest :: "copier \<Rightarrow> stream \<Rightarrow> bytes" where
  "copier_rest c src =
     (case ck_pc c of
        AtRead \<Rightarrow> stream_avail src
      | AtWrite bs None \<Rightarrow> bs @ stream_avail src
      | AtWrite bs (Some _) \<Rightarrow> bs
      | _ \<Rightarrow> [])"

definition dir_ok :: "stream \<Rightarrow> stream \<Rightarrow> copier \<Rightarrow> stream \<Rightarrow> stream \<Rightarrow> bool" where
  "dir_ok src0 dst0 c src dst \<longleftrightarrow>
     (\<exists>t. stream_sunk dst = stream_sunk dst0 @ t \<and> prefix (t @ copier_rest c src) (stream_avail src0))"

text \<open>The copy has met an error, or will report the one it read together with its last bytes.\<close>

definition copier_failed :: "copier \<Rightarrow> bool" where
  "copier_failed c \<longleftrightarrow>
     ck_err c \<noteq> None \<or> (\<exists>bs e. ck_pc c = AtWrite bs (Some e) \<and> e \<noteq> EOF)"

definition dir_exact :: "stream \<Rightarrow> stream \<Rightarrow> copier \<Rightarrow> stream \<Rightarrow> stream \<Rightarrow> bool" where
  "dir_exact src0 dst0 c src dst \<longleftrightarrow>
     copier_failed c \<or>
     (\<exists>t. stream_sunk dst = stream_sunk dst0 @ t \<and> t @ copier_rest c src = stream_avail src0 \<and>
        ck_written c = int (length t))"

lemma dir_ok_start: "dir_ok src dst copier_start src dst"
  by (auto simp: dir_ok_def copier_rest_def copier_start_def)

lemma dir_exact_start: "dir_exact src dst copier_start src dst"
  by (auto simp: dir_exact_def copier_rest_def copier_start_def)

lemma copier_rest_after_round:
  "copier_rest (after_round er c) src = (if er = None then stream_avail src else [])"
  by (cases er) (auto simp: after_round_def copier_rest_def)

lemma copier_rest_pc [simp]:
  "copier_rest (c\<lparr>ck_pc := AtWrite bs er\<rparr>) src = (if er = None then bs @ stream_avail src else bs)"
  "copier_rest (c\<lparr>ck_pc := AtCloseRead\<rparr>) src = []"
  "copier_rest (c\<lparr>ck_pc := AtCloseWrite\<rparr>) src = []"
  "copier_rest (c\<lparr>ck_pc := AtEnd\<rparr>) src = []"
  by (auto simp: copier_rest_def split: option.splits)

lemma copier_rest_eqs:
  "ck_pc c = AtRead \<Longrightarrow> copier_rest c src = stream_avail src"
  "ck_pc c = AtWrite bs er \<Longrightarrow> copier_rest c src = (if er = None then bs @ stream_avail src else bs)"
  "ck_pc c = AtCloseRead \<Longrightarrow> copier_rest c src = []"
  "ck_pc c = AtCloseWrite \<Longrightarrow> copier_rest c src = []"
  "ck_pc c = AtEnd \<Longrightarrow> copier_rest c src = []"
  by (auto simp: copier_rest_def split: option.splits)

text \<open>What Write's result means for the copy: all bytes taken and another round, or the end.\<close>

lemma after_write_cases:
  assumes "stream_Write bs dst = Ret (r, dst')"
  obtains
    (all) "after_write bs er r c = after_round er (c\<lparr>ck_written := ck_written c + int (length bs)\<rparr>)"
      "stream_sunk dst' = stream_sunk dst @ bs"
  | (failed) k n e where "after_write bs er r c = c\<lparr>ck_written := n, ck_pc := AtCloseRead, ck_err := Some e\<rparr>"
      "stream_sunk dst' = stream_sunk dst @ take k bs"
proof -
  obtain n ew where r: "r = (n, ew)" by (cases r)
  note wr = stream_Write_contract(1) [OF assms [unfolded r]]
  show thesis
  proof (cases ew)
    case None
    with wr r have "after_write bs er r c = after_round er (c\<lparr>ck_written := ck_written c + int (length bs)\<rparr>)"
      by (simp add: after_write_def copy_account_valid)
    moreover have "stream_sunk dst' = stream_sunk dst @ bs" using wr None by simp
    ultimately show thesis by (rule all)
  next
    case (Some e)
    with wr r have "after_write bs er r c = c\<lparr>ck_written := ck_written c + n, ck_pc := AtCloseRead, ck_err := Some e\<rparr>"
      by (simp add: after_write_def copy_account_valid)
    moreover obtain k where "stream_sunk dst' = stream_sunk dst @ take k bs" using wr by blast
    ultimately show thesis by (rule failed)
  qed
qed

lemma copier_rest_written [simp]: "copier_rest (c\<lparr>ck_written := n\<rparr>) src = copier_rest c src"
  by (simp add: copier_rest_def)

lemma copier_step_dir_ok:
  assumes "copier_step c src dst = Ret (c', src', dst')" and "dir_ok src0 dst0 c src dst"
  shows "dir_ok src0 dst0 c' src' dst'"
  using assms(1)
proof (cases rule: copier_step_cases)
  case (reading bs er)
  from stream_Read_contract [OF reading(2)] have "stream_avail src = bs @ stream_avail src'" by simp
  with assms(2) reading(1,3) obtain t where t: "stream_sunk dst' = stream_sunk dst0 @ t"
      "prefix (t @ bs @ stream_avail src') (stream_avail src0)"
    by (auto simp: dir_ok_def copier_rest_eqs(1))
  have "prefix (copier_rest c' src') (bs @ stream_avail src')"
    using reading(4) by (auto simp: copier_rest_after_round)
  with t show ?thesis
    unfolding dir_ok_def by (meson prefix_append_mono prefix_order.trans)
next
  case (writing bs er r)
  from assms(2) writing(1) obtain t where t: "stream_sunk dst = stream_sunk dst0 @ t"
      "prefix (t @ (if er = None then bs @ stream_avail src else bs)) (stream_avail src0)"
    by (auto simp: dir_ok_def copier_rest_eqs(2))
  from writing(2) show ?thesis
  proof (cases rule: after_write_cases [where er = er and c = c])
    case all
    with writing t show ?thesis
      by (auto simp: dir_ok_def copier_rest_after_round intro!: exI [of _ "t @ bs"] split: if_splits)
  next
    case (failed k n e)
    from t(2) have "prefix (t @ bs) (stream_avail src0)"
      by (auto split: if_splits intro: prefix_appendI [of _ "stream_avail src"])
    then have "prefix (t @ take k bs) (stream_avail src0)"
      by (meson prefix_append_mono prefix_order.trans prefix_take)
    with failed writing t(1) show ?thesis
      by (auto simp: dir_ok_def copier_rest_eqs(3) intro!: exI [of _ "t @ take k bs"])
  qed
next
  case (closing_read e)
  with assms(2) netx.close_sunk(1) show ?thesis by (auto simp: dir_ok_def copier_rest_eqs)
next
  case (closing_write e)
  with assms(2) netx.close_sunk(2) show ?thesis by (auto simp: dir_ok_def copier_rest_eqs)
qed

lemma copier_failed_after_round:
  "copier_failed (after_round er c) \<longleftrightarrow>
     (case er of None \<Rightarrow> ck_err c \<noteq> None | Some e \<Rightarrow> e \<noteq> EOF)"
  by (auto simp: copier_failed_def after_round_def split: option.splits)

lemma after_round_written [simp]: "ck_written (after_round er c) = ck_written c"
  by (simp add: after_round_def split: option.splits)

lemma copier_step_failed:
  assumes "copier_step c src dst = Ret (c', src', dst')" and "ck_err c \<noteq> None \<Longrightarrow> ck_pc c \<noteq> AtRead"
    and "\<And>bs er. ck_pc c = AtWrite bs er \<Longrightarrow> ck_err c = None"
    and "copier_failed c"
  shows "copier_failed c'"
  using assms(1)
proof (cases rule: copier_step_cases)
  case (writing bs er r)
  from writing(2) show ?thesis
  proof (cases rule: after_write_cases [where er = er and c = c])
    case all
    from assms(3,4) writing(1) obtain e where "er = Some e" "e \<noteq> EOF"
      by (auto simp: copier_failed_def)
    with all(1) writing(4) show ?thesis by (simp add: copier_failed_after_round)
  qed (use writing in \<open>auto simp: copier_failed_def\<close>)
qed (use assms(2-4) in \<open>auto simp: copier_failed_def\<close>)

text \<open>An error is recorded only on leaving the loop.\<close>

definition copier_wf :: "copier \<Rightarrow> bool" where
  "copier_wf c \<longleftrightarrow> (ck_pc c = AtRead \<or> (\<exists>bs er. ck_pc c = AtWrite bs er) \<longrightarrow> ck_err c = None)"

lemma copier_wf_start: "copier_wf copier_start"
  by (simp add: copier_wf_def copier_start_def)

lemma copier_wf_after_round: "ck_err c = None \<Longrightarrow> copier_wf (after_round er c)"
  by (simp add: copier_wf_def after_round_def split: option.splits)

lemma copier_step_wf:
  assumes "copier_step c src dst = Ret (c', src', dst')" and "copier_wf c"
  shows "copier_wf c'"
  using assms(1)
proof (cases rule: copier_step_cases)
  case (writing bs er r)
  from writing(2) show ?thesis
  proof (cases rule: after_write_cases [where er = er and c = c])
    case all
    have "ck_err c = None" using assms(2) writing(1) by (auto simp: copier_wf_def)
    with all(1) writing(4) show ?thesis by (simp add: copier_wf_after_round)
  qed (use writing in \<open>auto simp: copier_wf_def\<close>)
next
  case (reading bs er)
  have err: "ck_err c = None" using assms(2) reading(1) by (simp add: copier_wf_def)
  then have "copier_wf (c\<lparr>ck_pc := AtWrite bs er\<rparr>)" by (simp add: copier_wf_def)
  with err reading(4) show ?thesis by (simp add: copier_wf_after_round)
qed (use assms(2) in \<open>auto simp: copier_wf_def\<close>)

lemma copier_step_dir_exact:
  assumes step: "copier_step c src dst = Ret (c', src', dst')" and "copier_wf c"
    and ex: "dir_exact src0 dst0 c src dst"
  shows "dir_exact src0 dst0 c' src' dst'"
proof (cases "copier_failed c")
  case True
  with copier_step_failed [OF step] assms(2) show ?thesis
    by (auto simp: dir_exact_def copier_wf_def)
next
  case False
  with ex obtain t where t: "stream_sunk dst = stream_sunk dst0 @ t"
      "t @ copier_rest c src = stream_avail src0" "ck_written c = int (length t)"
    by (auto simp: dir_exact_def)
  from step show ?thesis
  proof (cases rule: copier_step_cases)
    case (reading bs er)
    note av = stream_Read_contract [OF reading(2)]
    show ?thesis
    proof (cases "er = None \<or> er = Some EOF")
      case True
      with av have "copier_rest c' src' = stream_avail src"
        using reading(4) by (auto simp: copier_rest_after_round)
      moreover have "ck_written c' = ck_written c" using reading(4) by simp
      ultimately show ?thesis
        using t reading(1,3) by (auto simp: dir_exact_def copier_rest_eqs(1))
    next
      case False
      then obtain e where e: "er = Some e" "e \<noteq> EOF" by (cases er) auto
      then have "copier_failed (c\<lparr>ck_pc := AtWrite bs er\<rparr>)" by (simp add: copier_failed_def)
      with e reading(4) have "copier_failed c'" by (simp add: copier_failed_after_round)
      then show ?thesis by (simp add: dir_exact_def)
    qed
  next
    case (writing bs er r)
    from writing(2) show ?thesis
    proof (cases rule: after_write_cases [where er = er and c = c])
      case all
      with t writing False show ?thesis
        by (auto simp: dir_exact_def copier_rest_after_round copier_rest_eqs(2)
            intro!: exI [of _ "t @ bs"] split: if_splits)
    next
      case (failed k n e)
      with writing show ?thesis by (simp add: dir_exact_def copier_failed_def)
    qed
  next
    case (closing_read e)
    with t netx.close_sunk(1) show ?thesis by (auto simp: dir_exact_def copier_rest_eqs)
  next
    case (closing_write e)
    with t netx.close_sunk(2) show ?thesis by (auto simp: dir_exact_def copier_rest_eqs)
  qed
qed

text \<open>
  What one direction does to the other: its writes and its CloseWrite leave the other's source as it
  is, its reads and its CloseRead leave what the other's destination was given.
\<close>

lemma copier_step_frame:
  assumes "copier_step c src dst = Ret (c', src', dst')"
  shows "stream_sunk src' = stream_sunk src" and "stream_avail dst' = stream_avail dst"
proof -
  have "stream_sunk src' = stream_sunk src \<and> stream_avail dst' = stream_avail dst"
    using assms
  proof (cases rule: copier_step_cases)
    case (reading bs er)
    with netx.rd_sunk show ?thesis by auto
  next
    case (writing bs er r)
    with netx.wr_avail show ?thesis by auto
  next
    case (closing_read e)
    with netx.close_sunk(1) show ?thesis by auto
  next
    case (closing_write e)
    with stream_CloseWrite_avail show ?thesis by auto
  qed
  then show "stream_sunk src' = stream_sunk src" and "stream_avail dst' = stream_avail dst"
    by simp_all
qed

lemma copier_rest_mono:
  "prefix (stream_avail src') (stream_avail src) \<Longrightarrow> prefix (copier_rest c src') (copier_rest c src)"
  by (auto simp: copier_rest_def split: copy_pc.splits option.splits)

lemma copier_rest_cong: "stream_avail src' = stream_avail src \<Longrightarrow> copier_rest c src' = copier_rest c src"
  by (simp add: copier_rest_def split: copy_pc.splits option.splits)

lemma dir_ok_frame:
  assumes "dir_ok src0 dst0 c src dst" and "stream_sunk dst' = stream_sunk dst"
    and "prefix (stream_avail src') (stream_avail src)"
  shows "dir_ok src0 dst0 c src' dst'"
  using assms copier_rest_mono [OF assms(3), of c]
  unfolding dir_ok_def by (metis prefix_append_mono prefix_order.trans)

lemma dir_exact_frame:
  assumes "dir_exact src0 dst0 c src dst" and "stream_sunk dst' = stream_sunk dst"
    and "stream_avail src' = stream_avail src \<or> ck_pc c = AtEnd"
  shows "dir_exact src0 dst0 c src' dst'"
  using assms copier_rest_cong [of src' src c]
  by (auto simp: dir_exact_def copier_rest_eqs(5))

subsection \<open>The two goroutines together\<close>

lemma main_step_cases:
  assumes "main_step h = Ret h'"
  obtains
    (open_fails) e where "h_main h = MOpen" "h_open h = Inl e" "h' = h\<lparr>h_main := MCloseDown\<rparr>"
  | (open_ok) up where "h_main h = MOpen" "h_open h = Inr up"
      "h' = h\<lparr>h_up := Some up, h_main := MCopy\<rparr>"
  | (copy_ends) up where "h_main h = MCopy" "h_up h = Some up" "ck_pc (h_ud h) = AtEnd"
      "h' = h\<lparr>h_main := MCloseUp\<rparr>"
  | (copying) up c up' down' where "h_main h = MCopy" "h_up h = Some up"
      "copier_step (h_ud h) up (h_down h) = Ret (c, up', down')"
      "h' = h\<lparr>h_ud := c, h_up := Some up', h_down := down'\<rparr>"
  | (close_up) up e up' where "h_main h = MCloseUp" "h_up h = Some up" "stream_Close up = Ret (e, up')"
      "h' = h\<lparr>h_up := Some up', h_main := MCloseDown\<rparr>"
  | (close_down) e down' where "h_main h = MCloseDown" "stream_Close (h_down h) = Ret (e, down')"
      "h' = h\<lparr>h_down := down', h_main := MDone\<rparr>"
proof (cases "h_main h")
  case MOpen
  with assms open_fails open_ok show thesis by (cases "h_open h") (simp_all add: main_step_def)
next
  case MCopy
  with assms obtain up where up: "h_up h = Some up" by (cases "h_up h") (simp_all add: main_step_def)
  show thesis
  proof (cases "ck_pc (h_ud h) = AtEnd")
    case True
    with assms MCopy up have "h' = h\<lparr>h_main := MCloseUp\<rparr>" by (simp add: main_step_def)
    with MCopy up True show thesis by (rule copy_ends)
  next
    case False
    with assms MCopy up obtain c up' down' where
        "copier_step (h_ud h) up (h_down h) = Ret (c, up', down')"
        "h' = h\<lparr>h_ud := c, h_up := Some up', h_down := down'\<rparr>"
      by (fastforce simp: main_step_def then_do_Ret_iff)
    with MCopy up show thesis by (rule copying)
  qed
next
  case MCloseUp
  with assms obtain up where up: "h_up h = Some up" by (cases "h_up h") (simp_all add: main_step_def)
  with assms MCloseUp obtain e up' where "stream_Close up = Ret (e, up')"
      "h' = h\<lparr>h_up := Some up', h_main := MCloseDown\<rparr>"
    by (fastforce simp: main_step_def then_do_Ret_iff)
  with MCloseUp up show thesis by (rule close_up)
next
  case MCloseDown
  with assms obtain e down' where "stream_Close (h_down h) = Ret (e, down')"
      "h' = h\<lparr>h_down := down', h_main := MDone\<rparr>"
    by (fastforce simp: main_step_def then_do_Ret_iff)
  with MCloseDown show thesis by (rule close_down)
qed (use assms in \<open>simp add: main_step_def\<close>)

lemma spawned_step_cases:
  assumes "spawned_step h = Ret h'"
  obtains up c down' up' where "h_up h = Some up"
    "copier_step (h_du h) (h_down h) up = Ret (c, down', up')"
    "h' = h\<lparr>h_du := c, h_down := down', h_up := Some up'\<rparr>"
  using assms by (cases "h_up h") (fastforce simp: spawned_step_def then_do_Ret_iff)+

definition moves :: "stream \<Rightarrow> stream \<Rightarrow> handler \<Rightarrow> stream \<Rightarrow> bool" where
  "moves down0 up0 h up \<longleftrightarrow>
     dir_ok down0 up0 (h_du h) (h_down h) up \<and> dir_ok up0 down0 (h_ud h) up (h_down h) \<and>
     dir_exact up0 down0 (h_ud h) up (h_down h)"

definition handler_inv :: "stream \<Rightarrow> stream \<Rightarrow> handler \<Rightarrow> bool" where
  "handler_inv down0 up0 h \<longleftrightarrow>
     h_open h = Inr up0 \<and> copier_wf (h_du h) \<and> copier_wf (h_ud h) \<and>
     (case h_up h of
        None \<Rightarrow> h = handler_start down0 (Inr up0)
      | Some up \<Rightarrow> h_main h \<noteq> MOpen \<and> (h_main h \<noteq> MCopy \<longrightarrow> ck_pc (h_ud h) = AtEnd) \<and>
          moves down0 up0 h up)"

lemma handler_inv_start: "handler_inv down0 up0 (handler_start down0 (Inr up0))"
  by (simp add: handler_inv_def handler_start_def copier_wf_start)

lemma moves_close_up:
  assumes "moves down0 up0 h up" and "stream_Close up = Ret (e, up')" and "ck_pc (h_ud h) = AtEnd"
  shows "moves down0 up0 (h\<lparr>h_up := Some up', h_main := m\<rparr>) up'"
  using assms netx.close_sunk(3) [OF assms(2)] netx.close_avail(3) [OF assms(2)]
  by (auto simp: moves_def intro: dir_ok_frame dir_exact_frame)

lemma moves_close_down:
  assumes "moves down0 up0 h up" and "stream_Close (h_down h) = Ret (e, down')"
  shows "moves down0 up0 (h\<lparr>h_down := down', h_main := m\<rparr>) up"
  using assms netx.close_sunk(3) [OF assms(2)] netx.close_avail(3) [OF assms(2)]
  by (auto simp: moves_def intro: dir_ok_frame dir_exact_frame)

lemma moves_ud:
  assumes "moves down0 up0 h up" and "copier_wf (h_ud h)"
    and step: "copier_step (h_ud h) up (h_down h) = Ret (c, up', down')"
  shows "moves down0 up0 (h\<lparr>h_ud := c, h_up := Some up', h_down := down'\<rparr>) up'"
  using assms(1,2) copier_step_dir_ok [OF step] copier_step_dir_exact [OF step] copier_step_frame [OF step]
  by (auto simp: moves_def intro: dir_ok_frame)

lemma moves_du:
  assumes "moves down0 up0 h up"
    and step: "copier_step (h_du h) (h_down h) up = Ret (c, down', up')"
  shows "moves down0 up0 (h\<lparr>h_du := c, h_down := down', h_up := Some up'\<rparr>) up'"
  using assms(1) copier_step_dir_ok [OF step] copier_step_frame [OF step]
  by (auto simp: moves_def intro: dir_ok_frame dir_exact_frame)

lemma main_step_inv:
  assumes "main_step h = Ret h'" and "handler_inv down0 up0 h"
  shows "handler_inv down0 up0 h'"
  using assms(1)
proof (cases rule: main_step_cases)
  case (open_ok up)
  with assms(2) have "h = handler_start down0 (Inr up0)" "up = up0"
    by (auto simp: handler_inv_def split: option.splits)
  with open_ok show ?thesis
    by (simp add: handler_inv_def handler_start_def copier_wf_start moves_def dir_ok_start dir_exact_start)
next
  case (copying up c up' down')
  with assms(2) moves_ud [of down0 up0 h up c up' down'] copier_step_wf show ?thesis
    by (auto simp: handler_inv_def)
next
  case (close_up up e up')
  with assms(2) moves_close_up [of down0 up0 h up e up'] show ?thesis
    by (auto simp: handler_inv_def)
next
  case (close_down e down')
  with assms(2) have "h_up h \<noteq> None"
    by (auto simp: handler_inv_def handler_start_def split: option.splits)
  with close_down assms(2) moves_close_down [of down0 up0 h _ e down'] show ?thesis
    by (auto simp: handler_inv_def)
next
  case (copy_ends up)
  with assms(2) show ?thesis by (auto simp: handler_inv_def moves_def)
qed (use assms(2) in \<open>simp add: handler_inv_def\<close>)

lemma spawned_step_inv:
  assumes "spawned_step h = Ret h'" and "handler_inv down0 up0 h"
  shows "handler_inv down0 up0 h'"
  using assms(1)
proof (cases rule: spawned_step_cases)
  case (1 up c down' up')
  with assms(2) moves_du [of down0 up0 h up c down' up'] copier_step_wf show ?thesis
    by (auto simp: handler_inv_def)
qed

lemma reaches_inv: "reaches (handler_start down0 (Inr up0)) h \<Longrightarrow> handler_inv down0 up0 h"
proof (induction rule: reaches.induct)
  case (reaches_step h g h')
  then show ?case by (cases g) (auto intro: main_step_inv spawned_step_inv)
qed (rule handler_inv_start)

lemma reaches_moves:
  assumes "reaches (handler_start down0 (Inr up0)) h" and "h_up h = Some up"
  shows "moves down0 up0 h up"
  using reaches_inv [OF assms(1)] assms(2) by (simp add: handler_inv_def)

subsection \<open>Closing the two streams\<close>

lemma copier_step_calls:
  assumes "copier_step c src dst = Ret (c', src', dst')"
  shows "close_ready src \<Longrightarrow> close_ready src'" and "close_ready dst \<Longrightarrow> close_ready dst'"
    and "stream_closed src \<Longrightarrow> stream_closed src'" and "stream_closed dst \<Longrightarrow> stream_closed dst'"
proof -
  have "src' = src \<or> (\<exists>n r e. stream_Read n src = Ret (r, src') \<or> stream_CloseRead src = Ret (e, src'))"
    and "dst' = dst \<or> (\<exists>b r e. stream_Write b dst = Ret (r, dst') \<or> stream_CloseWrite dst = Ret (e, dst'))"
    using assms by (cases rule: copier_step_cases; blast)+
  then show "close_ready src \<Longrightarrow> close_ready src'" "close_ready dst \<Longrightarrow> close_ready dst'"
    "stream_closed src \<Longrightarrow> stream_closed src'" "stream_closed dst \<Longrightarrow> stream_closed dst'"
    by (blast intro: close_ready_stays stream_closed_stays)+
qed

text \<open>
  Until it is its turn each stream can be closed without a panic; after its turn it is closed.
\<close>

definition closing_inv :: "err + stream \<Rightarrow> handler \<Rightarrow> bool" where
  "closing_inv opened h \<longleftrightarrow>
     h_open h = opened \<and>
     (h_up h = None \<longleftrightarrow> h_main h = MOpen \<or> (\<exists>e. opened = Inl e)) \<and>
     (h_main h \<in> {MCopy, MCloseUp} \<longrightarrow> h_up h \<noteq> None) \<and>
     (if h_main h = MDone then stream_closed (h_down h) else close_ready (h_down h)) \<and>
     (\<forall>up. h_up h = Some up \<longrightarrow>
        (if h_main h \<in> {MCloseDown, MDone} then stream_closed up else close_ready up))"

definition fresh_streams :: "stream \<Rightarrow> err + stream \<Rightarrow> bool" where
  "fresh_streams down opened \<longleftrightarrow>
     close_ready down \<and> (case opened of Inl _ \<Rightarrow> True | Inr up \<Rightarrow> close_ready up)"

lemma closing_inv_start: "fresh_streams down opened \<Longrightarrow> closing_inv opened (handler_start down opened)"
  by (simp add: closing_inv_def handler_start_def fresh_streams_def)

lemma main_step_closing:
  assumes "main_step h = Ret h'" and "closing_inv opened h" and "fresh_streams down opened"
  shows "closing_inv opened h'"
  using assms(1)
proof (cases rule: main_step_cases)
  case (copying up c up' down')
  with assms(2) copier_step_calls [OF copying(3)] show ?thesis by (simp add: closing_inv_def)
next
  case (close_up up e up')
  with assms(2) stream_Close_closed show ?thesis by (auto simp: closing_inv_def)
next
  case (close_down e down')
  with assms(2) stream_Close_closed show ?thesis by (auto simp: closing_inv_def)
qed (use assms(2,3) in \<open>cases opened; auto simp: closing_inv_def fresh_streams_def\<close>)+

lemma spawned_step_closing:
  assumes "spawned_step h = Ret h'" and "closing_inv opened h"
  shows "closing_inv opened h'"
  using assms(1)
proof (cases rule: spawned_step_cases)
  case (1 up c down' up')
  with assms(2) copier_step_calls [OF 1(2)] show ?thesis
    by (auto simp: closing_inv_def split: if_splits)
qed

lemma reaches_closing:
  assumes "reaches (handler_start down opened) h" and "fresh_streams down opened"
  shows "closing_inv opened h"
  using assms(1)
proof (induction rule: reaches.induct)
  case (reaches_step h g h')
  with assms(2) show ?case by (cases g) (auto intro: main_step_closing spawned_step_closing)
qed (use assms(2) in \<open>rule closing_inv_start\<close>)

lemma copier_step_no_panic: "copier_step c src dst \<noteq> Panic m"
  by (simp add: copier_step_def then_do_panic_iff stream_calls_no_panic split: copy_pc.splits prod.splits)

lemma hstep_no_panic:
  assumes "closing_inv opened h"
  shows "hstep g h \<noteq> Panic m"
proof (cases g)
  case MainG
  have close: "stream_Close s \<noteq> Panic m" if "close_ready s" for s
    using that stream_Close_panic_iff by blast
  show ?thesis
    using assms MainG
    by (auto simp: main_step_def then_do_panic_iff copier_step_no_panic closing_inv_def close
        split: main_pc.splits option.splits sum.splits if_splits)
next
  case SpawnedG
  then show ?thesis
    by (simp add: spawned_step_def then_do_panic_iff copier_step_no_panic split: option.splits prod.splits)
qed

subsection \<open>The step form is copyStream\<close>

inductive copier_steps ::
    "copier \<Rightarrow> stream \<Rightarrow> stream \<Rightarrow> copier \<Rightarrow> stream \<Rightarrow> stream \<Rightarrow> bool" where
  copier_refl: "copier_steps c s d c s d"
| copier_more: "copier_step c s d = Ret (c1, s1, d1) \<Longrightarrow> copier_steps c1 s1 d1 c2 s2 d2 \<Longrightarrow>
    copier_steps c s d c2 s2 d2"

lemma copier_steps_trans:
  "copier_steps c s d c1 s1 d1 \<Longrightarrow> copier_steps c1 s1 d1 c2 s2 d2 \<Longrightarrow> copier_steps c s d c2 s2 d2"
  by (induction rule: copier_steps.induct) (auto intro: copier_more)

lemma copier_steps_one: "copier_step c s d = Ret (c1, s1, d1) \<Longrightarrow> copier_steps c s d c1 s1 d1"
  by (rule copier_more) (auto intro: copier_refl)

definition at_read :: "int \<Rightarrow> copier" where
  "at_read w = \<lparr>ck_pc = AtRead, ck_written = w, ck_err = None\<rparr>"

definition left_loop :: "int \<Rightarrow> err option \<Rightarrow> copier" where
  "left_loop w e = \<lparr>ck_pc = AtCloseRead, ck_written = w, ck_err = e\<rparr>"

lemma after_round_at_read:
  "after_round er (at_read w) =
     (case er of None \<Rightarrow> at_read w | Some e \<Rightarrow> left_loop w (if e = EOF then None else Some e))"
  by (simp add: after_round_def at_read_def left_loop_def split: option.splits)

lemma after_round_written_upd:
  "after_round er (c\<lparr>ck_written := n\<rparr>) = (after_round er c)\<lparr>ck_written := n\<rparr>"
  by (simp add: after_round_def split: option.splits)

text \<open>One round of io.Copy's loop is a read step and, when bytes came, a write step.\<close>

lemma copy_once_steps:
  "(copy_once stream_Read stream_Write w s d = CopyMore w' s' d' \<longrightarrow>
      copier_steps (at_read w) s d (at_read w') s' d') \<and>
   (copy_once stream_Read stream_Write w s d = CopyStop (Ret ((n, e), s', d')) \<longrightarrow>
      copier_steps (at_read w) s d (left_loop n e) s' d')"
proof (cases "stream_Read copy_buf_size s")
  case (Ret x)
  obtain bs er s1 where x: "x = ((bs, er), s1)" by (metis prod.exhaust)
  have read: "copier_step (at_read w) s d =
      Ret (if bs = [] then after_round er (at_read w) else (at_read w)\<lparr>ck_pc := AtWrite bs er\<rparr>, s1, d)"
    using Ret x by (simp add: copier_step_def at_read_def)
  show ?thesis
  proof (cases "bs = []")
    case True
    with read have "copier_steps (at_read w) s d (after_round er (at_read w)) s1 d"
      by (simp add: copier_steps_one)
    with True Ret x show ?thesis
      by (auto simp: copy_once_def copy_end_def after_round_at_read split: option.splits)
  next
    case False
    let ?c = "(at_read w)\<lparr>ck_pc := AtWrite bs er\<rparr>"
    show ?thesis
    proof (cases "stream_Write bs d")
      case w: (Ret y)
      obtain nw ew d1 where y: "y = ((nw, ew), d1)" by (metis prod.exhaust)
      have "copier_step ?c s1 d = Ret (after_write bs er (nw, ew) ?c, s1, d1)"
        using w y by (simp add: copier_step_def)
      with read False have steps: "copier_steps (at_read w) s d (after_write bs er (nw, ew) ?c) s1 d1"
        by (simp, meson copier_steps_one copier_steps_trans)
      obtain k ke where acc: "copy_account (int (length bs)) nw ew = (k, ke)" by (metis prod.exhaust)
      have "after_write bs er (nw, ew) ?c =
          (case ke of None \<Rightarrow> after_round er (at_read (w + k)) | Some e' \<Rightarrow> left_loop (w + k) (Some e'))"
        using acc by (simp add: after_write_def after_round_def at_read_def left_loop_def split: option.splits)
      with steps False Ret x w y acc show ?thesis
        by (auto simp: copy_once_def copy_end_def after_round_at_read split: option.splits)
    qed (use False Ret x in \<open>auto simp: copy_once_def\<close>)
  qed
qed (auto simp: copy_once_def)

lemma copy_loop_steps:
  "copy_loop stream_Read stream_Write w s d = Some (Ret ((n, e), s', d')) \<Longrightarrow>
   copier_steps (at_read w) s d (left_loop n e) s' d'"
proof (induction "stream_gas s" arbitrary: w s d rule: less_induct)
  case less
  show ?case
  proof (cases "copy_once stream_Read stream_Write w s d")
    case (CopyMore w1 s1 d1)
    have "copy_loop stream_Read stream_Write w1 s1 d1 = Some (Ret ((n, e), s', d'))"
      using less.prems CopyMore by (subst (asm) copy_loop.simps) simp
    moreover have "stream_gas s1 < stream_gas s" using netx_copy.copy_once_more [OF TrueI CopyMore] by blast
    ultimately show ?thesis using less.hyps copy_once_steps CopyMore copier_steps_trans by blast
  next
    case (CopyStop r)
    with less.prems have "r = Ret ((n, e), s', d')" by (subst (asm) copy_loop.simps) simp
    with copy_once_steps CopyStop show ?thesis by blast
  qed
qed

subsection \<open>Properties of handleStream\<close>

text \<open>
  C16. The step form in which the copies of handleStream interleave is copyStream: run alone, its
  steps lead from the start to the end that copyStream returns, with the same streams, count and
  error.
\<close>

theorem copyStream_is_its_steps:
  assumes "copyStream src dst srcName dstName = Some (Ret r)"
  shows "copier_steps copier_start src dst
    \<lparr>ck_pc = AtEnd, ck_written = written r, ck_err = copyErr r\<rparr> (cr_src r) (cr_dst r)"
proof -
  from assms obtain src1 dst1 e1 e2 where
      loop: "copy_loop stream_Read stream_Write 0 src dst = Some (Ret ((written r, copyErr r), src1, dst1))"
    and cr: "stream_CloseRead src1 = Ret (e1, cr_src r)"
    and cw: "stream_CloseWrite dst1 = Ret (e2, cr_dst r)"
    by (rule copyStream_Ret)
  let ?c = "left_loop (written r) (copyErr r)"
  have "copier_step ?c src1 dst1 = Ret (?c\<lparr>ck_pc := AtCloseWrite\<rparr>, cr_src r, dst1)"
    using cr by (simp add: copier_step_def left_loop_def)
  moreover have "copier_step (?c\<lparr>ck_pc := AtCloseWrite\<rparr>) (cr_src r) dst1 = Ret (?c\<lparr>ck_pc := AtEnd\<rparr>, cr_src r, cr_dst r)"
    using cw by (simp add: copier_step_def left_loop_def)
  moreover note copy_loop_steps [OF loop]
  ultimately have "copier_steps (at_read 0) src dst (?c\<lparr>ck_pc := AtEnd\<rparr>) (cr_src r) (cr_dst r)"
    by (meson copier_steps_one copier_steps_trans)
  then show ?thesis by (simp add: at_read_def left_loop_def copier_start_def)
qed

theorem copyStream_is_its_steps_witness:
  "\<exists>r. copyStream sample_src sample_dst ''downstream'' ''upstream'' = Some (Ret r) \<and>
     copier_steps copier_start sample_src sample_dst
       \<lparr>ck_pc = AtEnd, ck_written = 2, ck_err = None\<rparr> (cr_src r) (cr_dst r)"
proof -
  obtain r where r: "copyStream sample_src sample_dst ''downstream'' ''upstream'' = Some (Ret r)"
      "copyErr r = None" "written r = 2"
    using sample_copy by blast
  from copyStream_is_its_steps [OF r(1)] r show ?thesis by auto
qed

text \<open>
  C5. Whatever the schedule of the two goroutines, the stream implementations and the errors met,
  at every moment of handleStream each side has been given a prefix of what the other side sent:
  no byte is invented, lost in the middle, repeated or reordered.
\<close>

theorem handleStream_moves_prefixes:
  assumes "reaches (handler_start down (Inr up0)) h" and "h_up h = Some up"
  shows "(\<exists>t. stream_sunk up = stream_sunk up0 @ t \<and> prefix t (stream_avail down)) \<and>
    (\<exists>t. stream_sunk (h_down h) = stream_sunk down @ t \<and> prefix t (stream_avail up0))"
  using reaches_moves [OF assms] by (auto simp: moves_def dir_ok_def dest: append_prefixD)

text \<open>
  C7. The direction handleStream waits for is complete: once the upstream-to-downstream copy has
  ended without an error, everything the upstream sent has been given to the downstream, whatever
  the other goroutine does meanwhile, and the count is its length.
\<close>

theorem handleStream_upstream_complete:
  assumes "reaches (handler_start down (Inr up0)) h" and "h_up h = Some up"
    and "ck_pc (h_ud h) = AtEnd" and "ck_err (h_ud h) = None"
  shows "stream_sunk (h_down h) = stream_sunk down @ stream_avail up0 \<and>
    ck_written (h_ud h) = int (length (stream_avail up0))"
  using reaches_moves [OF assms(1,2)] assms(3,4)
  by (auto simp: moves_def dir_exact_def copier_failed_def copier_rest_eqs(5))

text \<open>
  C14. When handleStream has returned, both streams have been closed, on the error path only the
  downstream, which is then the only one there is.
\<close>

theorem handleStream_closes:
  assumes "reaches (handler_start down opened) h" and "fresh_streams down opened" and "h_main h = MDone"
  shows "stream_closed (h_down h) \<and>
    (case opened of Inl _ \<Rightarrow> h_up h = None | Inr _ \<Rightarrow> \<exists>up. h_up h = Some up \<and> stream_closed up)"
  using reaches_closing [OF assms(1,2)] assms(3)
  by (auto simp: closing_inv_def split: sum.splits)

text \<open>
  C13. handleStream never panics, under any schedule: the deferred calls close each stream once, and
  the goroutine that outlives it only makes calls that cannot panic.
\<close>

theorem handleStream_never_panics:
  assumes "reaches (handler_start down opened) h" and "fresh_streams down opened"
  shows "hstep g h \<noteq> Panic m"
  by (rule hstep_no_panic [OF reaches_closing [OF assms]])

text \<open>
  A run for the witnesses: the client sends one byte, the server answers with one byte and ends.
  Each step of the schedule is evaluated by the simplifier.
\<close>

lemma hrun_ex_step:
  "hstep g h = Ret h1 \<Longrightarrow> \<exists>h'. hrun gs h1 = Ret h' \<and> P h' \<Longrightarrow> \<exists>h'. hrun (g # gs) h = Ret h' \<and> P h'"
  by simp

lemma hrun_ex_end: "P h \<Longrightarrow> \<exists>h'. hrun [] h = Ret h' \<and> P h'"
  by simp

definition run_down :: stream where
  "run_down = StdS \<lparr>ReadWriteCloser = new_conn TCPConn [Inr [1], Inl EOF] [None]\<rparr>"

definition run_up :: stream where
  "run_up = StdS \<lparr>ReadWriteCloser = new_conn TCPConn [Inr [7], Inl EOF] [None]\<rparr>"

lemmas run_eval = handler_start_def copier_start_def main_step_def spawned_step_def copier_step_def
  after_round_def after_write_def copy_account_def lift_def std_Read_def std_Write_def
  std_Close_def std_CloseRead_def std_CloseWrite_def conn_Read_def conn_Write_def conn_Close_def
  conn_CloseRead_def conn_CloseWrite_def new_conn_def copy_buf_size_def run_down_def run_up_def

lemma run_fresh: "fresh_streams run_down (Inr run_up)"
  by (simp add: fresh_streams_def run_down_def run_up_def)

lemma run_streams: "stream_avail run_down = [1]" "stream_avail run_up = [7]"
    "stream_sunk run_down = []" "stream_sunk run_up = []"
  by (simp_all add: run_down_def run_up_def new_conn_def std_sunk_def std_avail_def)

lemma run_copied:
  "\<exists>h. hrun [MainG, MainG, MainG, MainG, MainG, MainG] (handler_start run_down (Inr run_up)) = Ret h \<and>
     (\<exists>up. h_up h = Some up) \<and> ck_pc (h_ud h) = AtEnd \<and> ck_err (h_ud h) = None"
  by (rule hrun_ex_step, (simp add: run_eval; fail))+ (rule hrun_ex_end, simp)

text \<open>handleStream runs to its end while the goroutine gets no further than its first read.\<close>

lemma run_truncated:
  "\<exists>h. hrun [MainG, SpawnedG, MainG, MainG, MainG, MainG, MainG, MainG, MainG, MainG]
       (handler_start run_down (Inr run_up)) = Ret h \<and>
     h_main h = MDone \<and> ck_err (h_ud h) = None \<and> ck_pc (h_du h) = AtWrite [1] None \<and>
     (\<exists>up. h_up h = Some up \<and> \<not> is_MdS up \<and> stream_sunk up = [] \<and> stream_closed up)"
  by (rule hrun_ex_step, (simp add: run_eval; fail))+ (rule hrun_ex_end, simp add: std_sunk_def)

lemma reaches_copied:
  obtains h up where "reaches (handler_start run_down (Inr run_up)) h" "h_up h = Some up"
    "ck_pc (h_ud h) = AtEnd" "ck_err (h_ud h) = None"
  using run_copied hrun_reaches_start by blast

lemma reaches_truncated:
  obtains h up where "reaches (handler_start run_down (Inr run_up)) h" "h_main h = MDone"
    "ck_err (h_ud h) = None" "h_up h = Some up" "\<not> is_MdS up" "stream_sunk up = []" "stream_closed up"
  using run_truncated hrun_reaches_start by blast

theorem handleStream_moves_prefixes_witness:
  "\<exists>h up t. reaches (handler_start run_down (Inr run_up)) h \<and> h_up h = Some up \<and>
     stream_sunk up = stream_sunk run_up @ t \<and> prefix t [1]"
proof -
  obtain h up where r: "reaches (handler_start run_down (Inr run_up)) h" "h_up h = Some up"
    by (rule reaches_copied)
  from handleStream_moves_prefixes [OF r] r run_streams(1) show ?thesis by auto
qed

theorem handleStream_upstream_complete_witness:
  "\<exists>h. reaches (handler_start run_down (Inr run_up)) h \<and> stream_sunk (h_down h) = [7] \<and>
     ck_written (h_ud h) = 1"
proof -
  obtain h up where r: "reaches (handler_start run_down (Inr run_up)) h" "h_up h = Some up"
      "ck_pc (h_ud h) = AtEnd" "ck_err (h_ud h) = None"
    by (rule reaches_copied)
  from handleStream_upstream_complete [OF r] r(1) run_streams show ?thesis by auto
qed

theorem handleStream_closes_witness:
  "\<exists>h up. reaches (handler_start run_down (Inr run_up)) h \<and> h_up h = Some up \<and>
     stream_closed up \<and> stream_closed (h_down h)"
proof -
  obtain h up where r: "reaches (handler_start run_down (Inr run_up)) h" "h_main h = MDone"
    by (rule reaches_truncated)
  from handleStream_closes [OF r(1) run_fresh r(2)] r(1) show ?thesis by auto
qed

theorem handleStream_never_panics_witness:
  "\<exists>h. reaches (handler_start run_down (Inr run_up)) h \<and> h_main h = MDone \<and>
     hstep SpawnedG h \<noteq> Panic ''close of closed channel''"
proof -
  obtain h up where r: "reaches (handler_start run_down (Inr run_up)) h" "h_main h = MDone"
    by (rule reaches_truncated)
  from handleStream_never_panics [OF r(1) run_fresh] r show ?thesis by blast
qed

end
