(* ===== verification/Leftover.thy ===== *)
theory Leftover
  imports Handler
begin

text \<open>
  What is left of handleStream once it has returned: the goroutine that copies downstream to
  upstream is not waited for, and both streams have been closed under it.
\<close>

subsection \<open>Streams closed for writing\<close>

text \<open>Close shuts the write side of every stream but mdcapnp's.\<close>

fun write_closed :: "stream \<Rightarrow> bool" where
  "write_closed (StdS s) = (0 < c_closes (ReadWriteCloser s))"
| "write_closed (GrpcS s) = g_writeClosed s"
| "write_closed (CapnpS s) = cs_closed s"
| "write_closed (MdS s) = False"

lemma Close_write_closed: "stream_Close s = Ret (e, s') \<Longrightarrow> is_MdS s' \<or> write_closed s'"
  by (cases s) (auto simp: lift_Ret_iff std_Close_def conn_Close_def
      dest: grpc_Close_Ret(2) capnp_Close_Ret(5))

lemma write_closed_sunk:
  assumes "write_closed s" and "stream_Write bs s = Ret (r, s')"
  shows "stream_sunk s' = stream_sunk s" and "write_closed s'"
  using assms
  by (cases s; auto simp: lift_Ret_iff std_Write_def conn_Write_def then_do_Ret_iff grpc_Write_def
      capnp_Write_def std_sunk_def split: if_splits)+

lemma write_closed_stays:
  assumes "write_closed s"
  shows "stream_Read n s = Ret (r, s') \<Longrightarrow> write_closed s'"
    and "stream_CloseRead s = Ret (e, s') \<Longrightarrow> write_closed s'"
    and "stream_CloseWrite s = Ret (e, s') \<Longrightarrow> write_closed s'"
proof -
  show "write_closed s'" if rd: "stream_Read n s = Ret (r, s')"
  proof (cases s)
    case (GrpcS g)
    with rd assms show ?thesis
      by (cases r) (auto simp: lift_Ret_iff elim!: grpc_Read_cases)
  qed (use rd assms in \<open>auto simp: lift_Ret_iff std_Read_def conn_Read_def then_do_Ret_iff capnp_Read_def
      split: if_splits list.splits sum.splits prod.splits\<close>)
  show "write_closed s'" if "stream_CloseRead s = Ret (e, s')"
    using that assms
    by (cases s) (auto simp: lift_Ret_iff std_CloseRead_def conn_CloseRead_def then_do_Ret_iff
        grpc_CloseRead_Ret dest: capnp_CloseRead_Ret split: if_splits)
  show "write_closed s'" if "stream_CloseWrite s = Ret (e, s')"
    using that assms
    by (cases s) (auto simp: lift_Ret_iff std_CloseWrite_def conn_CloseWrite_def then_do_Ret_iff
        dest: grpc_CloseWrite_Ret capnp_CloseWrite_Ret split: if_splits)
qed

lemma is_MdS_stays:
  "stream_Read n s = Ret (r, s') \<Longrightarrow> is_MdS s' = is_MdS s"
  "stream_Write b s = Ret (q, s') \<Longrightarrow> is_MdS s' = is_MdS s"
  "stream_CloseRead s = Ret (e, s') \<Longrightarrow> is_MdS s' = is_MdS s"
  "stream_CloseWrite s = Ret (e, s') \<Longrightarrow> is_MdS s' = is_MdS s"
  "stream_Close s = Ret (e, s') \<Longrightarrow> is_MdS s' = is_MdS s"
  by (cases s; auto simp: lift_Ret_iff)+

text \<open>A copy towards a stream closed for writing changes nothing that its peer sees.\<close>

lemma copier_step_write_closed:
  assumes "copier_step c src dst = Ret (c', src', dst')"
  shows "write_closed dst \<Longrightarrow> stream_sunk dst' = stream_sunk dst \<and> write_closed dst'"
    and "is_MdS dst' = is_MdS dst" and "is_MdS src' = is_MdS src"
proof -
  have "(write_closed dst \<longrightarrow> stream_sunk dst' = stream_sunk dst \<and> write_closed dst') \<and>
      is_MdS dst' = is_MdS dst \<and> is_MdS src' = is_MdS src"
    using assms
  proof (cases rule: copier_step_cases)
    case (reading bs er)
    then show ?thesis using is_MdS_stays(1) by auto
  next
    case (writing bs er r)
    then show ?thesis using write_closed_sunk is_MdS_stays(2) by blast
  next
    case (closing_read e)
    then show ?thesis using is_MdS_stays(3) by auto
  next
    case (closing_write e)
    then show ?thesis using write_closed_stays(3) is_MdS_stays(4) netx.close_sunk(2) by blast
  qed
  then show "write_closed dst \<Longrightarrow> stream_sunk dst' = stream_sunk dst \<and> write_closed dst'"
    and "is_MdS dst' = is_MdS dst" and "is_MdS src' = is_MdS src" by simp_all
qed

subsection \<open>After up.Close\<close>

definition up_sealed :: "handler \<Rightarrow> bool" where
  "up_sealed h \<longleftrightarrow>
     (h_main h \<in> {MCloseDown, MDone} \<longrightarrow> (\<forall>up. h_up h = Some up \<longrightarrow> is_MdS up \<or> write_closed up)) \<and>
     (h_main h = MOpen \<longrightarrow> h_up h = None)"

lemma up_sealed_start: "up_sealed (handler_start down opened)"
  by (simp add: up_sealed_def handler_start_def)

lemma main_step_sealed:
  assumes "main_step h = Ret h'" and "up_sealed h"
  shows "up_sealed h'"
  using assms(1)
proof (cases rule: main_step_cases)
  case (close_up up e up')
  with Close_write_closed show ?thesis by (auto simp: up_sealed_def)
qed (use assms(2) in \<open>auto simp: up_sealed_def\<close>)

lemma spawned_step_sealed:
  assumes "spawned_step h = Ret h'" and "up_sealed h"
  shows "up_sealed h'"
  using assms(1)
proof (cases rule: spawned_step_cases)
  case (1 up c down' up')
  with assms(2) copier_step_write_closed [OF 1(2)] show ?thesis by (auto simp: up_sealed_def)
qed

lemma reaches_sealed: "reaches (handler_start down opened) h \<Longrightarrow> up_sealed h"
proof (induction rule: reaches.induct)
  case (reaches_step h g h')
  then show ?case by (cases g) (auto intro: main_step_sealed spawned_step_sealed)
qed (rule up_sealed_start)

lemma after_done:
  assumes "reaches h h'" and "h_main h = MDone" and "h_up h = Some up" and "write_closed up"
  shows "h_main h' = MDone \<and> (\<exists>up'. h_up h' = Some up' \<and> write_closed up' \<and>
    stream_sunk up' = stream_sunk up)"
  using assms(1)
proof (induction rule: reaches.induct)
  case (reaches_step h1 g h2)
  show ?case
  proof (cases g)
    case MainG
    with reaches_step show ?thesis by (simp add: main_step_def)
  next
    case SpawnedG
    with reaches_step.hyps(2) have "spawned_step h1 = Ret h2" by simp
    then show ?thesis
    proof (cases rule: spawned_step_cases)
      case (1 up1 c down' up')
      with reaches_step.IH copier_step_write_closed(1) [OF 1(2)] show ?thesis by simp
    qed
  qed
qed (use assms in simp)

subsection \<open>When the upstream cannot be opened\<close>

lemma reaches_open_fails:
  "reaches (handler_start down (Inl e)) h \<Longrightarrow>
   h_open h = Inl e \<and> h_up h = None \<and> h_main h \<in> {MOpen, MCloseDown, MDone} \<and>
   stream_sunk (h_down h) = stream_sunk down \<and> (h_main h \<noteq> MDone \<longrightarrow> h_down h = down)"
proof (induction rule: reaches.induct)
  case (reaches_step h g h')
  show ?case
  proof (cases g)
    case MainG
    with reaches_step.hyps(2) have "main_step h = Ret h'" by simp
    then show ?thesis
    proof (cases rule: main_step_cases)
      case (close_down e down')
      with reaches_step.IH netx.close_sunk(3) show ?thesis by auto
    qed (use reaches_step.IH in auto)
  next
    case SpawnedG
    with reaches_step show ?thesis by (simp add: spawned_step_def)
  qed
qed (simp add: handler_start_def)

subsection \<open>Properties\<close>

text \<open>
  Nothing reaches an upstream after handleStream has returned: the goroutine still running is
  cut off, because its stream was closed under it. An mdcapnp upstream is the exception.
\<close>

theorem handleStream_strands_goroutine:
  assumes "reaches (handler_start down opened) h" and "h_main h = MDone" and "h_up h = Some up"
    and "\<not> is_MdS up" and "reaches h h'"
  shows "\<exists>up'. h_up h' = Some up' \<and> stream_sunk up' = stream_sunk up"
  using reaches_sealed [OF assms(1)] after_done [OF assms(5,2,3)] assms(2,3,4)
  by (auto simp: up_sealed_def)

text \<open>
  When client.OpenStream fails, nothing is written to the downstream, no upstream appears and no
  copy ever runs, under any schedule.
\<close>

theorem handleStream_open_fails:
  assumes "reaches (handler_start down (Inl e)) h"
  shows "h_up h = None \<and> stream_sunk (h_down h) = stream_sunk down \<and> hstep SpawnedG h = Blocked"
  using reaches_open_fails [OF assms] by (simp add: spawned_step_def)

text \<open>
  C27. The direction handleStream does not wait for can lose bytes without any error: there is a
  schedule in which handleStream returns, its own copy having ended well, while a byte the client
  has sent is undelivered, and no later step delivers it.
\<close>

theorem handleStream_truncates:
  "\<exists>h. reaches (handler_start run_down (Inr run_up)) h \<and> h_main h = MDone \<and>
     ck_err (h_ud h) = None \<and> stream_avail run_down = [1] \<and>
     (\<forall>h'. reaches h h' \<longrightarrow> (\<exists>up'. h_up h' = Some up' \<and> stream_sunk up' = []))"
proof -
  obtain h up where r: "reaches (handler_start run_down (Inr run_up)) h" "h_main h = MDone"
      "ck_err (h_ud h) = None" "h_up h = Some up" "\<not> is_MdS up" "stream_sunk up = []"
    by (rule reaches_truncated)
  have "write_closed up" using reaches_sealed [OF r(1)] r(2,4,5) by (auto simp: up_sealed_def)
  with after_done r have "\<forall>h'. reaches h h' \<longrightarrow> (\<exists>up'. h_up h' = Some up' \<and> stream_sunk up' = [])"
    by metis
  with r(1-3) run_streams(1) show ?thesis by blast
qed

theorem handleStream_truncates_witness:
  "\<exists>h up. reaches (handler_start run_down (Inr run_up)) h \<and> h_main h = MDone \<and>
     h_up h = Some up \<and> stream_sunk up \<noteq> stream_avail run_down"
proof -
  obtain h where r: "reaches (handler_start run_down (Inr run_up)) h" "h_main h = MDone"
      "stream_avail run_down = [1]"
      "\<forall>h'. reaches h h' \<longrightarrow> (\<exists>up'. h_up h' = Some up' \<and> stream_sunk up' = [])"
    using handleStream_truncates by blast
  from r(4) reaches_start obtain up where "h_up h = Some up" "stream_sunk up = []" by blast
  with r(1-3) show ?thesis by auto
qed

theorem handleStream_strands_goroutine_witness:
  "\<exists>h h' up'. reaches (handler_start run_down (Inr run_up)) h \<and> h_main h = MDone \<and>
     reaches h h' \<and> h_up h' = Some up' \<and> stream_sunk up' = []"
proof -
  obtain h up where r: "reaches (handler_start run_down (Inr run_up)) h" "h_main h = MDone"
      "h_up h = Some up" "\<not> is_MdS up" "stream_sunk up = []"
    by (rule reaches_truncated)
  from handleStream_strands_goroutine [OF r(1-4) reaches_start] r reaches_start show ?thesis by auto
qed

text \<open>The upstream cannot be opened: two steps lead to the end.\<close>

lemma run_open_fails:
  "\<exists>h. hrun [MainG, MainG] (handler_start run_down (Inl (ErrExt 111))) = Ret h \<and> h_main h = MDone"
  by (rule hrun_ex_step, (simp add: run_eval; fail))+ (rule hrun_ex_end, simp)

theorem handleStream_open_fails_witness:
  "\<exists>h. reaches (handler_start run_down (Inl (ErrExt 111))) h \<and> h_main h = MDone \<and> h_up h = None \<and>
     stream_sunk (h_down h) = []"
proof -
  obtain h where r: "reaches (handler_start run_down (Inl (ErrExt 111))) h" "h_main h = MDone"
    using run_open_fails hrun_reaches_start by blast
  from handleStream_open_fails [OF r(1)] r run_streams(3) show ?thesis by auto
qed

end
