(* ===== verification/Address.thy ===== *)
theory Address
  imports GoPrelude
begin

text \<open>
  splitAddress of main.go, which reads the scheme, the TLS flag and the address out of an argument
  such as \<^verbatim>\<open>tcp+tls://127.0.0.1:1443\<close>, over the strings.SplitN(s, sep, 2) of the standard library.
\<close>

subsection \<open>strings.SplitN with a limit of two\<close>

text \<open>Cuts at the first occurrence of a non-empty separator.\<close>

fun cut_at :: "string \<Rightarrow> string \<Rightarrow> string \<Rightarrow> (string \<times> string) option" where
  "cut_at sep pre [] = None"
| "cut_at sep pre (c # cs) =
     (if take (length sep) (c # cs) = sep then Some (rev pre, drop (length sep) (c # cs))
      else cut_at sep (c # pre) cs)"

definition SplitN2 :: "string \<Rightarrow> string \<Rightarrow> string list" where
  "SplitN2 s sep = (case cut_at sep [] s of None \<Rightarrow> [s] | Some (a, b) \<Rightarrow> [a, b])"

definition occurs_in :: "string \<Rightarrow> string \<Rightarrow> bool" where
  "occurs_in sep s \<longleftrightarrow> (\<exists>a b. s = a @ sep @ b)"

text \<open>The cut is at the first place where the separator starts.\<close>

definition first_cut :: "string \<Rightarrow> string \<Rightarrow> string \<Rightarrow> string \<Rightarrow> bool" where
  "first_cut sep s a b \<longleftrightarrow>
     s = a @ sep @ b \<and> (\<forall>a' b'. s = a' @ sep @ b' \<longrightarrow> length a \<le> length a')"

lemma take_length_eq_iff: "take (length sep) s = sep \<longleftrightarrow> (\<exists>b. s = sep @ b)"
  by (metis append_eq_conv_conj)

lemma cut_at_Some:
  "sep \<noteq> [] \<Longrightarrow> cut_at sep pre s = Some (a, b) \<Longrightarrow>
   \<exists>a'. a = rev pre @ a' \<and> first_cut sep s a' b"
proof (induction sep pre s rule: cut_at.induct)
  case (2 sep pre c cs)
  show ?case
  proof (cases "take (length sep) (c # cs) = sep")
    case True
    with "2.prems" have "a = rev pre" "b = drop (length sep) (c # cs)" by auto
    moreover from True have "c # cs = sep @ drop (length sep) (c # cs)"
      by (metis append_take_drop_id)
    ultimately show ?thesis by (auto simp: first_cut_def intro!: exI [of _ "[]"])
  next
    case False
    with "2.prems" "2.IH" obtain a' where a': "a = rev (c # pre) @ a'" "first_cut sep cs a' b"
      by auto
    have "length (c # a') \<le> length x" if x: "c # cs = x @ sep @ y" for x y
    proof (cases x)
      case Nil
      with x False show ?thesis by (metis append_Nil take_length_eq_iff)
    next
      case (Cons z zs)
      with x a'(2) show ?thesis by (auto simp: first_cut_def)
    qed
    with a' show ?thesis by (auto simp: first_cut_def intro!: exI [of _ "c # a'"])
  qed
qed simp

lemma cut_at_None: "sep \<noteq> [] \<Longrightarrow> cut_at sep pre s = None \<Longrightarrow> \<not> occurs_in sep s"
proof (induction sep pre s rule: cut_at.induct)
  case (2 sep pre c cs)
  then have no: "take (length sep) (c # cs) \<noteq> sep" and rest: "\<not> occurs_in sep cs"
    by (auto split: if_splits)
  have False if "c # cs = x @ sep @ y" for x y
  proof (cases x)
    case Nil
    with that no show ?thesis by (metis append_Nil take_length_eq_iff)
  next
    case (Cons z zs)
    with that rest show ?thesis by (auto simp: occurs_in_def)
  qed
  then show ?case by (auto simp: occurs_in_def)
qed (simp add: occurs_in_def)

lemma first_cut_unique: "first_cut sep s a b \<Longrightarrow> first_cut sep s a' b' \<Longrightarrow> a = a' \<and> b = b'"
proof -
  assume "first_cut sep s a b" and "first_cut sep s a' b'"
  then have "length a = length a'" and "a @ sep @ b = a' @ sep @ b'"
    by (auto simp: first_cut_def intro: le_antisym)
  then show ?thesis by simp
qed

lemma first_cut_occurs: "first_cut sep s a b \<Longrightarrow> occurs_in sep s"
  by (auto simp: first_cut_def occurs_in_def)

lemma SplitN2_cases:
  assumes "sep \<noteq> []"
  obtains (whole) "\<not> occurs_in sep s" "SplitN2 s sep = [s]"
    | (cut) a b where "first_cut sep s a b" "SplitN2 s sep = [a, b]"
proof (cases "cut_at sep [] s")
  case None
  with cut_at_None [OF assms None] whole show thesis by (simp add: SplitN2_def)
next
  case (Some ab)
  obtain a b where "ab = (a, b)" by (cases ab)
  with cut_at_Some [OF assms, of "[]" s a b] Some cut show thesis by (simp add: SplitN2_def)
qed

lemma SplitN2_cut:
  assumes "sep \<noteq> []" and "first_cut sep s a b"
  shows "SplitN2 s sep = [a, b]"
  using assms(1)
proof (cases rule: SplitN2_cases [where s = s])
  case whole
  with assms(2) show ?thesis by (auto simp: occurs_in_def first_cut_def)
next
  case (cut a' b')
  with first_cut_unique [OF assms(2) cut(1)] show ?thesis by simp
qed

lemma SplitN2_whole: "sep \<noteq> [] \<Longrightarrow> \<not> occurs_in sep s \<Longrightarrow> SplitN2 s sep = [s]"
  by (rule SplitN2_cases [of sep s]) (auto simp: occurs_in_def first_cut_def)

subsection \<open>splitAddress\<close>

text \<open>
  The result is (network, tls, addr). Panicf formats the argument into the message; the model keeps
  the message's fixed text.
\<close>

definition split_failed :: string where
  "split_failed = ''Failed to split scheme and address: '://' not found''"

definition splitAddress :: "string \<Rightarrow> (string \<times> bool \<times> string) outcome" where
  "splitAddress s =
     (case SplitN2 s ''://'' of
        [scheme, addr] \<Rightarrow>
          (case SplitN2 scheme ''+'' of
             [network, sfx] \<Rightarrow> Ret (network, sfx = ''tls'', addr)
           | schemes \<Rightarrow> Ret (hd schemes, False, addr))
      | _ \<Rightarrow> Panic split_failed)"

text \<open>Every result, by what the argument looks like.\<close>

lemma splitAddress_cases:
  obtains (none) "\<not> occurs_in ''://'' s"
      "splitAddress s = Panic split_failed"
  | (plain) scheme addr where "first_cut ''://'' s scheme addr" "\<not> occurs_in ''+'' scheme"
      "splitAddress s = Ret (scheme, False, addr)"
  | (suffixed) scheme addr network sfx where "first_cut ''://'' s scheme addr"
      "first_cut ''+'' scheme network sfx" "splitAddress s = Ret (network, sfx = ''tls'', addr)"
proof -
  have sep: "''://'' \<noteq> []" "''+'' \<noteq> []" by simp_all
  from sep(1) show thesis
  proof (cases rule: SplitN2_cases [where s = s])
    case whole
    then have "splitAddress s = Panic split_failed" by (simp add: splitAddress_def)
    with whole(1) show thesis by (rule none)
  next
    case (cut scheme addr)
    from sep(2) show thesis
    proof (cases rule: SplitN2_cases [where s = scheme])
      case whole
      with cut have "splitAddress s = Ret (scheme, False, addr)" by (simp add: splitAddress_def)
      with cut(1) whole(1) show thesis by (rule plain)
    next
      case inner: (cut network sfx)
      with cut have "splitAddress s = Ret (network, sfx = ''tls'', addr)"
        by (simp add: splitAddress_def)
      with cut(1) inner(1) show thesis by (rule suffixed)
    qed
  qed
qed

lemma plus_not_in: "\<not> occurs_in ''+'' s \<longleftrightarrow> CHR ''+'' \<notin> set s"
  by (auto simp: occurs_in_def in_set_conv_decomp)

text \<open>A separator that starts with a character the prefix does not have is found right after it.\<close>

lemma first_cutI:
  assumes "c \<notin> set a"
  shows "first_cut (c # sep) (a @ (c # sep) @ b) a b"
proof -
  have "length a \<le> length x" if "a @ c # sep @ b = x @ c # sep @ y" for x y
  proof (rule ccontr)
    assume "\<not> length a \<le> length x"
    then have "(a @ c # sep @ b) ! length x = a ! length x" and "a ! length x \<in> set a"
      by (simp_all add: nth_append)
    moreover have "(a @ c # sep @ b) ! length x = c" unfolding that by simp
    ultimately show False using assms by simp
  qed
  then show ?thesis by (auto simp: first_cut_def)
qed

subsection \<open>Properties\<close>

text \<open>
  C40. An address written as the usage text says, scheme, optional +tls, ://, address, is read back
  as these three parts, for every scheme without a colon or a plus and every address.
\<close>

theorem splitAddress_format:
  assumes "CHR '':'' \<notin> set network" and "CHR ''+'' \<notin> set network"
  shows "splitAddress (network @ (if tls then ''+tls'' else []) @ ''://'' @ addr) = Ret (network, tls, addr)"
proof (cases tls)
  case True
  have "first_cut ''://'' ((network @ ''+tls'') @ ''://'' @ addr) (network @ ''+tls'') addr"
    by (rule first_cutI) (use assms in simp)
  moreover have "first_cut ''+'' (network @ ''+'' @ ''tls'') network ''tls''"
    by (rule first_cutI) (use assms in simp)
  ultimately show ?thesis using True by (simp add: splitAddress_def SplitN2_cut)
next
  case False
  have "first_cut ''://'' (network @ ''://'' @ addr) network addr"
    by (rule first_cutI) (use assms in simp)
  moreover have "SplitN2 network ''+'' = [network]"
    using assms by (simp add: SplitN2_whole plus_not_in)
  ultimately show ?thesis using False by (simp add: splitAddress_def SplitN2_cut)
qed

theorem splitAddress_format_witness:
  "splitAddress ''tcp+tls://127.0.0.1:2443'' = Ret (''tcp'', True, ''127.0.0.1:2443'')"
  using splitAddress_format [of "''tcp''" True "''127.0.0.1:2443''"] by simp

text \<open>
  C31. splitAddress is total up to its one panic: it panics exactly when the argument has no ://, and
  otherwise the scheme ends at the first ://, the network at the scheme's first plus, and TLS is
  on exactly when the rest of the scheme is tls.
\<close>

theorem splitAddress_spec:
  "(splitAddress s = Panic split_failed \<longleftrightarrow> \<not> occurs_in ''://'' s) \<and>
   (splitAddress s = Ret (network, tls, addr) \<longleftrightarrow>
     (\<exists>scheme. first_cut ''://'' s scheme addr \<and>
       (if occurs_in ''+'' scheme
        then \<exists>sfx. first_cut ''+'' scheme network sfx \<and> tls = (sfx = ''tls'')
        else network = scheme \<and> \<not> tls)))"
proof (cases s rule: splitAddress_cases)
  case none
  then show ?thesis by (auto simp: first_cut_def occurs_in_def)
next
  case (plain scheme addr')
  from plain(1) have "occurs_in ''://'' s" by (rule first_cut_occurs)
  with plain show ?thesis by (auto dest: first_cut_unique)
next
  case (suffixed scheme addr' network' sfx)
  from suffixed(1) have "occurs_in ''://'' s" by (rule first_cut_occurs)
  moreover from suffixed(2) have "occurs_in ''+'' scheme" by (rule first_cut_occurs)
  ultimately show ?thesis using suffixed by (auto dest: first_cut_unique)
qed

text \<open>
  A scheme with any suffix but tls, +TLS for instance, is neither refused nor read as TLS: it
  is taken as the plain scheme.
\<close>

theorem splitAddress_other_suffix_is_plaintext:
  assumes "CHR '':'' \<notin> set network" and "CHR ''+'' \<notin> set network" and "CHR '':'' \<notin> set sfx"
    and "sfx \<noteq> ''tls''"
  shows "splitAddress (network @ ''+'' @ sfx @ ''://'' @ addr) = splitAddress (network @ ''://'' @ addr)"
proof -
  have "first_cut ''://'' ((network @ ''+'' @ sfx) @ ''://'' @ addr) (network @ ''+'' @ sfx) addr"
    by (rule first_cutI) (use assms in simp)
  moreover have "first_cut ''+'' (network @ ''+'' @ sfx) network sfx"
    by (rule first_cutI) (use assms in simp)
  moreover have "first_cut ''://'' (network @ ''://'' @ addr) network addr"
    by (rule first_cutI) (use assms in simp)
  moreover have "SplitN2 network ''+'' = [network]"
    using assms by (simp add: SplitN2_whole plus_not_in)
  ultimately show ?thesis using assms(4) by (simp add: splitAddress_def SplitN2_cut)
qed

theorem splitAddress_other_suffix_witness:
  "splitAddress ''tcp+TLS://h:1'' = splitAddress ''tcp://h:1''"
  using splitAddress_other_suffix_is_plaintext [of "''tcp''" "''TLS''" "''h:1''"] by simp

end
