(* ===== verification/Config.thy ===== *)
theory Config
  imports Address StdStream
begin

text \<open>
  The parameters of the program and its TLS configuration: Args of main.go, getClientTLSConfig and
  getServerTLSConfig of std_net.go. Files, the environment, the TLS library and the network are
  outside the repository: they are the functions of the record \<open>env\<close>, which every creator
  and session takes as an argument.
\<close>

record Args =
  Listen :: string
  Connect :: string
  CertPath :: string
  KeyPath :: string
  CAPath :: string

datatype client_auth = NoClientCert | RequireAndVerifyClientCert

text \<open>
  The fields of tls.Config the code sets; a certificate pool is represented by the PEM data it was
  filled from, the key log writer by the path that was opened.
\<close>

record tls_config =
  NextProtos :: "string list"
  Certificates :: "bytes list"
  ClientAuth :: client_auth
  RootCAs :: "bytes option"
  KeyLogWriter :: "string option"

definition zero_tls_config :: tls_config where
  "zero_tls_config =
     \<lparr>NextProtos = [], Certificates = [], ClientAuth = NoClientCert, RootCAs = None, KeyLogWriter = None\<rparr>"

text \<open>A listener: the connections it will accept or the errors of Accept, in order.\<close>

record listener =
  l_accepts :: "(err + conn) list"
  l_close_res :: "err option"
  l_closes :: nat

definition listener_Accept :: "(listener, err + conn) action" where
  "listener_Accept l =
     (if 0 < l_closes l then Ret (Inl ErrNetClosed, l)
      else case l_accepts l of
        [] \<Rightarrow> Blocked
      | r # rs \<Rightarrow> Ret (r, l\<lparr>l_accepts := rs\<rparr>))"

definition listener_Close :: "(listener, err option) action" where
  "listener_Close l =
     Ret (if 0 < l_closes l then Some ErrNetClosed else l_close_res l, l\<lparr>l_closes := Suc (l_closes l)\<rparr>)"

record env =
  env_ReadFile :: "string \<Rightarrow> err + bytes"
  env_AppendCertsFromPEM :: "bytes \<Rightarrow> bool"
  env_Getenv :: "string \<Rightarrow> string"
  env_OpenFile :: "string \<Rightarrow> err option"
  env_LoadX509KeyPair :: "string \<Rightarrow> string \<Rightarrow> err + bytes"
  env_Listen :: "string \<Rightarrow> string \<Rightarrow> err + listener"
  env_tls_Listen :: "string \<Rightarrow> string \<Rightarrow> tls_config \<Rightarrow> err + listener"
  env_Dial :: "string \<Rightarrow> string \<Rightarrow> err + conn"
  env_tls_Dial :: "string \<Rightarrow> string \<Rightarrow> tls_config \<Rightarrow> err + conn"

text \<open>An environment for examples: everything succeeds, listeners and connections are idle.\<close>

definition sample_env :: env where
  "sample_env =
     (let l = \<lparr>l_accepts = [], l_close_res = None, l_closes = 0\<rparr>; c = new_conn TCPConn [] [] in
      \<lparr>env_ReadFile = (\<lambda>_. Inr []), env_AppendCertsFromPEM = (\<lambda>_. True), env_Getenv = (\<lambda>_. []),
       env_OpenFile = (\<lambda>_. None), env_LoadX509KeyPair = (\<lambda>_ _. Inr []), env_Listen = (\<lambda>_ _. Inr l),
       env_tls_Listen = (\<lambda>_ _ _. Inr l), env_Dial = (\<lambda>_ _. Inr c), env_tls_Dial = (\<lambda>_ _ _. Inr c)\<rparr>)"

subsection \<open>TLS configuration\<close>

datatype tls_log = KeyLogFailed string err | KeyLogSet string

text \<open>
  The key log, the same in both functions: an environment variable names a file; that it cannot be
  opened is only logged.
\<close>

definition set_keylog :: "env \<Rightarrow> tls_config \<Rightarrow> tls_config \<times> tls_log list" where
  "set_keylog env cfg =
     (let keylog = env_Getenv env ''SSLKEYLOGFILE''
      in if keylog = '''' then (cfg, [])
         else case env_OpenFile env keylog of
                Some e \<Rightarrow> (cfg, [KeyLogFailed keylog e])
              | None \<Rightarrow> (cfg\<lparr>KeyLogWriter := Some keylog\<rparr>, [KeyLogSet keylog]))"

definition getClientTLSConfig :: "env \<Rightarrow> Args \<Rightarrow> (err + tls_config) \<times> tls_log list" where
  "getClientTLSConfig env args =
     (let tlsConfig = zero_tls_config\<lparr>NextProtos := [''h2'']\<rparr>;
          rest = (\<lambda>cfg. case set_keylog env cfg of (cfg', ls) \<Rightarrow> (Inr cfg', ls))
      in if CAPath args = '''' then rest tlsConfig
         else case env_ReadFile env (CAPath args) of
                Inl e \<Rightarrow> (Inl e, [])
              | Inr caCert \<Rightarrow>
                  if \<not> env_AppendCertsFromPEM env caCert
                  then (Inl (Errorf (''failed to AppendCertsFromPEM: '' @ CAPath args)), [])
                  else rest (tlsConfig\<lparr>RootCAs := Some caCert\<rparr>))"

text \<open>A key pair that cannot be loaded ends the process.\<close>

definition getServerTLSConfig :: "env \<Rightarrow> Args \<Rightarrow> ((err + tls_config) \<times> tls_log list) outcome" where
  "getServerTLSConfig env args =
     (case env_LoadX509KeyPair env (CertPath args) (KeyPath args) of
        Inl e \<Rightarrow> Fatal ''Failed to load certificate''
      | Inr cert \<Rightarrow>
          (let tlsConfig = zero_tls_config\<lparr>Certificates := [cert], ClientAuth := NoClientCert, NextProtos := [''h2'']\<rparr>
           in case set_keylog env tlsConfig of (cfg, ls) \<Rightarrow> Ret (Inr cfg, ls)))"

lemma set_keylog_fields:
  "set_keylog env cfg = (cfg', ls) \<Longrightarrow>
   NextProtos cfg' = NextProtos cfg \<and> Certificates cfg' = Certificates cfg \<and>
   ClientAuth cfg' = ClientAuth cfg \<and> RootCAs cfg' = RootCAs cfg"
  by (auto simp: set_keylog_def Let_def split: if_splits option.splits)

lemma getServerTLSConfig_cases:
  obtains e where "env_LoadX509KeyPair env (CertPath args) (KeyPath args) = Inl e"
      "getServerTLSConfig env args = Fatal ''Failed to load certificate''"
  | cert cfg ls where "env_LoadX509KeyPair env (CertPath args) (KeyPath args) = Inr cert"
      "getServerTLSConfig env args = Ret (Inr cfg, ls)" "Certificates cfg = [cert]"
proof (cases "env_LoadX509KeyPair env (CertPath args) (KeyPath args)")
  case (Inl e)
  with that(1) show thesis by (simp add: getServerTLSConfig_def)
next
  case (Inr cert)
  obtain cfg ls where
      k: "set_keylog env (zero_tls_config\<lparr>Certificates := [cert], ClientAuth := NoClientCert, NextProtos := [''h2'']\<rparr>) = (cfg, ls)"
    by (cases "set_keylog env (zero_tls_config\<lparr>Certificates := [cert], ClientAuth := NoClientCert, NextProtos := [''h2'']\<rparr>)")
  with Inr set_keylog_fields [OF k] that(2) show thesis by (simp add: getServerTLSConfig_def)
qed

subsection \<open>Properties\<close>

text \<open>
  The client's TLS configuration: a CA file that is named must be read and hold certificates,
  and then the configuration trusts exactly that file; with no CA file there is no pool (the
  library's default roots) and no error. Certificates are always verified against one of the two,
  and the protocol offered is h2.
\<close>

theorem getClientTLSConfig_roots:
  "case fst (getClientTLSConfig env args) of
     Inl e \<Rightarrow> CAPath args \<noteq> '''' \<and>
       (env_ReadFile env (CAPath args) = Inl e \<or>
        e = Errorf (''failed to AppendCertsFromPEM: '' @ CAPath args) \<and>
        (\<exists>pem. env_ReadFile env (CAPath args) = Inr pem \<and> \<not> env_AppendCertsFromPEM env pem))
   | Inr cfg \<Rightarrow> NextProtos cfg = [''h2''] \<and>
       (case RootCAs cfg of
          None \<Rightarrow> CAPath args = ''''
        | Some pem \<Rightarrow> CAPath args \<noteq> '''' \<and> env_ReadFile env (CAPath args) = Inr pem \<and>
            env_AppendCertsFromPEM env pem)"
  by (auto simp: getClientTLSConfig_def zero_tls_config_def Let_def split: sum.splits prod.splits option.splits
      dest!: set_keylog_fields)

text \<open>
  getServerTLSConfig never returns an error, whatever the environment: it ends the process or
  returns a configuration with the loaded certificate, so the error checks of its callers are never
  taken.
\<close>

theorem getServerTLSConfig_no_error:
  "(\<exists>m. getServerTLSConfig env args = Fatal m) \<or>
   (\<exists>cert cfg ls. getServerTLSConfig env args = Ret (Inr cfg, ls) \<and> Certificates cfg = [cert] \<and>
      env_LoadX509KeyPair env (CertPath args) (KeyPath args) = Inr cert)"
  by (rule getServerTLSConfig_cases [of env args]) auto

end
