(* ===== verification/Sessions.thy ===== *)
theory Sessions
  imports ProxyStream Config
begin

text \<open>
  The contracts of netx.ServerSession and netx.ClientSession as locales, and their first
  implementation, the sessions of std_net.go. A server session is a machine: what it does while
  waiting and what its peers make it do are events, and an event may complete the AcceptStream call
  that is waiting. A client session is the function OpenStream.
\<close>

subsection \<open>The contracts\<close>

text \<open>
  \<open>sdo e s\<close> is what event \<open>e\<close> does in state \<open>s\<close>: the result of AcceptStream when the event
  completes one, and the next state. What AcceptStream returns is a stream nobody has closed.
\<close>

fun machine_run ::
    "('e \<Rightarrow> 's \<Rightarrow> ('r option \<times> 's) outcome) \<Rightarrow> 'e list \<Rightarrow> 's \<Rightarrow> ('r list \<times> 's) outcome" where
  "machine_run f [] s = Ret ([], s)"
| "machine_run f (e # es) s =
     then_do (f e s) (\<lambda>(r, s1).
     then_do (machine_run f es s1) (\<lambda>(rs, s2). Ret ((case r of None \<Rightarrow> rs | Some x \<Rightarrow> x # rs), s2)))"

lemma machine_run_Cons:
  assumes "machine_run f (e # es) s = Ret (rs, s')"
  obtains r s1 rs1 where "f e s = Ret (r, s1)" "machine_run f es s1 = Ret (rs1, s')"
    "rs = (case r of None \<Rightarrow> rs1 | Some x \<Rightarrow> x # rs1)"
  using assms by (fastforce simp: go_simps)

text \<open>The streams among the results of AcceptStream.\<close>

fun accepted :: "(err + stream) list \<Rightarrow> stream list" where
  "accepted [] = []"
| "accepted (Inl e # rs) = accepted rs"
| "accepted (Inr st # rs) = st # accepted rs"

lemma accepted_append [simp]: "accepted (rs @ rs') = accepted rs @ accepted rs'"
  by (induction rs rule: accepted.induct) auto

text \<open>An invariant of the single events holds after every run.\<close>

lemma machine_run_inv:
  assumes step: "\<And>e s r s'. P s \<Longrightarrow> f e s = Ret (r, s') \<Longrightarrow> P s'"
  shows "P s \<Longrightarrow> machine_run f es s = Ret (rs, s') \<Longrightarrow> P s'"
proof (induction es arbitrary: s rs)
  case (Cons e es)
  from Cons.prems(2) show ?case
    by (rule machine_run_Cons) (use Cons.IH Cons.prems(1) step in blast)
qed simp

text \<open>As above, where the invariant also speaks of the results so far.\<close>

lemma machine_run_results_inv:
  assumes step: "\<And>e s r s' rs. P rs s \<Longrightarrow> f e s = Ret (r, s') \<Longrightarrow>
      P (case r of None \<Rightarrow> rs | Some x \<Rightarrow> rs @ [x]) s'"
  shows "P rs0 s \<Longrightarrow> machine_run f es s = Ret (rs, s') \<Longrightarrow> P (rs0 @ rs) s'"
proof (induction es arbitrary: s rs rs0)
  case (Cons e es)
  from Cons.prems(2) obtain r s1 rs1 where r: "f e s = Ret (r, s1)" "machine_run f es s1 = Ret (rs1, s')"
      "rs = (case r of None \<Rightarrow> rs1 | Some x \<Rightarrow> x # rs1)"
    by (rule machine_run_Cons)
  from Cons.IH [OF step [OF Cons.prems(1) r(1)] r(2)] r(3) show ?case
    by (cases r) auto
qed simp

locale server_machine =
  fixes sdo :: "'e \<Rightarrow> 's \<Rightarrow> ((err + stream) option \<times> 's) outcome"
    and sinv :: "'s \<Rightarrow> bool"
  assumes sdo_inv: "sinv s \<Longrightarrow> sdo e s = Ret (r, s') \<Longrightarrow> sinv s'"
    and accept_ready: "sinv s \<Longrightarrow> sdo e s = Ret (Some (Inr st), s') \<Longrightarrow> close_ready st"
begin

lemma run_ready:
  assumes "sinv s" and "machine_run sdo es s = Ret (rs, s')"
  shows "sinv s' \<and> (\<forall>st. Inr st \<in> set rs \<longrightarrow> close_ready st)"
proof -
  let ?P = "\<lambda>rs s. sinv s \<and> (\<forall>st. Inr st \<in> set rs \<longrightarrow> close_ready st)"
  have "?P ([] @ rs) s'"
    by (rule machine_run_results_inv [where P = ?P and f = sdo, OF _ _ assms(2)])
      (use assms(1) sdo_inv accept_ready in \<open>auto split: option.splits\<close>)
  then show ?thesis by simp
qed

end

locale client_machine =
  fixes copen :: "'a \<Rightarrow> ('s, err + stream) action"
    and cinv :: "'s \<Rightarrow> bool"
  assumes copen_inv: "cinv s \<Longrightarrow> copen a s = Ret (r, s') \<Longrightarrow> cinv s'"
    and open_ready: "cinv s \<Longrightarrow> copen a s = Ret (Inr st, s') \<Longrightarrow> close_ready st"

subsection \<open>stdServerSession\<close>

record stdServerSession =
  ss_listener :: listener

definition std_AcceptStream :: "(stdServerSession, err + stdStream) action" where
  "std_AcceptStream s =
     then_do (listener_Accept (ss_listener s)) (\<lambda>(r, l).
       case r of
         Inl e \<Rightarrow> Ret (Inl e, s\<lparr>ss_listener := l\<rparr>)
       | Inr c \<Rightarrow> Ret (Inr \<lparr>ReadWriteCloser = c\<rparr>, s\<lparr>ss_listener := l\<rparr>))"

definition std_server_Close :: "(stdServerSession, err option) action" where
  "std_server_Close s =
     then_do (listener_Close (ss_listener s)) (\<lambda>(e, l). Ret (e, s\<lparr>ss_listener := l\<rparr>))"

subsection \<open>stdClientSession\<close>

record stdClientSession =
  sc_network :: string
  sc_address :: string
  sc_tlsConfig :: "tls_config option"

definition std_OpenStream :: "env \<Rightarrow> (stdClientSession, err + stdStream) action" where
  "std_OpenStream env s =
     (let r = (case sc_tlsConfig s of
                 None \<Rightarrow> env_Dial env (sc_network s) (sc_address s)
               | Some cfg \<Rightarrow> env_tls_Dial env (sc_network s) (sc_address s) cfg)
      in case r of
           Inl e \<Rightarrow> Ret (Inl e, s)
         | Inr c \<Rightarrow> Ret (Inr \<lparr>ReadWriteCloser = c\<rparr>, s))"

definition std_client_Close :: "(stdClientSession, err option) action" where
  "std_client_Close s = Ret (None, s)"

lemma std_OpenStream_keeps: "std_OpenStream env s = Ret (r, s') \<Longrightarrow> s' = s"
  by (auto simp: std_OpenStream_def Let_def split: sum.splits)

subsection \<open>As sessions\<close>

datatype std_event = StdAccept | StdClose

fun std_server_do :: "std_event \<Rightarrow> stdServerSession \<Rightarrow> ((err + stream) option \<times> stdServerSession) outcome" where
  "std_server_do StdAccept s =
     then_do (std_AcceptStream s) (\<lambda>(r, s'). Ret (Some (map_sum id StdS r), s'))"
| "std_server_do StdClose s = then_do (std_server_Close s) (\<lambda>(_, s'). Ret (None, s'))"

interpretation std_srv: server_machine std_server_do "\<lambda>_. True"
proof unfold_locales
  fix s e st s'
  assume "std_server_do e s = Ret (Some (Inr st), s')"
  then show "close_ready st"
    by (cases e) (auto simp: go_simps)
qed simp

definition std_client_open :: "env \<Rightarrow> (stdClientSession, err + stream) action" where
  "std_client_open env s = then_do (std_OpenStream env s) (\<lambda>(r, s'). Ret (map_sum id StdS r, s'))"

interpretation std_cli: client_machine std_client_open "\<lambda>_. True"
  by unfold_locales (auto simp: std_client_open_def go_simps)

text \<open>Every connection the listener accepts becomes one stream, in order, until Accept fails.\<close>

fun std_accept_all :: "nat \<Rightarrow> stdServerSession \<Rightarrow> stream list" where
  "std_accept_all 0 s = []"
| "std_accept_all (Suc n) s =
     (case std_AcceptStream s of
        Ret (Inr st, s') \<Rightarrow> StdS st # std_accept_all n s'
      | _ \<Rightarrow> [])"

text \<open>
  AcceptStream of the plain and TLS sessions returns the listener's connections one by one and
  unchanged, each wrapped once, until the first error of Accept.
\<close>

theorem std_AcceptStream_in_order:
  "std_accept_all n \<lparr>ss_listener = \<lparr>l_accepts = map Inr cs @ rest, l_close_res = r, l_closes = 0\<rparr>\<rparr> =
     map (\<lambda>c. StdS \<lparr>ReadWriteCloser = c\<rparr>) (take n cs) @
     std_accept_all (n - length cs) \<lparr>ss_listener = \<lparr>l_accepts = rest, l_close_res = r, l_closes = 0\<rparr>\<rparr>"
proof (induction n arbitrary: cs)
  case (Suc n)
  show ?case
  proof (cases cs)
    case (Cons c cs')
    with Suc [of cs'] show ?thesis by (simp add: std_AcceptStream_def listener_Accept_def)
  qed simp
qed simp

text \<open>
  OpenStream of the plain and TLS client dials its own network and address, over TLS exactly
  when the session has a configuration, returns the dialled connection or the dial's error, and
  keeps no state: two calls open two connections.
\<close>

lemma std_OpenStream_dials:
  "std_OpenStream env s =
     Ret (map_sum id (\<lambda>c. \<lparr>ReadWriteCloser = c\<rparr>)
            (case sc_tlsConfig s of None \<Rightarrow> env_Dial env (sc_network s) (sc_address s)
             | Some cfg \<Rightarrow> env_tls_Dial env (sc_network s) (sc_address s) cfg), s)"
  by (auto simp: std_OpenStream_def Let_def split: sum.splits option.splits)

end
