(* ===== verification/GrpcSession.thy ===== *)
theory GrpcSession
  imports Sessions
begin

text \<open>
  The sessions of grpcnet/grpc_net.go. The server session is a machine of its goroutines: the one
  that calls AcceptStream, one handler per RPC in flight (OpenStream), the goroutine that runs
  Serve, and a caller of Close. The gRPC library is a parameter: which RPCs arrive, when Serve
  returns and what NewClient and the stub return.
\<close>

subsection \<open>ServerSession\<close>

text \<open>
  A handler offers its stream on \<open>incoming\<close>, then waits for its done channel or the session's
  closedCh, then returns.
\<close>

datatype rpc_pc = Offering | Serving | Returned "err option"

record rpc_handler =
  rh_stream :: grpc_stream
  rh_done :: sigchan
  rh_pc :: rpc_pc

record grpc_rpc_server =
  rs_listener :: listener
  rs_creds :: "tls_config option"

text \<open>
  \<open>gs_serving\<close> counts the Serve goroutines that have not ended, \<open>gs_accepting\<close> says that
  AcceptStream waits in its select, and \<open>gs_taken\<close> records the handlers whose stream was accepted.
\<close>

record grpc_server =
  gs_network :: string
  gs_address :: string
  gs_tlsConfig :: "tls_config option"
  gs_closedCh :: sigchan
  gs_rpcServer :: "grpc_rpc_server option"
  gs_serving :: nat
  gs_accepting :: bool
  gs_handlers :: "rpc_handler list"
  gs_taken :: "nat list"

definition grpc_NewServerSession :: "string \<Rightarrow> string \<Rightarrow> tls_config option \<Rightarrow> grpc_server" where
  "grpc_NewServerSession network address tlsConfig =
     \<lparr>gs_network = network, gs_address = address, gs_tlsConfig = tlsConfig, gs_closedCh = OpenChan,
      gs_rpcServer = None, gs_serving = 0, gs_accepting = False, gs_handlers = [], gs_taken = []\<rparr>"

text \<open>bootstrap: listen and serve, once; the credentials are TLS exactly when a configuration is given.\<close>

definition grpc_server_bootstrap :: "env \<Rightarrow> grpc_server \<Rightarrow> err option \<times> grpc_server" where
  "grpc_server_bootstrap env s =
     (if gs_rpcServer s \<noteq> None then (None, s)
      else case env_Listen env (gs_network s) (gs_address s) of
             Inl e \<Rightarrow> (Some e, s)
           | Inr l \<Rightarrow>
               (None, s\<lparr>gs_rpcServer := Some \<lparr>rs_listener = l, rs_creds = gs_tlsConfig s\<rparr>,
                        gs_serving := Suc (gs_serving s)\<rparr>))"

text \<open>Close stops the server, forgets it and closes closedCh; without a server it does nothing.\<close>

definition grpc_server_Close :: "(grpc_server, err option) action" where
  "grpc_server_Close s =
     (if gs_rpcServer s = None then Ret (None, s)
      else then_do (close_chan (gs_closedCh s)) (\<lambda>ch.
             Ret (None, s\<lparr>gs_rpcServer := None, gs_closedCh := ch\<rparr>)))"

definition upd_handler :: "nat \<Rightarrow> (rpc_handler \<Rightarrow> rpc_handler) \<Rightarrow> grpc_server \<Rightarrow> grpc_server" where
  "upd_handler i f s = s\<lparr>gs_handlers := (gs_handlers s)[i := f (gs_handlers s ! i)]\<rparr>"

text \<open>
  The events. AcceptStream is \<open>GAccept\<close>, then one of its select's cases: \<open>GTake i\<close> receives the
  stream of handler \<open>i\<close>, \<open>GAcceptClosed\<close> finds closedCh closed. \<open>GCall\<close> is an RPC that
  arrives, \<open>GRefused\<close> and \<open>GFinish\<close> the selects of its handler, \<open>GDone\<close> the callback of the
  accepted stream's Close, \<open>GServeEnds\<close> the deferred close of the Serve goroutine. An event that
  cannot happen is \<open>Blocked\<close>.
\<close>

datatype grpc_event =
    GAccept
  | GTake nat
  | GAcceptClosed
  | GCall script "err option list"
  | GRefused nat
  | GDone nat
  | GFinish nat
  | GServeEnds
  | GClose

fun grpc_server_do ::
    "env \<Rightarrow> grpc_event \<Rightarrow> grpc_server \<Rightarrow> ((err + stream) option \<times> grpc_server) outcome" where
  "grpc_server_do env GAccept s =
     (if gs_accepting s then Blocked
      else case grpc_server_bootstrap env s of
             (Some e, s') \<Rightarrow> Ret (Some (Inl e), s')
           | (None, s') \<Rightarrow> Ret (None, s'\<lparr>gs_accepting := True\<rparr>))"
| "grpc_server_do env (GTake i) s =
     (if gs_accepting s \<and> i < length (gs_handlers s) \<and> rh_pc (gs_handlers s ! i) = Offering
      then Ret (Some (Inr (GrpcS (rh_stream (gs_handlers s ! i)))),
             (upd_handler i (rh_pc_update (\<lambda>_. Serving)) s)\<lparr>gs_accepting := False, gs_taken := gs_taken s @ [i]\<rparr>)
      else Blocked)"
| "grpc_server_do env GAcceptClosed s =
     (if gs_accepting s \<and> recv_ready (gs_closedCh s)
      then Ret (Some (Inl ErrClosed), s\<lparr>gs_accepting := False\<rparr>) else Blocked)"
| "grpc_server_do env (GCall recv send) s =
     (if gs_serving s = 0 then Blocked
      else Ret (None, s\<lparr>gs_handlers := gs_handlers s @
             [\<lparr>rh_stream = newGrpcStream recv send False None (Some OpenChan), rh_done = OpenChan,
               rh_pc = Offering\<rparr>]\<rparr>))"
| "grpc_server_do env (GRefused i) s =
     (if i < length (gs_handlers s) \<and> rh_pc (gs_handlers s ! i) = Offering \<and> recv_ready (gs_closedCh s)
      then Ret (None, upd_handler i (rh_pc_update (\<lambda>_. Returned (Some ErrClosed))) s) else Blocked)"
| "grpc_server_do env (GDone i) s =
     (if i < length (gs_handlers s) \<and> i \<in> set (gs_taken s)
      then then_do (close_chan (rh_done (gs_handlers s ! i))) (\<lambda>ch.
             Ret (None, upd_handler i (rh_done_update (\<lambda>_. ch)) s))
      else Blocked)"
| "grpc_server_do env (GFinish i) s =
     (if i < length (gs_handlers s) \<and> rh_pc (gs_handlers s ! i) = Serving \<and>
         (recv_ready (rh_done (gs_handlers s ! i)) \<or> recv_ready (gs_closedCh s))
      then Ret (None, upd_handler i (rh_pc_update (\<lambda>_. Returned None)) s) else Blocked)"
| "grpc_server_do env GServeEnds s =
     (if gs_serving s = 0 then Blocked
      else then_do (close_chan (gs_closedCh s)) (\<lambda>ch.
             Ret (None, s\<lparr>gs_closedCh := ch, gs_serving := gs_serving s - 1\<rparr>)))"
| "grpc_server_do env GClose s = then_do (grpc_server_Close s) (\<lambda>(_, s'). Ret (None, s'))"

subsection \<open>Invariant\<close>

text \<open>What holds of each handler: what it may be waiting for and why it may have returned.\<close>

definition handler_ok :: "sigchan \<Rightarrow> bool \<Rightarrow> rpc_handler \<Rightarrow> bool" where
  "handler_ok closed taken h \<longleftrightarrow>
     rh_done h \<noteq> NilChan \<and>
     (case rh_pc h of
        Offering \<Rightarrow> \<not> taken \<and> close_ready (GrpcS (rh_stream h))
      | Serving \<Rightarrow> taken
      | Returned None \<Rightarrow> taken \<and> (rh_done h = ClosedChan \<or> closed = ClosedChan)
      | Returned (Some e) \<Rightarrow> \<not> taken \<and> e = ErrClosed \<and> closed = ClosedChan)"

definition grpc_server_inv :: "grpc_server \<Rightarrow> bool" where
  "grpc_server_inv s \<longleftrightarrow>
     gs_closedCh s \<noteq> NilChan \<and>
     (gs_closedCh s = OpenChan \<longrightarrow> gs_serving s = (if gs_rpcServer s = None then 0 else 1)) \<and>
     distinct (gs_taken s) \<and> set (gs_taken s) \<subseteq> {..<length (gs_handlers s)} \<and>
     (\<forall>i < length (gs_handlers s). handler_ok (gs_closedCh s) (i \<in> set (gs_taken s)) (gs_handlers s ! i))"

lemma grpc_server_inv_new: "grpc_server_inv (grpc_NewServerSession network address tlsConfig)"
  by (simp add: grpc_server_inv_def grpc_NewServerSession_def)

lemma upd_handler_simps [simp]:
  "gs_handlers (upd_handler i f s) = (gs_handlers s)[i := f (gs_handlers s ! i)]"
  "gs_closedCh (upd_handler i f s) = gs_closedCh s" "gs_taken (upd_handler i f s) = gs_taken s"
  "gs_serving (upd_handler i f s) = gs_serving s" "gs_rpcServer (upd_handler i f s) = gs_rpcServer s"
  by (simp_all add: upd_handler_def)

lemma handler_ok_close: "handler_ok c t h \<Longrightarrow> handler_ok ClosedChan t h"
  by (auto simp: handler_ok_def split: rpc_pc.splits option.splits)

lemma grpc_server_inv_close:
  assumes "grpc_server_inv s"
  shows "grpc_server_inv (s\<lparr>gs_closedCh := ClosedChan, gs_serving := n\<rparr>)"
    and "grpc_server_inv (s\<lparr>gs_rpcServer := r, gs_closedCh := ClosedChan\<rparr>)"
  using assms handler_ok_close by (auto simp: grpc_server_inv_def)

text \<open>Changing one handler, and recording it as taken when it was not.\<close>

lemma grpc_server_inv_upd:
  assumes "grpc_server_inv s" and "i < length (gs_handlers s)"
    and "handler_ok (gs_closedCh s) (i \<in> set (gs_taken s)) (f (gs_handlers s ! i))"
  shows "grpc_server_inv (upd_handler i f s)"
  using assms by (auto simp: grpc_server_inv_def nth_list_update)

lemma grpc_server_inv_take:
  assumes "grpc_server_inv s" and "i < length (gs_handlers s)" and "i \<notin> set (gs_taken s)"
    and "handler_ok (gs_closedCh s) True (f (gs_handlers s ! i))"
  shows "grpc_server_inv ((upd_handler i f s)\<lparr>gs_accepting := b, gs_taken := gs_taken s @ [i]\<rparr>)"
  using assms by (auto simp: grpc_server_inv_def nth_list_update)

lemma grpc_server_inv_handler:
  "grpc_server_inv s \<Longrightarrow> i < length (gs_handlers s) \<Longrightarrow>
   handler_ok (gs_closedCh s) (i \<in> set (gs_taken s)) (gs_handlers s ! i)"
  by (simp add: grpc_server_inv_def)

lemma grpc_server_inv_call:
  assumes "grpc_server_inv s" and "handler_ok (gs_closedCh s) False h"
  shows "grpc_server_inv (s\<lparr>gs_handlers := gs_handlers s @ [h]\<rparr>)"
proof -
  have "length (gs_handlers s) \<notin> set (gs_taken s)" using assms(1) by (auto simp: grpc_server_inv_def)
  with assms show ?thesis by (auto simp: grpc_server_inv_def nth_append less_Suc_eq)
qed

lemma recv_ready_iff: "recv_ready c \<longleftrightarrow> c = ClosedChan"
  by (cases c) auto

lemma grpc_server_do_inv:
  assumes inv: "grpc_server_inv s" and step: "grpc_server_do env ev s = Ret (r, s')"
  shows "grpc_server_inv s'"
proof (cases ev)
  case GAccept
  with inv step show ?thesis
    by (auto simp: grpc_server_bootstrap_def grpc_server_inv_def split: if_splits sum.splits)
next
  case (GTake i)
  with step have i: "i < length (gs_handlers s)" "rh_pc (gs_handlers s ! i) = Offering"
    and s': "s' = (upd_handler i (rh_pc_update (\<lambda>_. Serving)) s)
      \<lparr>gs_accepting := False, gs_taken := gs_taken s @ [i]\<rparr>"
    by (auto split: if_splits)
  from grpc_server_inv_handler [OF inv i(1)] i(2)
  have "i \<notin> set (gs_taken s)" "rh_done (gs_handlers s ! i) \<noteq> NilChan" by (auto simp: handler_ok_def)
  with i(1) show ?thesis
    unfolding s' by (intro grpc_server_inv_take [OF inv]) (auto simp: handler_ok_def)
next
  case (GCall recv send)
  with step have s': "s' = s\<lparr>gs_handlers := gs_handlers s @
      [\<lparr>rh_stream = newGrpcStream recv send False None (Some OpenChan), rh_done = OpenChan, rh_pc = Offering\<rparr>]\<rparr>"
    by (simp split: if_splits)
  show ?thesis
    unfolding s' by (rule grpc_server_inv_call [OF inv]) (simp add: handler_ok_def newGrpcStream_def)
next
  case (GRefused i)
  with step have i: "i < length (gs_handlers s)" "rh_pc (gs_handlers s ! i) = Offering"
      "gs_closedCh s = ClosedChan"
    and s': "s' = upd_handler i (rh_pc_update (\<lambda>_. Returned (Some ErrClosed))) s"
    by (auto simp: recv_ready_iff split: if_splits)
  from grpc_server_inv_handler [OF inv i(1)] i show ?thesis
    unfolding s' by (intro grpc_server_inv_upd [OF inv]) (auto simp: handler_ok_def)
next
  case (GDone i)
  with step have i: "i < length (gs_handlers s)" "i \<in> set (gs_taken s)"
    and s': "s' = upd_handler i (rh_done_update (\<lambda>_. ClosedChan)) s"
    by (auto simp: go_simps split: if_splits)
  from grpc_server_inv_handler [OF inv i(1)] i show ?thesis
    unfolding s'
    by (intro grpc_server_inv_upd [OF inv]) (auto simp: handler_ok_def split: rpc_pc.splits option.splits)
next
  case (GFinish i)
  with step have i: "i < length (gs_handlers s)" "rh_pc (gs_handlers s ! i) = Serving"
      "rh_done (gs_handlers s ! i) = ClosedChan \<or> gs_closedCh s = ClosedChan"
    and s': "s' = upd_handler i (rh_pc_update (\<lambda>_. Returned None)) s"
    by (auto simp: recv_ready_iff split: if_splits)
  from grpc_server_inv_handler [OF inv i(1)] i show ?thesis
    unfolding s' by (intro grpc_server_inv_upd [OF inv]) (auto simp: handler_ok_def)
next
  case GServeEnds
  with inv step show ?thesis by (auto simp: go_simps intro: grpc_server_inv_close split: if_splits)
next
  case GClose
  with inv step show ?thesis
    by (auto simp: grpc_server_Close_def go_simps intro: grpc_server_inv_close split: if_splits)
next
  case GAcceptClosed
  with inv step show ?thesis by (auto simp: grpc_server_inv_def split: if_splits)
qed

lemma grpc_server_do_ready:
  assumes "grpc_server_inv s" and "grpc_server_do env ev s = Ret (Some (Inr st), s')"
  shows "close_ready st"
  using assms
  by (cases ev) (auto simp: go_simps grpc_server_inv_def handler_ok_def split: if_splits prod.splits option.splits)

interpretation grpc_srv: server_machine "grpc_server_do env" grpc_server_inv for env
  by unfold_locales (rule grpc_server_do_inv, assumption+, rule grpc_server_do_ready)

lemma grpc_server_run_inv:
  "machine_run (grpc_server_do env) es (grpc_NewServerSession network address tlsConfig) = Ret (rs, s) \<Longrightarrow>
   grpc_server_inv s"
  by (rule machine_run_inv [where f = "grpc_server_do env" and P = grpc_server_inv,
      OF grpc_server_do_inv grpc_server_inv_new])

text \<open>The streams of the handlers never change; the events that complete AcceptStream record theirs.\<close>

definition taken_stream :: "grpc_server \<Rightarrow> nat \<Rightarrow> stream" where
  "taken_stream s i = GrpcS (rh_stream (gs_handlers s ! i))"

lemma grpc_server_do_streams:
  "grpc_server_do env ev s = Ret (r, s') \<Longrightarrow> i < length (gs_handlers s) \<Longrightarrow>
   taken_stream s' i = taken_stream s i"
  by (cases ev) (auto simp: taken_stream_def go_simps grpc_server_bootstrap_def grpc_server_Close_def
      nth_list_update nth_append split: if_splits sum.splits)

lemma grpc_server_do_taken:
  assumes "grpc_server_do env ev s = Ret (r, s')"
  obtains (nothing) "gs_taken s' = gs_taken s" "r = None"
    | (failed) e where "gs_taken s' = gs_taken s" "r = Some (Inl e)"
    | (took) i where "i < length (gs_handlers s)" "gs_taken s' = gs_taken s @ [i]"
        "r = Some (Inr (taken_stream s i))"
  using assms
  by (cases ev) (auto simp: taken_stream_def go_simps grpc_server_bootstrap_def grpc_server_Close_def
      split: if_splits sum.splits)

subsection \<open>ClientSession\<close>

text \<open>
  A connection of the gRPC library is named by a number, and so is the stub made of it. What
  NewClient, the stub's OpenStream and the connection's Close return are arguments.
\<close>

record grpc_client =
  gc_network :: string
  gc_address :: string
  gc_tlsConfig :: "tls_config option"
  gc_rpcConn :: "nat option"
  gc_rpcClient :: "nat option"

definition grpc_NewClientSession :: "string \<Rightarrow> string \<Rightarrow> tls_config option \<Rightarrow> grpc_client" where
  "grpc_NewClientSession network address tlsConfig =
     \<lparr>gc_network = network, gc_address = address, gc_tlsConfig = tlsConfig, gc_rpcConn = None,
      gc_rpcClient = None\<rparr>"

type_synonym grpc_NewClient = "string \<Rightarrow> tls_config option \<Rightarrow> err + nat"

text \<open>What the stub's OpenStream gives for a connection: an error, or the stream's scripts.\<close>

type_synonym grpc_stub = "nat \<Rightarrow> err + (script \<times> err option list \<times> err option)"

definition grpc_client_bootstrap :: "grpc_NewClient \<Rightarrow> grpc_client \<Rightarrow> (err + nat) \<times> grpc_client" where
  "grpc_client_bootstrap newClient s =
     (case gc_rpcClient s of
        Some c \<Rightarrow> (Inr c, s)
      | None \<Rightarrow>
          (case newClient (gc_address s) (gc_tlsConfig s) of
             Inl e \<Rightarrow> (Inl e, s)
           | Inr conn \<Rightarrow> (Inr conn, s\<lparr>gc_rpcConn := Some conn, gc_rpcClient := Some conn\<rparr>)))"

definition grpc_OpenStream :: "grpc_NewClient \<times> grpc_stub \<Rightarrow> (grpc_client, err + grpc_stream) action" where
  "grpc_OpenStream lib s =
     (case grpc_client_bootstrap (fst lib) s of
        (Inl e, s') \<Rightarrow> Ret (Inl e, s')
      | (Inr c, s') \<Rightarrow>
          (case snd lib c of
             Inl e \<Rightarrow> Ret (Inl e, s')
           | Inr (recv, send, cs) \<Rightarrow> Ret (Inr (newGrpcStream recv send True cs None), s')))"

definition grpc_client_Close :: "(nat \<Rightarrow> err option) \<Rightarrow> (grpc_client, err option) action" where
  "grpc_client_Close closeConn s =
     (case gc_rpcConn s of
        Some conn \<Rightarrow> Ret (closeConn conn, s\<lparr>gc_rpcConn := None, gc_rpcClient := None\<rparr>)
      | None \<Rightarrow> Ret (None, s))"

text \<open>The two fields are set and cleared together.\<close>

definition grpc_client_inv :: "grpc_client \<Rightarrow> bool" where
  "grpc_client_inv s \<longleftrightarrow> gc_rpcConn s = gc_rpcClient s"

lemma grpc_OpenStream_inv:
  "grpc_client_inv s \<Longrightarrow> grpc_OpenStream lib s = Ret (r, s') \<Longrightarrow> grpc_client_inv s'"
  by (auto simp: grpc_OpenStream_def grpc_client_bootstrap_def grpc_client_inv_def
      split: option.splits sum.splits prod.splits)

definition grpc_client_open :: "grpc_NewClient \<times> grpc_stub \<Rightarrow> (grpc_client, err + stream) action" where
  "grpc_client_open lib s = then_do (grpc_OpenStream lib s) (\<lambda>(r, s'). Ret (map_sum id GrpcS r, s'))"

interpretation grpc_cli: client_machine grpc_client_open grpc_client_inv
proof unfold_locales
  show "grpc_client_inv s'" if "grpc_client_inv s" "grpc_client_open a s = Ret (r, s')" for s a r s'
    using that by (auto simp: grpc_client_open_def go_simps intro: grpc_OpenStream_inv)
  show "close_ready st" if "grpc_client_open a s = Ret (Inr st, s')" for s a st s'
    using that
    by (auto simp: grpc_client_open_def go_simps grpc_OpenStream_def newGrpcStream_def
        split: sum.splits prod.splits)
qed

subsection \<open>Properties\<close>

text \<open>
  C28. The gRPC server session hands out the stream of every RPC at most once, and AcceptStream
  returns nothing else: the streams it has returned are those of the handlers recorded as taken,
  in order and without repetition, whatever the order of RPCs, accepts, closings and returns.
\<close>

theorem grpc_server_accepts_once:
  assumes "machine_run (grpc_server_do env) es (grpc_NewServerSession network address tlsConfig) = Ret (rs, s)"
  shows "accepted rs = map (\<lambda>i. GrpcS (rh_stream (gs_handlers s ! i))) (gs_taken s) \<and>
    distinct (gs_taken s) \<and> set (gs_taken s) \<subseteq> {..<length (gs_handlers s)}"
proof -
  let ?P = "\<lambda>rs s. grpc_server_inv s \<and> accepted rs = map (taken_stream s) (gs_taken s)"
  have "?P ([] @ rs) s"
  proof (rule machine_run_results_inv [where P = ?P and f = "grpc_server_do env", OF _ _ assms])
    fix ev s r s' rs
    assume P: "?P rs s" and step: "grpc_server_do env ev s = Ret (r, s')"
    then have "\<forall>i \<in> set (gs_taken s). i < length (gs_handlers s)" by (auto simp: grpc_server_inv_def)
    with grpc_server_do_streams [OF step] P
    have keep: "accepted rs = map (taken_stream s') (gs_taken s)" by simp
    have inv: "grpc_server_inv s'" using grpc_server_do_inv [OF _ step] P by blast
    from step show "?P (case r of None \<Rightarrow> rs | Some x \<Rightarrow> rs @ [x]) s'"
      by (cases rule: grpc_server_do_taken) (use keep inv grpc_server_do_streams [OF step] in auto)
  qed (simp_all add: grpc_server_inv_new, simp add: grpc_NewServerSession_def)
  then show ?thesis by (simp add: grpc_server_inv_def taken_stream_def [abs_def])
qed

text \<open>
  An RPC handler of the gRPC server ends for a reason: with nil only once its stream was
  accepted and then closed, or the session closed, and with os.ErrClosed only if the session
  closed before anybody accepted its stream.
\<close>

theorem grpc_server_handler_returns:
  assumes "machine_run (grpc_server_do env) es (grpc_NewServerSession network address tlsConfig) = Ret (rs, s)"
    and "i < length (gs_handlers s)" and "rh_pc (gs_handlers s ! i) = Returned e"
  shows "(e = None \<and> i \<in> set (gs_taken s) \<and>
      (rh_done (gs_handlers s ! i) = ClosedChan \<or> gs_closedCh s = ClosedChan)) \<or>
    (e = Some ErrClosed \<and> i \<notin> set (gs_taken s) \<and> gs_closedCh s = ClosedChan)"
proof -
  have "grpc_server_inv s" by (rule grpc_server_run_inv [OF assms(1)])
  from grpc_server_inv_handler [OF this assms(2)] assms(3) show ?thesis
    by (auto simp: handler_ok_def split: option.splits)
qed

text \<open>
  C35. Closing a gRPC server session that has been used ends in a panic: Close and the goroutine
  that runs Serve both close closedCh, so whichever comes second panics.
\<close>

theorem grpc_server_close_panics:
  assumes "machine_run (grpc_server_do env) es (grpc_NewServerSession network address tlsConfig) = Ret (rs, s)"
    and "gs_rpcServer s \<noteq> None" and "gs_closedCh s = OpenChan"
  shows "(\<exists>s1. grpc_server_do env GClose s = Ret (None, s1) \<and>
        (\<exists>m. grpc_server_do env GServeEnds s1 = Panic m)) \<and>
    (\<exists>s1. grpc_server_do env GServeEnds s = Ret (None, s1) \<and>
        (\<exists>m. grpc_server_do env GClose s1 = Panic m))"
proof -
  have "grpc_server_inv s" by (rule grpc_server_run_inv [OF assms(1)])
  with assms(2,3) have "gs_serving s = 1" by (simp add: grpc_server_inv_def)
  with assms(2,3) show ?thesis by (simp add: grpc_server_Close_def)
qed

text \<open>
  The gRPC client connects once: after a successful OpenStream the next one uses the same
  connection whatever NewClient would return, and after Close it connects again.
\<close>

theorem grpc_client_connects_once:
  assumes "grpc_client_inv s" and "grpc_OpenStream lib s = Ret (Inr st, s1)"
  shows "\<exists>c. gc_rpcClient s1 = Some c \<and>
    (\<forall>lib2. grpc_OpenStream lib2 s1 =
       Ret (map_sum id (\<lambda>(recv, send, cs). newGrpcStream recv send True cs None) (snd lib2 c), s1)) \<and>
    (\<forall>closeConn. grpc_client_Close closeConn s1 =
       Ret (closeConn c, s1\<lparr>gc_rpcConn := None, gc_rpcClient := None\<rparr>))"
proof -
  from assms(2) obtain c where c: "gc_rpcClient s1 = Some c"
    by (auto simp: grpc_OpenStream_def grpc_client_bootstrap_def split: sum.splits prod.splits option.splits)
  have "gc_rpcConn s1 = Some c" using grpc_OpenStream_inv [OF assms] c by (simp add: grpc_client_inv_def)
  with c show ?thesis
    by (auto simp: grpc_OpenStream_def grpc_client_bootstrap_def grpc_client_Close_def
        split: sum.splits prod.splits)
qed

text \<open>A run for the witnesses: one RPC accepted, its stream closed, its handler returned.\<close>

lemmas grpc_run_eval = grpc_NewServerSession_def grpc_server_bootstrap_def sample_env_def upd_handler_def Let_def

lemma grpc_sample_run:
  "\<exists>rs s. machine_run (grpc_server_do sample_env) [GAccept, GCall [] [], GTake 0, GDone 0, GFinish 0]
       (grpc_NewServerSession ''tcp'' ''a:1'' None) = Ret (rs, s) \<and>
     length (accepted rs) = 1 \<and> gs_taken s = [0] \<and> length (gs_handlers s) = 1 \<and>
     rh_pc (gs_handlers s ! 0) = Returned None \<and> gs_rpcServer s \<noteq> None \<and> gs_closedCh s = OpenChan"
  by (simp add: grpc_run_eval)

theorem grpc_server_accepts_once_witness:
  "\<exists>es rs s. machine_run (grpc_server_do sample_env) es (grpc_NewServerSession ''tcp'' ''a:1'' None) =
     Ret (rs, s) \<and> accepted rs = [GrpcS (rh_stream (gs_handlers s ! 0))]"
proof -
  obtain es rs s where r: "machine_run (grpc_server_do sample_env) es
      (grpc_NewServerSession ''tcp'' ''a:1'' None) = Ret (rs, s)" "gs_taken s = [0]"
    using grpc_sample_run by blast
  from grpc_server_accepts_once [OF r(1)] r show ?thesis by auto
qed

theorem grpc_server_handler_returns_witness:
  "\<exists>es rs s. machine_run (grpc_server_do sample_env) es (grpc_NewServerSession ''tcp'' ''a:1'' None) =
     Ret (rs, s) \<and> 0 \<in> set (gs_taken s) \<and> rh_done (gs_handlers s ! 0) = ClosedChan"
proof -
  obtain es rs s where r: "machine_run (grpc_server_do sample_env) es
      (grpc_NewServerSession ''tcp'' ''a:1'' None) = Ret (rs, s)"
      "length (gs_handlers s) = 1" "rh_pc (gs_handlers s ! 0) = Returned None" "gs_closedCh s = OpenChan"
    using grpc_sample_run by blast
  have "0 < length (gs_handlers s)" using r(2) by simp
  from grpc_server_handler_returns [OF r(1) this r(3)] r show ?thesis by auto
qed

theorem grpc_server_close_panics_witness:
  "\<exists>es rs s s1 m. machine_run (grpc_server_do sample_env) es (grpc_NewServerSession ''tcp'' ''a:1'' None) =
     Ret (rs, s) \<and> grpc_server_do sample_env GClose s = Ret (None, s1) \<and>
     grpc_server_do sample_env GServeEnds s1 = Panic m"
proof -
  obtain es rs s where r: "machine_run (grpc_server_do sample_env) es
      (grpc_NewServerSession ''tcp'' ''a:1'' None) = Ret (rs, s)"
      "gs_rpcServer s \<noteq> None" "gs_closedCh s = OpenChan"
    using grpc_sample_run by blast
  from grpc_server_close_panics [OF r] r(1) show ?thesis by blast
qed

theorem grpc_client_connects_once_witness:
  "\<exists>st s1. grpc_OpenStream (\<lambda>_ _. Inr 5, \<lambda>_. Inr ([], [], None)) (grpc_NewClientSession ''tcp'' ''a:1'' None) =
     Ret (Inr st, s1) \<and> gc_rpcClient s1 = Some 5 \<and>
     grpc_OpenStream (\<lambda>_ _. Inl EOF, \<lambda>_. Inl ErrClosed) s1 = Ret (Inl ErrClosed, s1)"
proof -
  let ?s = "grpc_NewClientSession ''tcp'' ''a:1'' None"
  have inv: "grpc_client_inv ?s" by (simp add: grpc_client_inv_def grpc_NewClientSession_def)
  obtain st s1 where op: "grpc_OpenStream (\<lambda>_ _. Inr 5, \<lambda>_. Inr ([], [], None)) ?s = Ret (Inr st, s1)"
      and c: "gc_rpcClient s1 = Some 5"
    by (simp add: grpc_OpenStream_def grpc_client_bootstrap_def grpc_NewClientSession_def)
  from grpc_client_connects_once [OF inv op] op c show ?thesis by auto
qed

end
