(* ===== verification/CapnpSession.thy ===== *)
theory CapnpSession
  imports Sessions
begin

text \<open>
  The sessions of capnpnet/capnp_net.go. The server session is a machine of the goroutine that
  calls AcceptStream, one handler per OpenStream call of the client, and a caller of Close. The
  Cap'n Proto library is a parameter: which calls arrive, what AllocResults and SetUp return.
\<close>

subsection \<open>ServerSession\<close>

text \<open>
  Channels are numbered: NewServerSession makes channel 0, bootstrap replaces it. AcceptStream is
  idle, in bootstrap's listener.Accept (holding mu), between NewConn and the new channel (holding
  mu), or in its select on the channel bootstrap returned.
\<close>

datatype accept_pc = AIdle | AAccepting | AConnected | AWaiting nat

text \<open>A handler has built its stream, or waits in the select on the channel it read, or is over.\<close>

datatype call_pc = CBuilt | COffers nat | CReturned "err option"

record call_handler =
  ch_stream :: capnpStream
  ch_pc :: call_pc

record capnp_server =
  cp_listener :: listener
  cp_incoming :: nat
  cp_closedCh :: sigchan
  cp_rpcConn :: "conn option"
  cp_accept :: accept_pc
  cp_handlers :: "call_handler list"
  cp_taken :: "nat list"

text \<open>NewServerSession makes \<open>incoming\<close> and leaves \<open>closedCh\<close> nil.\<close>

definition capnp_NewServerSession :: "listener \<Rightarrow> capnp_server" where
  "capnp_NewServerSession l =
     \<lparr>cp_listener = l, cp_incoming = 0, cp_closedCh = NilChan, cp_rpcConn = None, cp_accept = AIdle,
      cp_handlers = [], cp_taken = []\<rparr>"

definition mu_held :: "capnp_server \<Rightarrow> bool" where
  "mu_held s \<longleftrightarrow> cp_accept s = AAccepting \<or> cp_accept s = AConnected"

definition capnp_server_Close :: "(capnp_server, err option) action" where
  "capnp_server_Close s =
     (if mu_held s then Blocked
      else if cp_rpcConn s = None then Ret (None, s)
      else then_do (listener_Close (cp_listener s)) (\<lambda>(_, l).
           then_do (close_chan (cp_closedCh s)) (\<lambda>ch.
             Ret (None, s\<lparr>cp_listener := l, cp_closedCh := ch, cp_rpcConn := None\<rparr>))))"

definition set_call_pc :: "nat \<Rightarrow> call_pc \<Rightarrow> capnp_server \<Rightarrow> capnp_server" where
  "set_call_pc i pc s = s\<lparr>cp_handlers := (cp_handlers s)[i := (cp_handlers s ! i)\<lparr>ch_pc := pc\<rparr>]\<rparr>"

text \<open>
  The events. AcceptStream: \<open>CAccept\<close> calls it, \<open>CConn\<close> is listener.Accept and NewConn returning,
  \<open>CChan\<close> bootstrap's new channel, \<open>CTake i\<close> and \<open>CAcceptClosed\<close> the cases of its select. A
  client's call: \<open>CCall\<close> builds the stream, \<open>CEval i\<close> enters the select, which reads s.incoming,
  \<open>CRefused i\<close> is the other case of that select. Calls arrive once there is a connection.
\<close>

datatype capnp_event =
    CAccept
  | CConn
  | CChan
  | CTake nat
  | CAcceptClosed
  | CCall "err option" "err option" "bs_call list" "err option list" "err option"
  | CEval nat
  | CRefused nat
  | CClose

fun capnp_server_do ::
    "capnp_event \<Rightarrow> capnp_server \<Rightarrow> ((err + stream) option \<times> capnp_server) outcome" where
  "capnp_server_do CAccept s =
     (if cp_accept s \<noteq> AIdle then Blocked
      else if cp_rpcConn s \<noteq> None then Ret (None, s\<lparr>cp_accept := AWaiting (cp_incoming s)\<rparr>)
      else Ret (None, s\<lparr>cp_accept := AAccepting\<rparr>))"
| "capnp_server_do CConn s =
     (if cp_accept s \<noteq> AAccepting then Blocked
      else then_do (listener_Accept (cp_listener s)) (\<lambda>(r, l).
        case r of
          Inl e \<Rightarrow> Ret (Some (Inl e), s\<lparr>cp_listener := l, cp_accept := AIdle\<rparr>)
        | Inr c \<Rightarrow> Ret (None, s\<lparr>cp_listener := l, cp_rpcConn := Some c, cp_accept := AConnected\<rparr>)))"
| "capnp_server_do CChan s =
     (if cp_accept s \<noteq> AConnected then Blocked
      else (let ch = Suc (cp_incoming s) in Ret (None, s\<lparr>cp_incoming := ch, cp_accept := AWaiting ch\<rparr>)))"
| "capnp_server_do (CTake i) s =
     (case cp_accept s of
        AWaiting ch \<Rightarrow>
          if i < length (cp_handlers s) \<and> ch_pc (cp_handlers s ! i) = COffers ch
          then Ret (Some (Inr (CapnpS (ch_stream (cp_handlers s ! i)))),
                 (set_call_pc i (CReturned None) s)\<lparr>cp_accept := AIdle, cp_taken := cp_taken s @ [i]\<rparr>)
          else Blocked
      | _ \<Rightarrow> Blocked)"
| "capnp_server_do CAcceptClosed s =
     (case cp_accept s of
        AWaiting ch \<Rightarrow>
          if recv_ready (cp_closedCh s) then Ret (Some (Inl ErrClosed), s\<lparr>cp_accept := AIdle\<rparr>) else Blocked
      | _ \<Rightarrow> Blocked)"
| "capnp_server_do (CCall alloc setUp calls wres endres) s =
     (if cp_rpcConn s = None then Blocked
      else
        (let stream = newCapnpStream newByteStreamReader calls wres endres;
             pc = (case alloc of Some e \<Rightarrow> CReturned (Some e)
                   | None \<Rightarrow> (case setUp of Some e \<Rightarrow> CReturned (Some e) | None \<Rightarrow> CBuilt))
         in Ret (None, s\<lparr>cp_handlers := cp_handlers s @ [\<lparr>ch_stream = stream, ch_pc = pc\<rparr>]\<rparr>)))"
| "capnp_server_do (CEval i) s =
     (if i < length (cp_handlers s) \<and> ch_pc (cp_handlers s ! i) = CBuilt
      then Ret (None, set_call_pc i (COffers (cp_incoming s)) s) else Blocked)"
| "capnp_server_do (CRefused i) s =
     (if i < length (cp_handlers s) \<and> (\<exists>ch. ch_pc (cp_handlers s ! i) = COffers ch) \<and> recv_ready (cp_closedCh s)
      then Ret (None, set_call_pc i (CReturned None) s) else Blocked)"
| "capnp_server_do CClose s = then_do (capnp_server_Close s) (\<lambda>(_, s'). Ret (None, s'))"

subsection \<open>Invariant\<close>

definition call_ok :: "bool \<Rightarrow> nat \<Rightarrow> call_handler \<Rightarrow> bool" where
  "call_ok taken incoming h \<longleftrightarrow>
     close_ready (CapnpS (ch_stream h)) \<and>
     (case ch_pc h of
        CBuilt \<Rightarrow> \<not> taken
      | COffers ch \<Rightarrow> \<not> taken \<and> ch \<le> incoming
      | CReturned None \<Rightarrow> taken
      | CReturned (Some e) \<Rightarrow> \<not> taken)"

text \<open>The channel that AcceptStream waits on is the one bootstrap made, never channel 0.\<close>

definition capnp_server_inv :: "capnp_server \<Rightarrow> bool" where
  "capnp_server_inv s \<longleftrightarrow>
     cp_closedCh s = NilChan \<and>
     cp_incoming s = (if cp_rpcConn s = None \<or> cp_accept s = AConnected then 0 else 1) \<and>
     (cp_accept s = AAccepting \<longrightarrow> cp_rpcConn s = None) \<and>
     (cp_accept s = AConnected \<longrightarrow> cp_rpcConn s \<noteq> None) \<and>
     (\<forall>ch. cp_accept s = AWaiting ch \<longrightarrow> ch = 1 \<and> cp_rpcConn s \<noteq> None) \<and>
     distinct (cp_taken s) \<and> set (cp_taken s) \<subseteq> {..<length (cp_handlers s)} \<and>
     (\<forall>i < length (cp_handlers s). call_ok (i \<in> set (cp_taken s)) (cp_incoming s) (cp_handlers s ! i))"

lemma capnp_server_inv_new: "capnp_server_inv (capnp_NewServerSession l)"
  by (simp add: capnp_server_inv_def capnp_NewServerSession_def)

lemma set_call_pc_simps [simp]:
  "cp_handlers (set_call_pc i pc s) = (cp_handlers s)[i := (cp_handlers s ! i)\<lparr>ch_pc := pc\<rparr>]"
  "cp_closedCh (set_call_pc i pc s) = cp_closedCh s" "cp_incoming (set_call_pc i pc s) = cp_incoming s"
  "cp_rpcConn (set_call_pc i pc s) = cp_rpcConn s" "cp_accept (set_call_pc i pc s) = cp_accept s"
  "cp_taken (set_call_pc i pc s) = cp_taken s" "cp_listener (set_call_pc i pc s) = cp_listener s"
  by (simp_all add: set_call_pc_def)

lemma call_ok_mono: "call_ok t n h \<Longrightarrow> n \<le> m \<Longrightarrow> call_ok t m h"
  by (auto simp: call_ok_def split: call_pc.splits option.splits)

lemma capnp_server_inv_call:
  "capnp_server_inv s \<Longrightarrow> i < length (cp_handlers s) \<Longrightarrow>
   call_ok (i \<in> set (cp_taken s)) (cp_incoming s) (cp_handlers s ! i)"
  unfolding capnp_server_inv_def by blast

lemma capnp_server_inv_upd:
  assumes "capnp_server_inv s" and "i < length (cp_handlers s)"
    and "call_ok (i \<in> set (cp_taken s)) (cp_incoming s) ((cp_handlers s ! i)\<lparr>ch_pc := pc\<rparr>)"
  shows "capnp_server_inv (set_call_pc i pc s)"
  using assms by (auto simp: capnp_server_inv_def nth_list_update)

lemma capnp_server_inv_take:
  assumes "capnp_server_inv s" and "i < length (cp_handlers s)" and "i \<notin> set (cp_taken s)"
    and "cp_accept s = AWaiting ch"
    and "call_ok True (cp_incoming s) ((cp_handlers s ! i)\<lparr>ch_pc := pc\<rparr>)"
  shows "capnp_server_inv ((set_call_pc i pc s)\<lparr>cp_accept := AIdle, cp_taken := cp_taken s @ [i]\<rparr>)"
  using assms by (auto simp: capnp_server_inv_def nth_list_update)

lemma capnp_server_inv_new_call:
  assumes "capnp_server_inv s" and "call_ok False (cp_incoming s) h"
  shows "capnp_server_inv (s\<lparr>cp_handlers := cp_handlers s @ [h]\<rparr>)"
proof -
  have "length (cp_handlers s) \<notin> set (cp_taken s)" using assms(1) by (auto simp: capnp_server_inv_def)
  with assms show ?thesis by (auto simp: capnp_server_inv_def nth_append less_Suc_eq)
qed

lemma CConn_cases:
  assumes "capnp_server_do CConn s = Ret (r, s')"
  obtains (failed) e l where "cp_accept s = AAccepting" "listener_Accept (cp_listener s) = Ret (Inl e, l)"
      "r = Some (Inl e)" "s' = s\<lparr>cp_listener := l, cp_accept := AIdle\<rparr>"
    | (connected) c l where "cp_accept s = AAccepting" "listener_Accept (cp_listener s) = Ret (Inr c, l)"
      "r = None" "s' = s\<lparr>cp_listener := l, cp_rpcConn := Some c, cp_accept := AConnected\<rparr>"
proof -
  from assms have pc: "cp_accept s = AAccepting" by (simp split: if_splits)
  with assms obtain a l where la: "listener_Accept (cp_listener s) = Ret (a, l)"
    by (fastforce simp: go_simps)
  with assms pc that show thesis by (cases a) simp_all
qed

lemma capnp_server_do_inv:
  assumes inv: "capnp_server_inv s" and step: "capnp_server_do ev s = Ret (r, s')"
  shows "capnp_server_inv s'"
proof (cases ev)
  case CAccept
  with inv step show ?thesis by (auto simp: capnp_server_inv_def split: if_splits)
next
  case CConn
  with step have "capnp_server_do CConn s = Ret (r, s')" by simp
  then show ?thesis by (cases rule: CConn_cases) (use inv in \<open>auto simp: capnp_server_inv_def\<close>)
next
  case CChan
  with step have "cp_accept s = AConnected" and s': "s' = s\<lparr>cp_incoming := Suc (cp_incoming s), cp_accept := AWaiting (Suc (cp_incoming s))\<rparr>"
    by (auto simp: Let_def split: if_splits)
  with inv show ?thesis
    by (auto simp: capnp_server_inv_def intro: call_ok_mono [of _ 0])
next
  case (CTake i)
  with step obtain ch where i: "i < length (cp_handlers s)" "ch_pc (cp_handlers s ! i) = COffers ch"
      "cp_accept s = AWaiting ch"
    and s': "s' = (set_call_pc i (CReturned None) s)\<lparr>cp_accept := AIdle, cp_taken := cp_taken s @ [i]\<rparr>"
    by (auto split: if_splits accept_pc.splits)
  from capnp_server_inv_call [OF inv i(1)] i show ?thesis
    unfolding s' by (intro capnp_server_inv_take [OF inv]) (auto simp: call_ok_def)
next
  case CAcceptClosed
  with inv step show ?thesis
    by (auto simp: capnp_server_inv_def split: if_splits accept_pc.splits)
next
  case (CCall alloc setUp calls wres endres)
  with step obtain pc where s': "s' = s\<lparr>cp_handlers := cp_handlers s @
        [\<lparr>ch_stream = newCapnpStream newByteStreamReader calls wres endres, ch_pc = pc\<rparr>]\<rparr>"
      and "pc = CBuilt \<or> (\<exists>e. pc = CReturned (Some e))"
    by (auto simp: Let_def split: if_splits option.splits)
  then show ?thesis
    unfolding s' by (intro capnp_server_inv_new_call [OF inv]) (auto simp: call_ok_def newCapnpStream_def)
next
  case (CEval i)
  with step have i: "i < length (cp_handlers s)" "ch_pc (cp_handlers s ! i) = CBuilt"
    and s': "s' = set_call_pc i (COffers (cp_incoming s)) s"
    by (auto split: if_splits)
  from capnp_server_inv_call [OF inv i(1)] i show ?thesis
    unfolding s' by (intro capnp_server_inv_upd [OF inv]) (auto simp: call_ok_def)
next
  case (CRefused i)
  with inv step show ?thesis by (auto simp: capnp_server_inv_def split: if_splits)
next
  case CClose
  with inv step show ?thesis
    by (auto simp: capnp_server_Close_def go_simps capnp_server_inv_def split: if_splits)
qed

lemma capnp_server_do_ready:
  assumes "capnp_server_inv s" and step: "capnp_server_do ev s = Ret (Some (Inr st), s')"
  shows "close_ready st"
proof (cases ev)
  case CConn
  with step have "capnp_server_do CConn s = Ret (Some (Inr st), s')" by simp
  then show ?thesis by (cases rule: CConn_cases) simp_all
next
  case (CTake i)
  with step have "i < length (cp_handlers s)" "st = CapnpS (ch_stream (cp_handlers s ! i))"
    by (auto split: if_splits accept_pc.splits)
  with capnp_server_inv_call [OF assms(1)] show ?thesis by (auto simp: call_ok_def)
qed (use step in \<open>auto simp: go_simps Let_def split: if_splits accept_pc.splits\<close>)

interpretation capnp_srv: server_machine capnp_server_do capnp_server_inv
  by unfold_locales (rule capnp_server_do_inv, assumption+, rule capnp_server_do_ready)

lemma capnp_server_run_inv:
  "machine_run capnp_server_do es (capnp_NewServerSession l) = Ret (rs, s) \<Longrightarrow> capnp_server_inv s"
  by (rule machine_run_inv [where f = capnp_server_do and P = capnp_server_inv,
      OF capnp_server_do_inv capnp_server_inv_new])

text \<open>The streams of the handlers never change; the event that completes AcceptStream records its.\<close>

definition call_stream :: "capnp_server \<Rightarrow> nat \<Rightarrow> stream" where
  "call_stream s i = CapnpS (ch_stream (cp_handlers s ! i))"

lemma capnp_server_do_streams:
  assumes step: "capnp_server_do ev s = Ret (r, s')" and i: "i < length (cp_handlers s)"
  shows "call_stream s' i = call_stream s i"
proof (cases ev)
  case CConn
  with step have "capnp_server_do CConn s = Ret (r, s')" by simp
  then show ?thesis by (cases rule: CConn_cases) (simp_all add: call_stream_def)
qed (use assms in \<open>auto simp: call_stream_def go_simps capnp_server_Close_def Let_def nth_list_update
    nth_append split: if_splits accept_pc.splits\<close>)

lemma capnp_server_do_taken:
  assumes step: "capnp_server_do ev s = Ret (r, s')"
  obtains (nothing) "cp_taken s' = cp_taken s" "r = None"
    | (failed) e where "cp_taken s' = cp_taken s" "r = Some (Inl e)"
    | (took) i where "i < length (cp_handlers s)" "cp_taken s' = cp_taken s @ [i]"
        "r = Some (Inr (call_stream s i))"
proof (cases ev)
  case CConn
  with step have "capnp_server_do CConn s = Ret (r, s')" by simp
  then show thesis
  proof (cases rule: CConn_cases)
    case (failed e l)
    then show ?thesis using that(2) by simp
  next
    case (connected c l)
    then show ?thesis using that(1) by simp
  qed
qed (use that step in \<open>auto simp: call_stream_def go_simps capnp_server_Close_def Let_def
    split: if_splits accept_pc.splits\<close>)

text \<open>A handler waiting on channel 0 is not served: AcceptStream only ever waits on channel 1.\<close>

lemma lost_step:
  assumes inv: "capnp_server_inv s" and step: "capnp_server_do ev s = Ret (r, s')"
    and i: "i < length (cp_handlers s)" "ch_pc (cp_handlers s ! i) = COffers 0"
  shows "i < length (cp_handlers s') \<and> ch_pc (cp_handlers s' ! i) = COffers 0"
proof (cases ev)
  case CConn
  with step have "capnp_server_do CConn s = Ret (r, s')" by simp
  then show ?thesis by (cases rule: CConn_cases) (use i in simp_all)
next
  case (CTake j)
  with step obtain ch where "ch_pc (cp_handlers s ! j) = COffers ch" "cp_accept s = AWaiting ch"
      and "s' = (set_call_pc j (CReturned None) s)\<lparr>cp_accept := AIdle, cp_taken := cp_taken s @ [j]\<rparr>"
    by (auto split: if_splits accept_pc.splits)
  moreover from this inv i have "j \<noteq> i" by (auto simp: capnp_server_inv_def)
  ultimately show ?thesis using i by simp
next
  case (CRefused j)
  with inv step show ?thesis by (auto simp: capnp_server_inv_def split: if_splits)
qed (use step i in \<open>auto simp: go_simps capnp_server_Close_def Let_def nth_list_update
    nth_append split: if_splits accept_pc.splits\<close>)

lemma lost_run:
  assumes "machine_run capnp_server_do es s = Ret (rs, s')" and "capnp_server_inv s"
    and "i < length (cp_handlers s)" and "ch_pc (cp_handlers s ! i) = COffers 0"
  shows "i < length (cp_handlers s') \<and> ch_pc (cp_handlers s' ! i) = COffers 0 \<and> i \<notin> set (cp_taken s')"
proof -
  let ?P = "\<lambda>s. capnp_server_inv s \<and> i < length (cp_handlers s) \<and> ch_pc (cp_handlers s ! i) = COffers 0"
  have "?P s'"
    by (rule machine_run_inv [where f = capnp_server_do and P = ?P, OF _ _ assms(1)])
      (use assms(2-4) capnp_server_do_inv lost_step in blast)+
  with capnp_server_inv_call [of s' i] show ?thesis by (auto simp: call_ok_def)
qed

text \<open>Accepted connections: bootstrap takes one from the listener, after the errors before it.\<close>

definition one_conn :: "(err + conn) list \<Rightarrow> capnp_server \<Rightarrow> bool" where
  "one_conn as s \<longleftrightarrow> (\<exists>es. as = map Inl es @
     (case cp_rpcConn s of None \<Rightarrow> [] | Some c \<Rightarrow> [Inr c]) @ l_accepts (cp_listener s))"

lemma listener_Accept_accepts:
  "listener_Accept l = Ret (r, l') \<Longrightarrow> l_closes l = 0 \<Longrightarrow> l_accepts l = r # l_accepts l' \<and> l_closes l' = 0"
  by (auto simp: listener_Accept_def split: list.splits)

lemma one_conn_step:
  assumes inv: "capnp_server_inv s" and step: "capnp_server_do ev s = Ret (r, s')"
    and one: "one_conn as s \<and> l_closes (cp_listener s) = 0"
  shows "one_conn as s' \<and> l_closes (cp_listener s') = 0"
proof (cases ev)
  case CConn
  with step have "capnp_server_do CConn s = Ret (r, s')" by simp
  then show ?thesis
  proof (cases rule: CConn_cases)
    case (failed e l)
    with inv have "cp_rpcConn s = None" by (simp add: capnp_server_inv_def)
    with failed one listener_Accept_accepts [OF failed(2)] obtain es
      where "as = map Inl (es @ [e]) @ l_accepts l" "l_closes l = 0"
      by (auto simp: one_conn_def)
    with failed \<open>cp_rpcConn s = None\<close> show ?thesis unfolding one_conn_def by fastforce
  next
    case (connected c l)
    with inv have "cp_rpcConn s = None" by (simp add: capnp_server_inv_def)
    with connected one listener_Accept_accepts [OF connected(2)] show ?thesis by (auto simp: one_conn_def)
  qed
qed (use inv step one in \<open>auto simp: one_conn_def go_simps capnp_server_Close_def capnp_server_inv_def Let_def
    split: if_splits accept_pc.splits\<close>)

subsection \<open>ClientSession\<close>

text \<open>
  The RPC connection is named by the network connection it was made of, and so is the proxy client
  obtained from it. What the call of OpenStream on the proxy gives is an argument: an error of its
  future, or the peer's calls and the results of the own ones. \<open>cc_releases\<close> counts the calls of
  \<open>release\<close> for OpenStream calls that failed.
\<close>

record capnp_client =
  cc_network :: string
  cc_address :: string
  cc_tlsConfig :: "tls_config option"
  cc_rpcConn :: "conn option"
  cc_proxyClient :: "conn option"
  cc_releases :: nat

definition capnp_NewClientSession :: "string \<Rightarrow> string \<Rightarrow> tls_config option \<Rightarrow> capnp_client" where
  "capnp_NewClientSession network address tlsConfig =
     \<lparr>cc_network = network, cc_address = address, cc_tlsConfig = tlsConfig, cc_rpcConn = None,
      cc_proxyClient = None, cc_releases = 0\<rparr>"

type_synonym capnp_stub = "conn option \<Rightarrow> err + (bs_call list \<times> err option list \<times> err option)"

definition capnp_client_bootstrap :: "env \<Rightarrow> capnp_client \<Rightarrow> (err + conn option) \<times> capnp_client" where
  "capnp_client_bootstrap env s =
     (if cc_rpcConn s \<noteq> None then (Inr (cc_proxyClient s), s)
      else
        (let r = (case cc_tlsConfig s of
                    Some cfg \<Rightarrow> env_tls_Dial env (cc_network s) (cc_address s) cfg
                  | None \<Rightarrow> env_Dial env (cc_network s) (cc_address s))
         in case r of
              Inl e \<Rightarrow> (Inl e, s)
            | Inr c \<Rightarrow> (Inr (Some c), s\<lparr>cc_rpcConn := Some c, cc_proxyClient := Some c\<rparr>)))"

text \<open>On success the reader's release is set, so that CloseRead ends the call.\<close>

definition capnp_OpenStream :: "env \<times> capnp_stub \<Rightarrow> (capnp_client, err + capnpStream) action" where
  "capnp_OpenStream lib s =
     (case capnp_client_bootstrap (fst lib) s of
        (Inl e, s') \<Rightarrow> Ret (Inl e, s')
      | (Inr proxy, s') \<Rightarrow>
          (case snd lib proxy of
             Inl e \<Rightarrow> Ret (Inl e, s'\<lparr>cc_releases := Suc (cc_releases s')\<rparr>)
           | Inr (calls, wres, endres) \<Rightarrow>
               Ret (Inr (newCapnpStream (newByteStreamReader\<lparr>bsr_release := Some 0\<rparr>) calls wres endres), s')))"

definition capnp_client_Close :: "(conn \<Rightarrow> err option) \<Rightarrow> (capnp_client, err option) action" where
  "capnp_client_Close closeConn s =
     (case cc_rpcConn s of
        None \<Rightarrow> Ret (None, s)
      | Some c \<Rightarrow> Ret (closeConn c, s\<lparr>cc_rpcConn := None, cc_proxyClient := None\<rparr>))"

definition capnp_client_inv :: "capnp_client \<Rightarrow> bool" where
  "capnp_client_inv s \<longleftrightarrow> cc_rpcConn s = cc_proxyClient s"

lemma capnp_OpenStream_cases:
  assumes "capnp_OpenStream (env, stub) s = Ret (r, s')"
  obtains (no_conn) e where "cc_rpcConn s = None" "r = Inl e" "s' = s"
    | (failed) p s1 e where "capnp_client_bootstrap env s = (Inr p, s1)" "stub p = Inl e" "r = Inl e"
        "s' = s1\<lparr>cc_releases := Suc (cc_releases s1)\<rparr>"
    | (opened) p calls wres endres where "capnp_client_bootstrap env s = (Inr p, s')"
        "stub p = Inr (calls, wres, endres)"
        "r = Inr (newCapnpStream (newByteStreamReader\<lparr>bsr_release := Some 0\<rparr>) calls wres endres)"
proof -
  obtain b s1 where bs: "capnp_client_bootstrap env s = (b, s1)" by (metis prod.exhaust)
  consider e where "b = Inl e" | p e where "b = Inr p" "stub p = Inl e"
    | p calls wres endres where "b = Inr p" "stub p = Inr (calls, wres, endres)"
    by (metis obj_sumE prod.exhaust)
  then show thesis
  proof cases
    case (1 e)
    with bs have "cc_rpcConn s = None" "s1 = s"
      by (auto simp: capnp_client_bootstrap_def Let_def split: if_splits sum.splits option.splits)
    moreover from 1 bs assms have "r = Inl e" "s' = s1" by (simp_all add: capnp_OpenStream_def)
    ultimately show thesis by (intro no_conn) simp_all
  next
    case (2 p e)
    with bs assms have "r = Inl e" "s' = s1\<lparr>cc_releases := Suc (cc_releases s1)\<rparr>"
      by (simp_all add: capnp_OpenStream_def)
    with 2 bs show thesis by (intro failed) simp_all
  next
    case (3 p calls wres endres)
    with bs assms have "r = Inr (newCapnpStream (newByteStreamReader\<lparr>bsr_release := Some 0\<rparr>) calls wres endres)"
        "s' = s1"
      by (simp_all add: capnp_OpenStream_def)
    with 3 bs show thesis by (intro opened) simp_all
  qed
qed

lemma capnp_bootstrap_inv:
  "capnp_client_bootstrap env s = (Inr p, s1) \<Longrightarrow> capnp_client_inv s \<Longrightarrow>
   capnp_client_inv s1 \<and> cc_rpcConn s1 = p \<and> p \<noteq> None"
  by (cases "cc_rpcConn s")
    (auto simp: capnp_client_bootstrap_def capnp_client_inv_def Let_def split: sum.splits option.splits)

lemma capnp_OpenStream_inv:
  assumes "capnp_client_inv s" and "capnp_OpenStream lib s = Ret (r, s')"
  shows "capnp_client_inv s'"
proof -
  obtain env stub where lib: "lib = (env, stub)" by (cases lib)
  show ?thesis
    using assms(2) [unfolded lib]
  proof (cases rule: capnp_OpenStream_cases)
    case (failed p s1 e)
    with capnp_bootstrap_inv [OF failed(1) assms(1)] show ?thesis by (simp add: capnp_client_inv_def)
  qed (use assms(1) capnp_bootstrap_inv in blast)+
qed

definition capnp_client_open :: "env \<times> capnp_stub \<Rightarrow> (capnp_client, err + stream) action" where
  "capnp_client_open lib s = then_do (capnp_OpenStream lib s) (\<lambda>(r, s'). Ret (map_sum id CapnpS r, s'))"

interpretation capnp_cli: client_machine capnp_client_open capnp_client_inv
proof unfold_locales
  show "capnp_client_inv s'" if "capnp_client_inv s" "capnp_client_open a s = Ret (r, s')" for s a r s'
    using that by (auto simp: capnp_client_open_def go_simps intro: capnp_OpenStream_inv)
  show "close_ready st" if "capnp_client_open a s = Ret (Inr st, s')" for s a st s'
  proof -
    obtain env stub where a: "a = (env, stub)" by (cases a)
    from that obtain x where x: "capnp_OpenStream (env, stub) s = Ret (Inr x, s')" "st = CapnpS x"
      by (auto simp: capnp_client_open_def go_simps a)
    from x(1) show ?thesis
      by (cases rule: capnp_OpenStream_cases) (use x(2) in \<open>auto simp: newCapnpStream_def\<close>)
  qed
qed

subsection \<open>Properties\<close>

text \<open>
  C29. The Cap'n Proto server session hands out the stream of every OpenStream call at most once, in
  the order of the accepts, and AcceptStream returns no other stream.
\<close>

theorem capnp_server_accepts_once:
  assumes "machine_run capnp_server_do es (capnp_NewServerSession l) = Ret (rs, s)"
  shows "accepted rs = map (\<lambda>i. CapnpS (ch_stream (cp_handlers s ! i))) (cp_taken s) \<and>
    distinct (cp_taken s) \<and> set (cp_taken s) \<subseteq> {..<length (cp_handlers s)}"
proof -
  let ?P = "\<lambda>rs s. capnp_server_inv s \<and> accepted rs = map (call_stream s) (cp_taken s)"
  have "?P ([] @ rs) s"
  proof (rule machine_run_results_inv [where P = ?P and f = capnp_server_do, OF _ _ assms])
    fix ev s r s' rs
    assume P: "?P rs s" and step: "capnp_server_do ev s = Ret (r, s')"
    then have "\<forall>i \<in> set (cp_taken s). i < length (cp_handlers s)" by (auto simp: capnp_server_inv_def)
    with capnp_server_do_streams [OF step] P
    have keep: "accepted rs = map (call_stream s') (cp_taken s)" by simp
    have inv: "capnp_server_inv s'" using capnp_server_do_inv [OF _ step] P by blast
    from step show "?P (case r of None \<Rightarrow> rs | Some x \<Rightarrow> rs @ [x]) s'"
      by (cases rule: capnp_server_do_taken) (use keep inv capnp_server_do_streams [OF step] in auto)
  qed (simp_all add: capnp_server_inv_new, simp add: capnp_NewServerSession_def)
  then show ?thesis by (auto simp: capnp_server_inv_def call_stream_def [abs_def])
qed

text \<open>
  C37. The Cap'n Proto server serves one network connection in its life: bootstrap takes the first
  connection the listener accepts, after the errors before it, and every later client stays in the
  listener's queue.
\<close>

theorem capnp_server_one_connection:
  assumes "machine_run capnp_server_do es (capnp_NewServerSession l) = Ret (rs, s)" and "l_closes l = 0"
  shows "\<exists>fs. l_accepts l = map Inl fs @
    (case cp_rpcConn s of None \<Rightarrow> [] | Some c \<Rightarrow> [Inr c]) @ l_accepts (cp_listener s)"
proof -
  let ?P = "\<lambda>s. capnp_server_inv s \<and> one_conn (l_accepts l) s \<and> l_closes (cp_listener s) = 0"
  have start: "?P (capnp_NewServerSession l)"
    using assms(2) capnp_server_inv_new by (simp add: one_conn_def capnp_NewServerSession_def)
  have "?P s"
    by (rule machine_run_inv [where f = capnp_server_do and P = ?P, OF _ start assms(1)])
      (use capnp_server_do_inv one_conn_step in blast)
  then show ?thesis by (simp add: one_conn_def)
qed

text \<open>
  C36. An OpenStream call that reads s.incoming between rpc.NewConn and bootstrap's new channel is
  lost: its stream is never accepted and its handler never returns, whatever happens later.
\<close>

theorem capnp_server_lost_call:
  assumes "machine_run capnp_server_do es (capnp_NewServerSession l) = Ret (rs, s)"
    and "i < length (cp_handlers s)" and "ch_pc (cp_handlers s ! i) = COffers 0"
    and "machine_run capnp_server_do es' s = Ret (rs', s')"
  shows "ch_pc (cp_handlers s' ! i) = COffers 0 \<and> i \<notin> set (cp_taken s')"
  using lost_run [OF assms(4) capnp_server_run_inv [OF assms(1)] assms(2,3)] by blast

text \<open>
  C38. closedCh of the Cap'n Proto server is never made: AcceptStream's case for it never fires, so
  no AcceptStream returns os.ErrClosed through it, and Close panics as soon as there is a
  connection.
\<close>

theorem capnp_server_close_panics:
  assumes "machine_run capnp_server_do es (capnp_NewServerSession l) = Ret (rs, s)"
  shows "capnp_server_do CAcceptClosed s = Blocked \<and>
    (if mu_held s then capnp_server_do CClose s = Blocked
     else if cp_rpcConn s = None then capnp_server_do CClose s = Ret (None, s)
     else capnp_server_do CClose s = Panic ''close of nil channel'')"
  using capnp_server_run_inv [OF assms]
  by (auto simp: capnp_server_inv_def capnp_server_Close_def listener_Close_def split: accept_pc.splits)

text \<open>
  The Cap'n Proto client connects once: after a successful OpenStream the next one makes its call
  on the same connection, whatever dialling would give; a call that fails releases its question and
  keeps the connection.
\<close>

theorem capnp_client_connects_once:
  assumes "capnp_client_inv s" and "capnp_OpenStream lib s = Ret (Inr st, s1)"
  shows "\<exists>c. cc_rpcConn s1 = Some c \<and> bsr_release (cs_reader st) = Some 0 \<and>
    (\<forall>env2 stub2. capnp_OpenStream (env2, stub2) s1 =
       (case stub2 (Some c) of
          Inl e \<Rightarrow> Ret (Inl e, s1\<lparr>cc_releases := Suc (cc_releases s1)\<rparr>)
        | Inr (calls, wres, endres) \<Rightarrow>
            Ret (Inr (newCapnpStream (newByteStreamReader\<lparr>bsr_release := Some 0\<rparr>) calls wres endres), s1)))"
proof -
  obtain env stub where lib: "lib = (env, stub)" by (cases lib)
  from assms(2) [unfolded lib] obtain p where p: "capnp_client_bootstrap env s = (Inr p, s1)"
    and rel: "bsr_release (cs_reader st) = Some 0"
    by (cases rule: capnp_OpenStream_cases) (auto simp: newCapnpStream_def)
  note b = capnp_bootstrap_inv [OF p assms(1)]
  then obtain c where c: "cc_rpcConn s1 = Some c" by auto
  with b have c: "cc_rpcConn s1 = Some c" "cc_proxyClient s1 = Some c"
    by (simp_all add: capnp_client_inv_def)
  then have "capnp_client_bootstrap env2 s1 = (Inr (Some c), s1)" for env2
    by (simp add: capnp_client_bootstrap_def)
  with c rel show ?thesis by (auto simp: capnp_OpenStream_def split: sum.splits prod.splits)
qed

text \<open>
  Runs for the witnesses: a call that arrives after the new channel is made is accepted; one that
  arrives before is lost.
\<close>

definition sample_listener :: listener where
  "sample_listener =
     \<lparr>l_accepts = [Inr (new_conn TCPConn [] []), Inr (new_conn TCPConn [] [])], l_close_res = None, l_closes = 0\<rparr>"

lemmas capnp_run_eval = capnp_NewServerSession_def sample_listener_def listener_Accept_def set_call_pc_def Let_def

lemma capnp_sample_run:
  "\<exists>rs s. machine_run capnp_server_do
       [CAccept, CConn, CChan, CCall None None [] [] None, CEval 0, CTake 0]
       (capnp_NewServerSession sample_listener) = Ret (rs, s) \<and>
     cp_taken s = [0] \<and> cp_rpcConn s \<noteq> None \<and> \<not> mu_held s"
  by (simp add: capnp_run_eval mu_held_def)

lemma capnp_lost_run:
  "\<exists>rs s. machine_run capnp_server_do [CAccept, CConn, CCall None None [] [] None, CEval 0, CChan]
       (capnp_NewServerSession sample_listener) = Ret (rs, s) \<and>
     length (cp_handlers s) = 1 \<and> ch_pc (cp_handlers s ! 0) = COffers 0 \<and> cp_accept s = AWaiting 1"
  by (simp add: capnp_run_eval)

theorem capnp_server_accepts_once_witness:
  "\<exists>es rs s. machine_run capnp_server_do es (capnp_NewServerSession sample_listener) = Ret (rs, s) \<and>
     accepted rs = [CapnpS (ch_stream (cp_handlers s ! 0))]"
proof -
  obtain es rs s where r: "machine_run capnp_server_do es (capnp_NewServerSession sample_listener) = Ret (rs, s)"
      "cp_taken s = [0]"
    using capnp_sample_run by blast
  from capnp_server_accepts_once [OF r(1)] r show ?thesis by auto
qed

theorem capnp_server_one_connection_witness:
  "\<exists>es rs s c. machine_run capnp_server_do es (capnp_NewServerSession sample_listener) = Ret (rs, s) \<and>
     cp_rpcConn s = Some c \<and> length (l_accepts (cp_listener s)) = 1"
proof -
  obtain es rs s c where r: "machine_run capnp_server_do es (capnp_NewServerSession sample_listener) = Ret (rs, s)"
      "cp_rpcConn s = Some c"
    using capnp_sample_run by blast
  have open': "l_closes sample_listener = 0" by (simp add: sample_listener_def)
  from capnp_server_one_connection [OF r(1) open'] r(2) obtain fs where
      "l_accepts sample_listener = map Inl fs @ Inr c # l_accepts (cp_listener s)"
    by auto
  then have "l_accepts (cp_listener s) = [Inr (new_conn TCPConn [] [])]"
    by (cases fs) (auto simp: sample_listener_def intro: sym)
  then have "length (l_accepts (cp_listener s)) = 1" by simp
  with r show ?thesis by blast
qed

theorem capnp_server_lost_call_witness:
  "\<exists>es rs s. machine_run capnp_server_do es (capnp_NewServerSession sample_listener) = Ret (rs, s) \<and>
     cp_accept s = AWaiting 1 \<and> ch_pc (cp_handlers s ! 0) = COffers 0 \<and> 0 \<notin> set (cp_taken s)"
proof -
  obtain es rs s where r: "machine_run capnp_server_do es (capnp_NewServerSession sample_listener) = Ret (rs, s)"
      "length (cp_handlers s) = 1" "ch_pc (cp_handlers s ! 0) = COffers 0" "cp_accept s = AWaiting 1"
    using capnp_lost_run by blast
  have "0 < length (cp_handlers s)" and none: "machine_run capnp_server_do [] s = Ret ([], s)"
    using r(2) by simp_all
  from capnp_server_lost_call [OF r(1) this(1) r(3) none] r show ?thesis by blast
qed

theorem capnp_server_close_panics_witness:
  "\<exists>es rs s. machine_run capnp_server_do es (capnp_NewServerSession sample_listener) = Ret (rs, s) \<and>
     capnp_server_do CClose s = Panic ''close of nil channel''"
proof -
  obtain es rs s where r: "machine_run capnp_server_do es (capnp_NewServerSession sample_listener) = Ret (rs, s)"
      "cp_rpcConn s \<noteq> None" "\<not> mu_held s"
    using capnp_sample_run by blast
  from capnp_server_close_panics [OF r(1)] r show ?thesis by auto
qed

theorem capnp_client_connects_once_witness:
  "\<exists>st s1. capnp_OpenStream (sample_env, \<lambda>_. Inr ([], [], None)) (capnp_NewClientSession ''tcp'' ''a:1'' None) =
     Ret (Inr st, s1) \<and>
     capnp_OpenStream (sample_env, \<lambda>_. Inl ErrClosed) s1 = Ret (Inl ErrClosed, s1\<lparr>cc_releases := 1\<rparr>)"
proof -
  let ?s = "capnp_NewClientSession ''tcp'' ''a:1'' None"
  have inv: "capnp_client_inv ?s" by (simp add: capnp_client_inv_def capnp_NewClientSession_def)
  obtain st s1 where op: "capnp_OpenStream (sample_env, \<lambda>_. Inr ([], [], None)) ?s = Ret (Inr st, s1)"
      and "cc_releases s1 = 0"
    by (simp add: capnp_OpenStream_def capnp_client_bootstrap_def capnp_NewClientSession_def sample_env_def Let_def)
  with capnp_client_connects_once [OF inv op] show ?thesis by auto
qed

end
