(* ===== verification/MdSession.thy ===== *)
theory MdSession
  imports Sessions
begin

text \<open>
  The sessions of mdcapnp/mdcapnp_net.go. The server session implements the Proxy capability (Call)
  and hands the streams its goroutines offer to AcceptStream; Close stops the vat and waits for the
  result of its run. The RPC library is a parameter: which calls arrive, what sending a response
  returns, how and when the vat's run ends, what the client's futures give.
\<close>

subsection \<open>ServerSession\<close>

text \<open>
  A ByteStream capability sent by the peer: how the calls made on it will end; and the calls the
  peer will make on the one it gets back.
\<close>

type_synonym bs_peer = "(err + bytes) md_call list \<times> err option list \<times> err option list"

text \<open>A goroutine that Call starts: in the send of its stream on nextStream, or over.\<close>

datatype send_pc = Sending | Sent

record stream_sender =
  sn_stream :: streamImpl
  sn_pc :: send_pc

text \<open>
  \<open>mv_senders\<close> are the goroutines Call has started; \<open>mv_taken\<close> records whose streams AcceptStream has
  received, in order. The listener is the vat's, which runs on it from the start. \<open>mv_cancelled\<close> is
  runCtx, \<open>mv_runChan\<close> the one-place buffer of runChan; \<open>mv_closing\<close> counts callers of Close that wait,
  \<open>mv_closed\<close> what the others returned.
\<close>

record md_server =
  mv_listener :: listener
  mv_senders :: "stream_sender list"
  mv_taken :: "nat list"
  mv_cancelled :: bool
  mv_run_ended :: bool
  mv_runChan :: "err option option"
  mv_closing :: nat
  mv_closed :: "err option list"

definition md_NewServerSession :: "listener \<Rightarrow> md_server" where
  "md_NewServerSession l =
     \<lparr>mv_listener = l, mv_senders = [], mv_taken = [], mv_cancelled = False, mv_run_ended = False, mv_runChan = None,
      mv_closing = 0, mv_closed = []\<rparr>"

text \<open>
  Call: the error returned to the caller, if any. The text of the wrapped error is the fixed part
  of the format. \<open>respond\<close> is what RespondAsSenderHostedCap returns.
\<close>

definition md_server_Call :: "err option \<Rightarrow> (err + bs_peer) md_call \<Rightarrow> md_server \<Rightarrow> err option \<times> md_server" where
  "md_server_Call respond cc s =
     (if mc_iid cc \<noteq> Proxy_InterfaceId then (Some (Errorf ''unknown interface''), s)
      else if mc_mid cc = Proxy_OpenStream_MethodId then
        (case mc_params cc of
           Inl e \<Rightarrow> (Some (Errorf ''unable to get 'down' arg''), s)
         | Inr (calls, wres, endres) \<Rightarrow>
             (respond, s\<lparr>mv_senders := mv_senders s @
                [\<lparr>sn_stream = newStreamImpl newByteStreamServer calls wres endres, sn_pc = Sending\<rparr>]\<rparr>))
      else (Some (Errorf ''unknown method''), s))"

text \<open>
  The events: a call served; the two cases of AcceptStream's select, \<open>MTake i\<close> being the receive of what
  goroutine \<open>i\<close> sends, which ends its send; Close called and returned; the vat's run ending.
\<close>

datatype md_event =
    MCall "err option" "(err + bs_peer) md_call"
  | MTake nat
  | MAcceptDone
  | MClose
  | MCloseReturns
  | MRunEnds "err option"

fun md_server_do :: "md_event \<Rightarrow> md_server \<Rightarrow> ((err + stream) option \<times> md_server) outcome" where
  "md_server_do (MCall respond cc) s =
     (if mv_run_ended s then Blocked else Ret (None, snd (md_server_Call respond cc s)))"
| "md_server_do (MTake i) s =
     (if i < length (mv_senders s) \<and> sn_pc (mv_senders s ! i) = Sending
      then Ret (Some (Inr (MdS (sn_stream (mv_senders s ! i)))),
             s\<lparr>mv_senders := (mv_senders s)[i := (mv_senders s ! i)\<lparr>sn_pc := Sent\<rparr>], mv_taken := mv_taken s @ [i]\<rparr>)
      else Blocked)"
| "md_server_do MAcceptDone s = (if mv_cancelled s then Ret (Some (Inl ErrCanceled), s) else Blocked)"
| "md_server_do MClose s = Ret (None, s\<lparr>mv_cancelled := True, mv_closing := Suc (mv_closing s)\<rparr>)"
| "md_server_do MCloseReturns s =
     (case mv_runChan s of
        None \<Rightarrow> Blocked
      | Some e \<Rightarrow>
          if mv_closing s = 0 then Blocked
          else Ret (None, s\<lparr>mv_runChan := None, mv_closing := mv_closing s - 1, mv_closed := mv_closed s @ [e]\<rparr>))"
| "md_server_do (MRunEnds e) s =
     (if mv_run_ended s then Blocked else Ret (None, s\<lparr>mv_run_ended := True, mv_runChan := Some e\<rparr>))"

text \<open>A goroutine's send is over exactly when its stream was received.\<close>

definition md_server_inv :: "md_server \<Rightarrow> bool" where
  "md_server_inv s \<longleftrightarrow>
     distinct (mv_taken s) \<and> set (mv_taken s) \<subseteq> {..<length (mv_senders s)} \<and>
     (\<forall>i < length (mv_senders s). sn_pc (mv_senders s ! i) = Sent \<longleftrightarrow> i \<in> set (mv_taken s)) \<and>
     length (mv_closed s) + (if mv_runChan s = None then 0 else 1) = (if mv_run_ended s then 1 else 0) \<and>
     (0 < mv_closing s \<or> mv_closed s \<noteq> [] \<longrightarrow> mv_cancelled s)"

lemma md_server_inv_new: "md_server_inv (md_NewServerSession l)"
  by (simp add: md_server_inv_def md_NewServerSession_def)

lemma md_server_Call_cases:
  obtains (refused) e where "md_server_Call respond cc s = (Some e, s)"
    | (opened) calls wres endres where "mc_params cc = Inr (calls, wres, endres)"
        "md_server_Call respond cc s =
           (respond, s\<lparr>mv_senders := mv_senders s @
             [\<lparr>sn_stream = newStreamImpl newByteStreamServer calls wres endres, sn_pc = Sending\<rparr>]\<rparr>)"
proof (cases "mc_iid cc = Proxy_InterfaceId \<and> mc_mid cc = Proxy_OpenStream_MethodId")
  case True
  show thesis
  proof (cases "mc_params cc")
    case (Inl e)
    with True show thesis by (intro refused) (simp add: md_server_Call_def)
  next
    case (Inr x)
    obtain calls wres endres where "x = (calls, wres, endres)" by (metis prod.exhaust)
    with True Inr show thesis by (intro opened) (simp_all add: md_server_Call_def)
  qed
next
  case False
  then show thesis by (cases "mc_iid cc = Proxy_InterfaceId") (auto simp: md_server_Call_def intro: refused)
qed

lemma md_server_inv_append:
  assumes "md_server_inv s"
  shows "md_server_inv (s\<lparr>mv_senders := mv_senders s @ [\<lparr>sn_stream = st, sn_pc = Sending\<rparr>]\<rparr>)"
proof -
  have "length (mv_senders s) \<notin> set (mv_taken s)" using assms by (auto simp: md_server_inv_def)
  with assms show ?thesis by (auto simp: md_server_inv_def nth_append less_Suc_eq)
qed

lemma md_server_inv_take:
  assumes "md_server_inv s" and "i < length (mv_senders s)" and "sn_pc (mv_senders s ! i) = Sending"
  shows "md_server_inv (s\<lparr>mv_senders := (mv_senders s)[i := (mv_senders s ! i)\<lparr>sn_pc := Sent\<rparr>],
    mv_taken := mv_taken s @ [i]\<rparr>)"
proof -
  have "i \<notin> set (mv_taken s)" using assms by (auto simp: md_server_inv_def)
  with assms show ?thesis by (auto simp: md_server_inv_def nth_list_update)
qed

lemma md_server_do_inv:
  assumes inv: "md_server_inv s" and step: "md_server_do ev s = Ret (r, s')"
  shows "md_server_inv s'"
proof (cases ev)
  case (MCall respond cc)
  then have s': "s' = snd (md_server_Call respond cc s)" using step by (simp split: if_splits)
  show ?thesis
    by (cases rule: md_server_Call_cases [of respond cc s]) (use inv s' md_server_inv_append in simp_all)
next
  case (MTake i)
  with step have "i < length (mv_senders s)" "sn_pc (mv_senders s ! i) = Sending"
      "s' = s\<lparr>mv_senders := (mv_senders s)[i := (mv_senders s ! i)\<lparr>sn_pc := Sent\<rparr>], mv_taken := mv_taken s @ [i]\<rparr>"
    by (auto split: if_splits)
  with md_server_inv_take [OF inv] show ?thesis by simp
next
  case MAcceptDone
  with step have "s' = s" by (simp split: if_splits)
  with inv show ?thesis by simp
next
  case MClose
  with step have "s' = s\<lparr>mv_cancelled := True, mv_closing := Suc (mv_closing s)\<rparr>" by simp
  with inv show ?thesis by (simp add: md_server_inv_def)
next
  case MCloseReturns
  with step obtain e where "mv_runChan s = Some e" "0 < mv_closing s"
      "s' = s\<lparr>mv_runChan := None, mv_closing := mv_closing s - 1, mv_closed := mv_closed s @ [e]\<rparr>"
    by (auto split: option.splits if_splits)
  with inv show ?thesis by (simp add: md_server_inv_def)
next
  case (MRunEnds e)
  with step have "\<not> mv_run_ended s" "s' = s\<lparr>mv_run_ended := True, mv_runChan := Some e\<rparr>"
    by (simp_all split: if_splits)
  with inv show ?thesis by (simp add: md_server_inv_def split: if_splits)
qed

interpretation md_srv: server_machine md_server_do md_server_inv
proof unfold_locales
  show "close_ready st" if "md_server_do ev s = Ret (Some (Inr st), s')" for s ev st s'
    using that by (cases ev) (auto split: if_splits option.splits)
qed (rule md_server_do_inv)

text \<open>
  The streams that the calls of a run open, one per OpenStream call with a good argument, in order;
  and how an event changes the goroutines' streams and what was received of them.
\<close>

fun opened_by :: "md_event list \<Rightarrow> streamImpl list" where
  "opened_by [] = []"
| "opened_by (MCall respond cc # es) =
     (if mc_iid cc = Proxy_InterfaceId \<and> mc_mid cc = Proxy_OpenStream_MethodId then
        (case mc_params cc of
           Inl e \<Rightarrow> opened_by es
         | Inr (calls, wres, endres) \<Rightarrow> newStreamImpl newByteStreamServer calls wres endres # opened_by es)
      else opened_by es)"
| "opened_by (ev # es) = opened_by es"

lemma opened_by_Cons: "opened_by (ev # es) = opened_by [ev] @ opened_by es"
  by (cases ev) (auto split: sum.split)

definition sender_streams :: "md_server \<Rightarrow> streamImpl list" where
  "sender_streams s = map sn_stream (mv_senders s)"

lemma md_server_Call_streams:
  "sender_streams (snd (md_server_Call respond cc s)) = sender_streams s @ opened_by [MCall respond cc]"
  by (auto simp: md_server_Call_def sender_streams_def md_ids split: sum.split)

lemma map_sender_upd [simp]:
  "map sn_stream (xs[i := (xs ! i)\<lparr>sn_pc := pc\<rparr>]) = map sn_stream xs"
proof (cases "i < length xs")
  case True
  then have "(map sn_stream xs)[i := sn_stream (xs ! i)] = map sn_stream xs"
    using list_update_id [of "map sn_stream xs" i] by simp
  then show ?thesis by (simp add: map_update)
qed (simp add: list_update_beyond)

lemma md_server_do_streams:
  assumes "md_server_do ev s = Ret (r, s')"
  shows "sender_streams s' = sender_streams s @ opened_by [ev]"
proof (cases ev)
  case (MCall respond cc)
  with assms have "s' = snd (md_server_Call respond cc s)" by (simp split: if_splits)
  with MCall md_server_Call_streams show ?thesis by metis
qed (use assms in \<open>auto simp: sender_streams_def split: if_splits option.splits\<close>)

lemma md_server_do_taken:
  assumes "md_server_do ev s = Ret (r, s')"
  obtains (nothing) "mv_taken s' = mv_taken s" "r = None"
    | (failed) e where "mv_taken s' = mv_taken s" "r = Some (Inl e)"
    | (took) i where "i < length (mv_senders s)" "mv_taken s' = mv_taken s @ [i]"
        "r = Some (Inr (MdS (sn_stream (mv_senders s ! i))))"
proof (cases ev)
  case (MCall respond cc)
  then have s': "s' = snd (md_server_Call respond cc s)" and r: "r = None"
    using assms by (simp_all split: if_splits)
  have "mv_taken s' = mv_taken s"
    by (cases rule: md_server_Call_cases [of respond cc s]) (use s' in auto)
  then show thesis using r by (rule nothing)
next
  case (MTake i)
  with assms that(3) [of i] show thesis by (auto split: if_splits)
next
  case MAcceptDone
  with assms that(2) show thesis by (auto split: if_splits)
qed (use assms that(1) in \<open>auto split: if_splits option.splits\<close>)

text \<open>A run received, of the streams its calls opened, those its takes name.\<close>

lemma md_server_run_streams:
  "machine_run md_server_do es s = Ret (rs, s') \<Longrightarrow> sender_streams s' = sender_streams s @ opened_by es"
proof (induction es arbitrary: s rs)
  case (Cons ev es)
  from Cons.prems show ?case
    by (rule machine_run_Cons) (use Cons.IH md_server_do_streams opened_by_Cons in \<open>metis append_assoc\<close>)
qed simp

lemma md_server_run_inv:
  "machine_run md_server_do es (md_NewServerSession l) = Ret (rs, s) \<Longrightarrow> md_server_inv s"
  by (rule machine_run_inv [where f = md_server_do and P = md_server_inv,
      OF md_server_do_inv md_server_inv_new])

subsection \<open>ClientSession\<close>

text \<open>
  The proxy is named by the network connection it came from. Dialling is the environment's; what
  waiting for the bootstrap capability gives and what the OpenStream call gives are arguments.
  \<open>mcl_dropped\<close> records connections that were dialled and are no longer referred to.
\<close>

record md_client =
  mcl_network :: string
  mcl_address :: string
  mcl_tlsConfig :: "tls_config option"
  mcl_proxy :: "conn option"
  mcl_conn :: "conn option"
  mcl_dropped :: "conn list"
  mcl_cancelled :: bool
  mcl_runChan :: "err option option"

definition md_NewClientSession :: "string \<Rightarrow> string \<Rightarrow> tls_config option \<Rightarrow> md_client" where
  "md_NewClientSession network address tlsConfig =
     \<lparr>mcl_network = network, mcl_address = address, mcl_tlsConfig = tlsConfig, mcl_proxy = None,
      mcl_conn = None, mcl_dropped = [], mcl_cancelled = False, mcl_runChan = None\<rparr>"

definition md_connect :: "env \<Rightarrow> (conn \<Rightarrow> err option) \<Rightarrow> md_client \<Rightarrow> err option \<times> md_client" where
  "md_connect env wait s =
     (let r = (case mcl_tlsConfig s of
                 Some cfg \<Rightarrow> env_tls_Dial env (mcl_network s) (mcl_address s) cfg
               | None \<Rightarrow> env_Dial env (mcl_network s) (mcl_address s))
      in case r of
           Inl e \<Rightarrow> (Some e, s)
         | Inr c \<Rightarrow>
             (case wait c of
                Some e \<Rightarrow> (Some e, s\<lparr>mcl_dropped := mcl_dropped s @ [c]\<rparr>)
              | None \<Rightarrow> (None, s\<lparr>mcl_proxy := Some c, mcl_conn := Some c\<rparr>)))"

type_synonym md_lib = "env \<times> (conn \<Rightarrow> err option) \<times> (conn option \<Rightarrow> err + bs_peer)"

definition md_OpenStream :: "md_lib \<Rightarrow> (md_client, err + streamImpl) action" where
  "md_OpenStream lib s =
     (case lib of (env, wait, stub) \<Rightarrow>
       (let (err, s') = (if mcl_conn s = None then md_connect env wait s else (None, s));
            proxy = mcl_proxy s'
        in case err of
             Some e \<Rightarrow> Ret (Inl e, s')
           | None \<Rightarrow>
               (case stub proxy of
                  Inl e \<Rightarrow> Ret (Inl e, s')
                | Inr (calls, wres, endres) \<Rightarrow>
                    Ret (Inr (newStreamImpl newByteStreamServer calls wres endres), s'))))"

text \<open>
  Close stops the vat, which takes effect at once, and then waits for the result of its run, sent
  once.
\<close>

definition md_client_stopRun :: "md_client \<Rightarrow> md_client" where
  "md_client_stopRun s = s\<lparr>mcl_cancelled := True\<rparr>"

definition md_client_awaitRun :: "(md_client, err option) action" where
  "md_client_awaitRun s =
     (case mcl_runChan s of
        None \<Rightarrow> Blocked
      | Some e \<Rightarrow> Ret (e, s\<lparr>mcl_runChan := None\<rparr>))"

definition md_client_Close :: "(md_client, err option) action" where
  "md_client_Close s = md_client_awaitRun (md_client_stopRun s)"

definition md_client_open :: "md_lib \<Rightarrow> (md_client, err + stream) action" where
  "md_client_open lib s = then_do (md_OpenStream lib s) (\<lambda>(r, s'). Ret (map_sum id MdS r, s'))"

interpretation md_cli: client_machine md_client_open "\<lambda>_. True"
  by unfold_locales (auto simp: md_client_open_def go_simps)

lemma md_connect_cases:
  obtains (no_dial) e where "md_connect env wait s = (Some e, s)"
    | (no_cap) c e where "wait c = Some e" "md_connect env wait s = (Some e, s\<lparr>mcl_dropped := mcl_dropped s @ [c]\<rparr>)"
    | (connected) c where "wait c = None" "md_connect env wait s = (None, s\<lparr>mcl_proxy := Some c, mcl_conn := Some c\<rparr>)"
proof -
  let ?r = "case mcl_tlsConfig s of
        Some cfg \<Rightarrow> env_tls_Dial env (mcl_network s) (mcl_address s) cfg
      | None \<Rightarrow> env_Dial env (mcl_network s) (mcl_address s)"
  consider e where "?r = Inl e" | c e where "?r = Inr c" "wait c = Some e" | c where "?r = Inr c" "wait c = None"
    by (metis obj_sumE option.exhaust)
  then show thesis
  proof cases
    case (1 e)
    then show thesis by (intro no_dial [of e]) (simp add: md_connect_def)
  next
    case (2 c e)
    then show thesis by (intro no_cap [of c e]) (simp_all add: md_connect_def)
  next
    case (3 c)
    then show thesis by (intro connected [of c]) (simp_all add: md_connect_def)
  qed
qed

subsection \<open>Properties\<close>

text \<open>
  The Proxy capability's Call: a call to another interface or method, or with a bad argument, is
  answered with its error and changes nothing; OpenStream offers exactly one new stream, made of a
  fresh byteStreamServer (the capability it returns) and the client's ByteStream.
\<close>

lemma md_server_Call_dispatch:
  "md_server_Call respond cc s =
     (if mc_iid cc = 0x1701c \<and> mc_mid cc = 0x2001 then
        (case mc_params cc of
           Inr (calls, wres, endres) \<Rightarrow>
             (respond, s\<lparr>mv_senders := mv_senders s @
               [\<lparr>sn_stream = newStreamImpl newByteStreamServer calls wres endres, sn_pc = Sending\<rparr>]\<rparr>)
         | Inl e \<Rightarrow> (Some (Errorf ''unable to get 'down' arg''), s))
      else if mc_iid cc = 0x1701c then (Some (Errorf ''unknown method''), s)
      else (Some (Errorf ''unknown interface''), s))"
  by (auto simp: md_server_Call_def md_ids split: sum.splits)

lemma md_server_run_accepted:
  assumes "machine_run md_server_do es (md_NewServerSession l) = Ret (rs, s)"
  shows "md_server_inv s \<and> accepted rs = map (\<lambda>i. MdS (sender_streams s ! i)) (mv_taken s)"
proof -
  let ?P = "\<lambda>rs s. md_server_inv s \<and> accepted rs = map (\<lambda>i. MdS (sender_streams s ! i)) (mv_taken s)"
  have "?P ([] @ rs) s"
  proof (rule machine_run_results_inv [where P = ?P and f = md_server_do, OF _ _ assms])
    fix ev s r s' rs
    assume P: "?P rs s" and step: "md_server_do ev s = Ret (r, s')"
    note streams = md_server_do_streams [OF step]
    have same: "sender_streams s' ! i = sender_streams s ! i" if "i < length (mv_senders s)" for i
      using that streams by (simp add: nth_append) (simp add: sender_streams_def)
    have "\<forall>i \<in> set (mv_taken s). i < length (mv_senders s)" using P by (auto simp: md_server_inv_def)
    with same P have keep: "accepted rs = map (\<lambda>i. MdS (sender_streams s' ! i)) (mv_taken s)" by simp
    have inv: "md_server_inv s'" using md_server_do_inv [OF _ step] P by blast
    from step show "?P (case r of None \<Rightarrow> rs | Some x \<Rightarrow> rs @ [x]) s'"
    proof (cases rule: md_server_do_taken)
      case (took i)
      with same [OF took(1)] keep inv show ?thesis by (simp add: sender_streams_def)
    qed (use keep inv in simp_all)
  qed (simp_all add: md_server_inv_new, simp add: md_NewServerSession_def)
  then show ?thesis by simp
qed

text \<open>
  C30. Every OpenStream call on an mdcapnp server that has a good argument opens one stream, and
  AcceptStream hands out each of these streams at most once and no other; a stream not yet handed out
  is still offered by its goroutine, so that none is lost.
\<close>

theorem md_server_accepts_once:
  assumes "machine_run md_server_do es (md_NewServerSession l) = Ret (rs, s)"
  shows "accepted rs = map (\<lambda>i. MdS (opened_by es ! i)) (mv_taken s) \<and>
    distinct (mv_taken s) \<and> set (mv_taken s) \<subseteq> {..<length (opened_by es)} \<and>
    (\<forall>i < length (opened_by es). i \<notin> set (mv_taken s) \<longrightarrow>
      (\<exists>s'. md_server_do (MTake i) s = Ret (Some (Inr (MdS (opened_by es ! i))), s')))"
proof -
  note r = md_server_run_accepted [OF assms]
  have streams: "map sn_stream (mv_senders s) = opened_by es"
    using md_server_run_streams [OF assms] by (simp add: sender_streams_def md_NewServerSession_def)
  then have len: "length (opened_by es) = length (mv_senders s)" using length_map by metis
  have "sn_stream (mv_senders s ! i) = opened_by es ! i" if "i < length (mv_senders s)" for i
    using streams nth_map [OF that, of sn_stream] by simp
  moreover have "sn_pc (mv_senders s ! i) = Sending" if "i < length (mv_senders s)" "i \<notin> set (mv_taken s)" for i
    using r that by (cases "sn_pc (mv_senders s ! i)") (auto simp: md_server_inv_def)
  ultimately show ?thesis
    using r len streams by (auto simp: md_server_inv_def sender_streams_def)
qed

text \<open>
  C39. Of all the calls of Close on an mdcapnp server at most one ever returns: the vat's run sends
  its result once, and every other Close waits for ever.
\<close>

theorem md_server_close_once:
  assumes "machine_run md_server_do es (md_NewServerSession l) = Ret (rs, s)"
  shows "length (mv_closed s) \<le> 1 \<and> (mv_closed s \<noteq> [] \<longrightarrow>
    (\<forall>es' rs' s'. machine_run md_server_do es' s = Ret (rs', s') \<longrightarrow> mv_closed s' = mv_closed s))"
proof -
  have inv: "md_server_inv s" by (rule md_server_run_inv [OF assms])
  then have len: "length (mv_closed s) \<le> 1" by (auto simp: md_server_inv_def split: if_splits)
  have "mv_closed s' = mv_closed s"
    if ne: "mv_closed s \<noteq> []" and run: "machine_run md_server_do es' s = Ret (rs', s')" for es' rs' s'
  proof -
    let ?P = "\<lambda>t. md_server_inv t \<and> mv_closed t = mv_closed s"
    have "?P s'"
    proof (rule machine_run_inv [where f = md_server_do and P = ?P, OF _ _ run])
      fix ev t r t'
      assume P: "?P t" and step: "md_server_do ev t = Ret (r, t')"
      with ne have "mv_runChan t = None"
        by (cases "mv_closed t") (auto simp: md_server_inv_def split: if_splits)
      with step have "mv_closed t' = mv_closed t"
      proof (cases ev)
        case (MCall respond cc)
        then have t': "t' = snd (md_server_Call respond cc t)" using step by (simp split: if_splits)
        show ?thesis by (cases rule: md_server_Call_cases [of respond cc t]) (use t' in auto)
      qed (auto split: if_splits)
      with P step md_server_do_inv show "?P t'" by metis
    qed (use inv in simp)
    then show ?thesis by simp
  qed
  with len show ?thesis by blast
qed

text \<open>
  The mdcapnp client: a failed OpenStream before there is a connection leaves the session without
  one, so that the next call dials again; when it is the wait for the bootstrap capability that
  failed, the dialled connection is dropped without being closed. A success keeps its connection.
\<close>

theorem md_client_connects:
  assumes "mcl_conn s = None" and "md_OpenStream (env, wait, stub) s = Ret (r, s')"
  shows "mcl_conn s' = None \<and> (\<exists>e. r = Inl e) \<and>
      (s' = s \<or> (\<exists>c e. wait c = Some e \<and> r = Inl e \<and> s' = s\<lparr>mcl_dropped := mcl_dropped s @ [c]\<rparr>)) \<or>
    (\<exists>c. mcl_conn s' = Some c \<and> mcl_proxy s' = Some c \<and> wait c = None \<and>
      mcl_dropped s' = mcl_dropped s \<and>
      r = map_sum id (\<lambda>(calls, wres, endres). newStreamImpl newByteStreamServer calls wres endres) (stub (Some c)))"
  by (cases rule: md_connect_cases [of env wait s])
    (use assms in \<open>auto simp: md_OpenStream_def split: sum.splits\<close>)

text \<open>Runs for the witnesses: one stream opened and accepted, then Close called twice, returning once.\<close>

definition sample_open :: "(err + bs_peer) md_call" where
  "sample_open = Proxy_OpenStream ([], [], [])"

definition idle_listener :: listener where
  "idle_listener = \<lparr>l_accepts = [], l_close_res = None, l_closes = 0\<rparr>"

lemma md_sample_run:
  "\<exists>rs s. machine_run md_server_do
       [MCall None sample_open, MTake 0, MClose, MClose, MRunEnds (Some ErrCanceled), MCloseReturns]
       (md_NewServerSession idle_listener) = Ret (rs, s) \<and>
     mv_taken s = [0] \<and> mv_closed s = [Some ErrCanceled] \<and> mv_closing s = 1"
  by (simp add: md_NewServerSession_def sample_open_def Proxy_OpenStream_def md_server_Call_def)

theorem md_server_accepts_once_witness:
  "\<exists>es rs s st. machine_run md_server_do es (md_NewServerSession idle_listener) = Ret (rs, s) \<and>
     opened_by es = [st] \<and> accepted rs = [MdS st]"
proof -
  let ?es = "[MCall None sample_open, MTake 0, MClose, MClose, MRunEnds (Some ErrCanceled), MCloseReturns]"
  obtain rs s where r: "machine_run md_server_do ?es (md_NewServerSession idle_listener) = Ret (rs, s)"
      "mv_taken s = [0]"
    using md_sample_run by blast
  have "\<exists>st. opened_by ?es = [st]" by (simp add: sample_open_def Proxy_OpenStream_def)
  then obtain st where "opened_by ?es = [st]" by blast
  with md_server_accepts_once [OF r(1)] r show ?thesis by fastforce
qed

theorem md_server_close_once_witness:
  "\<exists>es rs s. machine_run md_server_do es (md_NewServerSession idle_listener) = Ret (rs, s) \<and>
     mv_closing s = 1 \<and> length (mv_closed s) = 1"
proof -
  obtain es rs s where r: "machine_run md_server_do es (md_NewServerSession idle_listener) = Ret (rs, s)"
      "mv_closed s = [Some ErrCanceled]" "mv_closing s = 1"
    using md_sample_run by blast
  from md_server_close_once [OF r(1)] r have "length (mv_closed s) = 1" by simp
  with r show ?thesis by blast
qed

theorem md_client_connects_witness:
  "\<exists>r s' c. md_OpenStream (sample_env, \<lambda>_. Some ErrCanceled, \<lambda>_. Inl EOF)
       (md_NewClientSession ''tcp'' ''a:1'' None) = Ret (r, s') \<and>
     mcl_conn s' = None \<and> mcl_dropped s' = [c]"
proof -
  let ?s = "md_NewClientSession ''tcp'' ''a:1'' None"
  have none: "mcl_conn ?s = None" by (simp add: md_NewClientSession_def)
  obtain r s' c where op: "md_OpenStream (sample_env, \<lambda>_. Some ErrCanceled, \<lambda>_. Inl EOF) ?s = Ret (r, s')"
      "mcl_dropped s' = [c]"
    by (simp add: md_OpenStream_def md_connect_def md_NewClientSession_def sample_env_def Let_def)
  with md_client_connects [OF none op(1)] show ?thesis by blast
qed

end
