(* ===== verification/Registry.thy ===== *)
theory Registry
  imports GrpcSession CapnpSession MdSession "HOL-Library.List_Lexorder" "HOL-Library.Char_ord"
begin

text \<open>
  How the program chooses its sessions: the tables of creators in main.go, the init functions of
  std_net.go, capnp_net.go, grpc_net.go and mdcapnp_net.go that fill them, and newServerSession and
  newClientSession, which look the scheme of the address up.
\<close>

subsection \<open>Session values\<close>

datatype server_session =
    StdServer stdServerSession
  | GrpcServer grpc_server
  | CapnpServer capnp_server
  | MdServer md_server

datatype client_session =
    StdClient stdClientSession
  | GrpcClient grpc_client
  | CapnpClient capnp_client
  | MdClient md_client

type_synonym server_creator = "env \<Rightarrow> Args \<Rightarrow> (err + server_session) outcome"
type_synonym client_creator = "env \<Rightarrow> Args \<Rightarrow> (err + client_session) outcome"

subsection \<open>The creators\<close>

text \<open>Listening, as the three creators that need a listener do it: over TLS when the scheme says so.\<close>

definition listen_with :: "env \<Rightarrow> Args \<Rightarrow> string \<Rightarrow> bool \<Rightarrow> string \<Rightarrow> (err + listener) outcome" where
  "listen_with env args network tlsEnabled addr =
     (if tlsEnabled then
        then_do (getServerTLSConfig env args) (\<lambda>(r, _).
          case r of
            Inl e \<Rightarrow> Ret (Inl e)
          | Inr cfg \<Rightarrow> Ret (env_tls_Listen env network addr cfg))
      else Ret (env_Listen env network addr))"

definition netListen :: server_creator where
  "netListen env args =
     then_do (splitAddress (Listen args)) (\<lambda>(network, tlsEnabled, addr).
     then_do (listen_with env args network tlsEnabled addr) (\<lambda>r.
       Ret (map_sum id (\<lambda>l. StdServer \<lparr>ss_listener = l\<rparr>) r)))"

definition capnpListen :: server_creator where
  "capnpListen env args =
     then_do (splitAddress (Listen args)) (\<lambda>(_, tlsEnabled, addr).
     then_do (listen_with env args ''tcp'' tlsEnabled addr) (\<lambda>r.
       Ret (map_sum id (\<lambda>l. CapnpServer (capnp_NewServerSession l)) r)))"

definition mdcapnpListen :: server_creator where
  "mdcapnpListen env args =
     then_do (splitAddress (Listen args)) (\<lambda>(_, tlsEnabled, addr).
     then_do (listen_with env args ''tcp'' tlsEnabled addr) (\<lambda>r.
       Ret (map_sum id (\<lambda>l. MdServer (md_NewServerSession l)) r)))"

definition grpcListen :: server_creator where
  "grpcListen env args =
     then_do (splitAddress (Listen args)) (\<lambda>(_, tlsEnabled, address).
       if tlsEnabled then
         then_do (getServerTLSConfig env args) (\<lambda>(r, _).
           Ret (map_sum id (\<lambda>cfg. GrpcServer (grpc_NewServerSession ''tcp'' address (Some cfg))) r))
       else Ret (Inr (GrpcServer (grpc_NewServerSession ''tcp'' address None))))"

text \<open>The clients differ in the session they build from network, address and TLS configuration.\<close>

definition dial_with ::
    "env \<Rightarrow> Args \<Rightarrow> (string \<Rightarrow> string \<Rightarrow> tls_config option \<Rightarrow> client_session) \<Rightarrow> (err + client_session) outcome" where
  "dial_with env args mk =
     then_do (splitAddress (Connect args)) (\<lambda>(network, tlsEnabled, addr).
       if tlsEnabled then
         (case fst (getClientTLSConfig env args) of
            Inl e \<Rightarrow> Ret (Inl e)
          | Inr cfg \<Rightarrow> Ret (Inr (mk network addr (Some cfg))))
       else Ret (Inr (mk network addr None)))"

definition netDial :: client_creator where
  "netDial env args =
     dial_with env args (\<lambda>network addr tls.
       StdClient \<lparr>sc_network = network, sc_address = addr, sc_tlsConfig = tls\<rparr>)"

definition capnpDial :: client_creator where
  "capnpDial env args =
     dial_with env args (\<lambda>_ addr tls. CapnpClient (capnp_NewClientSession ''tcp'' addr tls))"

definition grpcDial :: client_creator where
  "grpcDial env args =
     dial_with env args (\<lambda>_ addr tls. GrpcClient (grpc_NewClientSession ''tcp'' addr tls))"

definition mdcapnpDial :: client_creator where
  "mdcapnpDial env args =
     dial_with env args (\<lambda>_ addr tls. MdClient (md_NewClientSession ''tcp'' addr tls))"

subsection \<open>The tables\<close>

text \<open>A map from schemes to function values, which may be nil.\<close>

record registries =
  serverSessionCreators :: "string \<rightharpoonup> server_creator option"
  clientSessionCreators :: "string \<rightharpoonup> client_creator option"

definition register :: "string \<Rightarrow> server_creator \<Rightarrow> client_creator \<Rightarrow> registries \<Rightarrow> registries" where
  "register scheme sc cc r =
     r\<lparr>serverSessionCreators := (serverSessionCreators r)(scheme \<mapsto> Some sc),
       clientSessionCreators := (clientSessionCreators r)(scheme \<mapsto> Some cc)\<rparr>"

definition capnp_init :: "registries \<Rightarrow> registries" where
  "capnp_init = register ''capnp'' capnpListen capnpDial"

definition grpc_init :: "registries \<Rightarrow> registries" where
  "grpc_init = register ''grpc'' grpcListen grpcDial"

definition mdcapnp_init :: "registries \<Rightarrow> registries" where
  "mdcapnp_init = register ''mdcapnp'' mdcapnpListen mdcapnpDial"

definition std_schemes :: "string list" where
  "std_schemes = [''tcp'', ''tcp4'', ''tcp6'', ''unix'', ''unixpacket'']"

definition std_init :: "registries \<Rightarrow> registries" where
  "std_init r = foldl (\<lambda>r scheme. register scheme netListen netDial r) r std_schemes"

text \<open>The package's init functions run in the order of the file names, on empty maps.\<close>

definition main_registries :: registries where
  "main_registries =
     std_init (mdcapnp_init (grpc_init (capnp_init
       \<lparr>serverSessionCreators = Map.empty, clientSessionCreators = Map.empty\<rparr>)))"

subsection \<open>Lookup\<close>

definition newServerSession :: "registries \<Rightarrow> env \<Rightarrow> Args \<Rightarrow> server_session outcome" where
  "newServerSession regs env args =
     then_do (splitAddress (Listen args)) (\<lambda>(network, _, _).
       case serverSessionCreators regs network of
         Some (Some creator) \<Rightarrow>
           then_do (creator env args) (\<lambda>r.
             case r of
               Inl e \<Rightarrow> Fatal ''Failed to create server session''
             | Inr session \<Rightarrow> Ret session)
       | _ \<Rightarrow> Fatal ''Unknown scheme of listen address'')"

definition newClientSession :: "registries \<Rightarrow> env \<Rightarrow> Args \<Rightarrow> client_session outcome" where
  "newClientSession regs env args =
     then_do (splitAddress (Connect args)) (\<lambda>(network, _, _).
       case clientSessionCreators regs network of
         Some (Some creator) \<Rightarrow>
           then_do (creator env args) (\<lambda>r.
             case r of
               Inl e \<Rightarrow> Fatal ''Failed to create client session''
             | Inr session \<Rightarrow> Ret session)
       | _ \<Rightarrow> Fatal ''Unknown scheme of connect address'')"

text \<open>
  The help text lists the schemes. A map is iterated in an order the language leaves open, here the
  argument \<open>iter\<close>; sort.Strings makes it irrelevant.
\<close>

fun strings_Join :: "string list \<Rightarrow> string \<Rightarrow> string" where
  "strings_Join [] sep = []"
| "strings_Join [s] sep = s"
| "strings_Join (s # t # ts) sep = s @ sep @ strings_Join (t # ts) sep"

definition available_schemes :: "string list \<Rightarrow> string" where
  "available_schemes iter = strings_Join (sort iter) '', ''"

definition getAvailableListenSchemes :: "string list \<Rightarrow> string" where
  "getAvailableListenSchemes iter = available_schemes iter"

definition getAvailableConnectSchemes :: "string list \<Rightarrow> string" where
  "getAvailableConnectSchemes iter = available_schemes iter"

subsection \<open>Lemmas\<close>

lemmas init_defs = main_registries_def std_init_def mdcapnp_init_def grpc_init_def capnp_init_def
  register_def std_schemes_def

lemma main_server_creators:
  "serverSessionCreators main_registries network =
     (if network \<in> set std_schemes then Some (Some netListen)
      else if network = ''mdcapnp'' then Some (Some mdcapnpListen)
      else if network = ''grpc'' then Some (Some grpcListen)
      else if network = ''capnp'' then Some (Some capnpListen) else None)"
  by (simp add: init_defs)

lemma main_client_creators:
  "clientSessionCreators main_registries network =
     (if network \<in> set std_schemes then Some (Some netDial)
      else if network = ''mdcapnp'' then Some (Some mdcapnpDial)
      else if network = ''grpc'' then Some (Some grpcDial)
      else if network = ''capnp'' then Some (Some capnpDial) else None)"
  by (simp add: init_defs)

lemma listen_with_Ret:
  assumes "listen_with env args network tlsEnabled addr = Ret (Inr l)"
  obtains (tls) cert cfg where tlsEnabled "Certificates cfg = [cert]" "env_tls_Listen env network addr cfg = Inr l"
      "env_LoadX509KeyPair env (CertPath args) (KeyPath args) = Inr cert"
    | (plain) "\<not> tlsEnabled" "env_Listen env network addr = Inr l"
proof (cases tlsEnabled)
  case True
  show thesis
  proof (cases rule: getServerTLSConfig_cases [of env args])
    case (1 e)
    with True assms show thesis by (simp add: listen_with_def)
  next
    case (2 cert cfg ls)
    with True assms show thesis by (intro tls) (simp_all add: listen_with_def)
  qed
qed (use assms plain in \<open>simp add: listen_with_def\<close>)

text \<open>A listener for network and address: a TLS one, with the configured certificate, or a plain one.\<close>

definition listens :: "env \<Rightarrow> Args \<Rightarrow> string \<Rightarrow> bool \<Rightarrow> string \<Rightarrow> listener \<Rightarrow> bool" where
  "listens env args network tls addr l \<longleftrightarrow>
     (if tls then \<exists>cert cfg. env_LoadX509KeyPair env (CertPath args) (KeyPath args) = Inr cert \<and>
          Certificates cfg = [cert] \<and> env_tls_Listen env network addr cfg = Inr l
      else env_Listen env network addr = Inr l)"

lemma listen_with_listens: "listen_with env args network tls addr = Ret (Inr l) \<Longrightarrow> listens env args network tls addr l"
  by (erule listen_with_Ret) (auto simp: listens_def)

text \<open>What a server session was made of.\<close>

fun server_made :: "env \<Rightarrow> Args \<Rightarrow> string \<Rightarrow> bool \<Rightarrow> string \<Rightarrow> server_session \<Rightarrow> bool" where
  "server_made env args network tls addr (StdServer s) \<longleftrightarrow>
     network \<in> set std_schemes \<and> listens env args network tls addr (ss_listener s)"
| "server_made env args network tls addr (CapnpServer s) \<longleftrightarrow>
     network = ''capnp'' \<and> (\<exists>l. listens env args ''tcp'' tls addr l \<and> s = capnp_NewServerSession l)"
| "server_made env args network tls addr (MdServer s) \<longleftrightarrow>
     network = ''mdcapnp'' \<and> (\<exists>l. listens env args ''tcp'' tls addr l \<and> s = md_NewServerSession l)"
| "server_made env args network tls addr (GrpcServer s) \<longleftrightarrow>
     network = ''grpc'' \<and> (\<exists>cfg. s = grpc_NewServerSession ''tcp'' addr cfg \<and> (cfg \<noteq> None \<longleftrightarrow> tls))"

definition client_net :: "client_session \<Rightarrow> string \<times> string \<times> tls_config option" where
  "client_net c =
     (case c of
        StdClient s \<Rightarrow> (sc_network s, sc_address s, sc_tlsConfig s)
      | GrpcClient s \<Rightarrow> (gc_network s, gc_address s, gc_tlsConfig s)
      | CapnpClient s \<Rightarrow> (cc_network s, cc_address s, cc_tlsConfig s)
      | MdClient s \<Rightarrow> (mcl_network s, mcl_address s, mcl_tlsConfig s))"

lemma newServerSession_Ret:
  assumes "newServerSession regs env args = Ret sess"
  obtains network tls addr creator where "splitAddress (Listen args) = Ret (network, tls, addr)"
    "serverSessionCreators regs network = Some (Some creator)" "creator env args = Ret (Inr sess)"
proof -
  from assms obtain network tls addr where sp: "splitAddress (Listen args) = Ret (network, tls, addr)"
    by (auto simp: newServerSession_def go_simps)
  with assms obtain creator where cr: "serverSessionCreators regs network = Some (Some creator)"
    by (auto simp: newServerSession_def split: option.splits)
  with assms sp obtain r where r: "creator env args = Ret r" "(case r of Inl e \<Rightarrow> Fatal ''Failed to create server session'' | Inr s \<Rightarrow> Ret s) = Ret sess"
    by (auto simp: newServerSession_def go_simps)
  then have "creator env args = Ret (Inr sess)" by (cases r) simp_all
  with sp cr show thesis by (rule that)
qed

lemma newClientSession_Ret:
  assumes "newClientSession regs env args = Ret sess"
  obtains network tls addr creator where "splitAddress (Connect args) = Ret (network, tls, addr)"
    "clientSessionCreators regs network = Some (Some creator)" "creator env args = Ret (Inr sess)"
proof -
  from assms obtain network tls addr where sp: "splitAddress (Connect args) = Ret (network, tls, addr)"
    by (auto simp: newClientSession_def go_simps)
  with assms obtain creator where cr: "clientSessionCreators regs network = Some (Some creator)"
    by (auto simp: newClientSession_def split: option.splits)
  with assms sp obtain r where r: "creator env args = Ret r" "(case r of Inl e \<Rightarrow> Fatal ''Failed to create client session'' | Inr s \<Rightarrow> Ret s) = Ret sess"
    by (auto simp: newClientSession_def go_simps)
  then have "creator env args = Ret (Inr sess)" by (cases r) simp_all
  with sp cr show thesis by (rule that)
qed

lemma dial_with_Ret:
  assumes "dial_with env args mk = Ret (Inr sess)"
  shows "\<exists>network tls addr cfg. splitAddress (Connect args) = Ret (network, tls, addr) \<and>
    sess = mk network addr cfg \<and> (cfg \<noteq> None \<longleftrightarrow> tls)"
proof -
  from assms obtain network tls addr where sp: "splitAddress (Connect args) = Ret (network, tls, addr)"
    by (auto simp: dial_with_def go_simps)
  show ?thesis
  proof (cases tls)
    case True
    with assms sp obtain cfg where "sess = mk network addr (Some cfg)"
      by (cases "fst (getClientTLSConfig env args)") (auto simp: dial_with_def)
    with sp True show ?thesis by auto
  qed (use assms sp in \<open>auto simp: dial_with_def\<close>)
qed

subsection \<open>Properties\<close>

text \<open>
  C32. The server session the program runs is the one its listen address names: tcp, tcp4, tcp6, unix
  and unixpacket give a plain session on that network, the three RPC schemes their session over
  tcp, each at the address after ://, with TLS and the configured certificate exactly when the scheme
  ends in +tls.
\<close>

theorem newServerSession_made:
  assumes "newServerSession main_registries env args = Ret sess"
  shows "\<exists>network tls addr. splitAddress (Listen args) = Ret (network, tls, addr) \<and>
    server_made env args network tls addr sess"
  using assms
proof (rule newServerSession_Ret)
  fix network tls addr creator
  assume sp: "splitAddress (Listen args) = Ret (network, tls, addr)"
    and cr: "serverSessionCreators main_registries network = Some (Some creator)"
    and mk: "creator env args = Ret (Inr sess)"
  consider "network \<in> set std_schemes" "creator = netListen" | "network = ''mdcapnp''" "creator = mdcapnpListen"
    | "network = ''grpc''" "creator = grpcListen" | "network = ''capnp''" "creator = capnpListen"
    using cr by (auto simp: main_server_creators split: if_splits)
  then have "server_made env args network tls addr sess"
  proof cases
    case 3
    with mk sp obtain cfg where "sess = GrpcServer (grpc_NewServerSession ''tcp'' addr cfg)" "cfg \<noteq> None \<longleftrightarrow> tls"
      by (fastforce simp: grpcListen_def go_simps split: if_splits)
    with 3 show ?thesis by auto
  qed (use mk sp in \<open>auto simp: netListen_def mdcapnpListen_def capnpListen_def go_simps
      intro!: listen_with_listens\<close>)
  with sp show ?thesis by blast
qed

text \<open>
  C33. The client session dials where the connect address says and with TLS exactly when its scheme
  ends in +tls, for every scheme; the plain schemes keep their network, the RPC schemes use tcp.
\<close>

theorem newClientSession_net:
  assumes "newClientSession main_registries env args = Ret sess"
  shows "\<exists>network tls addr cfg. splitAddress (Connect args) = Ret (network, tls, addr) \<and>
    client_net sess = (if network \<in> set std_schemes then network else ''tcp'', addr, cfg) \<and>
    (cfg \<noteq> None \<longleftrightarrow> tls)"
proof -
  from assms obtain network tls addr creator where sp: "splitAddress (Connect args) = Ret (network, tls, addr)"
      and cr: "clientSessionCreators main_registries network = Some (Some creator)"
      and mk: "creator env args = Ret (Inr sess)"
    by (rule newClientSession_Ret)
  consider "network \<in> set std_schemes" "creator = netDial"
    | "network \<notin> set std_schemes" "creator = mdcapnpDial \<or> creator = grpcDial \<or> creator = capnpDial"
    using cr by (fastforce simp: main_client_creators std_schemes_def split: if_splits)
  then show ?thesis
  proof cases
    case 1
    with mk dial_with_Ret sp show ?thesis by (fastforce simp: netDial_def client_net_def)
  next
    case 2
    with mk sp show ?thesis
      by (auto simp: mdcapnpDial_def grpcDial_def capnpDial_def client_net_def md_NewClientSession_def
          grpc_NewClientSession_def capnp_NewClientSession_def dest!: dial_with_Ret)
  qed
qed

text \<open>
  A scheme other than the eight ends the process at start-up, on either side.
\<close>

theorem unknown_scheme_is_fatal:
  assumes "network \<notin> set std_schemes" and "network \<notin> {''capnp'', ''grpc'', ''mdcapnp''}"
  shows "(splitAddress (Listen args) = Ret (network, tls, addr) \<longrightarrow>
      newServerSession main_registries env args = Fatal ''Unknown scheme of listen address'') \<and>
    (splitAddress (Connect args) = Ret (network, tls, addr) \<longrightarrow>
      newClientSession main_registries env args = Fatal ''Unknown scheme of connect address'')"
proof -
  have "serverSessionCreators main_registries network = None"
    and "clientSessionCreators main_registries network = None"
    using assms by (simp_all only: main_server_creators main_client_creators insert_iff empty_iff if_False simp_thms de_Morgan_disj)
  then show ?thesis by (simp add: newServerSession_def newClientSession_def)
qed

text \<open>
  The two help texts list the same eight schemes in sorted order, whatever order the maps are
  iterated in.
\<close>

theorem available_schemes_text:
  assumes "distinct iter" and "set iter = dom (serverSessionCreators main_registries)"
  shows "getAvailableListenSchemes iter = ''capnp, grpc, mdcapnp, tcp, tcp4, tcp6, unix, unixpacket'' \<and>
    set iter = dom (clientSessionCreators main_registries)"
proof -
  let ?ss = "[''capnp'', ''grpc'', ''mdcapnp'', ''tcp'', ''tcp4'', ''tcp6'', ''unix'', ''unixpacket'']"
  have dom: "dom (serverSessionCreators main_registries) = set ?ss" "dom (clientSessionCreators main_registries) = set ?ss"
    by (auto simp: dom_def main_server_creators main_client_creators std_schemes_def split: if_splits)
  have "sorted ?ss" by (simp add: Cons_less_Cons Cons_le_Cons)
  moreover have "distinct ?ss" by simp
  ultimately have "sort iter = ?ss"
    using assms dom by (intro sorted_distinct_set_unique) (simp_all only: sorted_sort distinct_sort set_sort)
  then show ?thesis using assms dom by (simp add: getAvailableListenSchemes_def available_schemes_def)
qed

text \<open>An address for the witnesses: gRPC over TLS on both sides.\<close>

definition sample_args :: Args where
  "sample_args = \<lparr>Listen = ''grpc+tls://h:1'', Connect = ''tcp4://h:2'', CertPath = ''c'', KeyPath = ''k'', CAPath = ''''\<rparr>"

lemma sample_addresses:
  "splitAddress (Listen sample_args) = Ret (''grpc'', True, ''h:1'')"
  "splitAddress (Connect sample_args) = Ret (''tcp4'', False, ''h:2'')"
  by (simp_all add: sample_args_def splitAddress_def SplitN2_def)

lemma sample_tls: "\<exists>cfg. getServerTLSConfig sample_env sample_args = Ret (Inr cfg, [])"
  by (simp add: getServerTLSConfig_def set_keylog_def sample_env_def Let_def)

lemma sample_newServerSession: "\<exists>sess. newServerSession main_registries sample_env sample_args = Ret sess"
  using sample_tls
  by (auto simp: newServerSession_def main_server_creators sample_addresses std_schemes_def grpcListen_def)

lemma sample_newClientSession: "\<exists>sess. newClientSession main_registries sample_env sample_args = Ret sess"
  by (simp add: newClientSession_def main_client_creators sample_addresses std_schemes_def netDial_def dial_with_def)

theorem newServerSession_made_witness:
  "\<exists>s cfg. newServerSession main_registries sample_env sample_args = Ret (GrpcServer s) \<and>
     s = grpc_NewServerSession ''tcp'' ''h:1'' (Some cfg)"
proof -
  obtain sess where ns: "newServerSession main_registries sample_env sample_args = Ret sess"
    using sample_newServerSession by blast
  from newServerSession_made [OF ns] have made: "server_made sample_env sample_args ''grpc'' True ''h:1'' sess"
    by (auto simp: sample_addresses)
  then obtain s where "sess = GrpcServer s" by (cases sess) (simp_all add: std_schemes_def)
  with made ns show ?thesis by auto
qed

theorem newClientSession_net_witness:
  "\<exists>sess. newClientSession main_registries sample_env sample_args = Ret sess \<and>
     client_net sess = (''tcp4'', ''h:2'', None)"
proof -
  obtain sess where ns: "newClientSession main_registries sample_env sample_args = Ret sess"
    using sample_newClientSession by blast
  from newClientSession_net [OF ns] ns show ?thesis by (auto simp: sample_addresses std_schemes_def)
qed

theorem unknown_scheme_is_fatal_witness:
  "newServerSession main_registries sample_env (sample_args\<lparr>Listen := ''quic://h:1''\<rparr>) =
     Fatal ''Unknown scheme of listen address''"
proof -
  have "splitAddress (Listen (sample_args\<lparr>Listen := ''quic://h:1''\<rparr>)) = Ret (''quic'', False, ''h:1'')"
    by (simp add: splitAddress_def SplitN2_def)
  moreover have "''quic'' \<notin> set std_schemes" "''quic'' \<notin> {''capnp'', ''grpc'', ''mdcapnp''}"
    by (simp_all add: std_schemes_def)
  ultimately show ?thesis using unknown_scheme_is_fatal by blast
qed

theorem available_schemes_text_witness:
  "\<exists>iter. set iter = dom (serverSessionCreators main_registries) \<and>
     getAvailableListenSchemes iter = ''capnp, grpc, mdcapnp, tcp, tcp4, tcp6, unix, unixpacket''"
proof -
  let ?iter = "[''unix'', ''tcp'', ''tcp4'', ''tcp6'', ''unixpacket'', ''mdcapnp'', ''grpc'', ''capnp'']"
  have "distinct ?iter" and "set ?iter = dom (serverSessionCreators main_registries)"
    by (auto simp: dom_def main_server_creators std_schemes_def split: if_splits)
  with available_schemes_text show ?thesis by blast
qed

end
