(* ===== verification/Program.thy ===== *)
theory Program
  imports Leftover Registry
begin

text \<open>
  The whole program: main of main.go. It creates the two sessions and then accepts streams for ever,
  starting a goroutine with handleStream for each; the goroutines share the client session and
  run in any order. An error of AcceptStream ends the process.
\<close>

subsection \<open>The accept loop and its goroutines\<close>

text \<open>A goroutine of the loop: handleStream before its client.OpenStream, or from there on.\<close>

datatype task = Starting stream | Running handler

record ('s, 'c) program =
  pr_server :: 's
  pr_client :: 'c
  pr_tasks :: "task list"

text \<open>
  What can happen next: an event of the server session (which may complete the AcceptStream call the
  loop waits in), OpenStream in the goroutine of task \<open>i\<close>, with what the libraries give, or one step
  of one of the goroutines of task \<open>i\<close>.
\<close>

datatype ('e, 'a) prog_event = ServerEvent 'e | OpenEvent nat 'a | RunEvent nat goroutine

fun prog_do ::
    "('e \<Rightarrow> 's \<Rightarrow> ((err + stream) option \<times> 's) outcome) \<Rightarrow> ('a \<Rightarrow> ('c, err + stream) action) \<Rightarrow>
     ('e, 'a) prog_event \<Rightarrow> ('s, 'c) program \<Rightarrow> ('s, 'c) program outcome" where
  "prog_do sdo copen (ServerEvent e) p =
     then_do (sdo e (pr_server p)) (\<lambda>(r, s).
       case r of
         None \<Rightarrow> Ret (p\<lparr>pr_server := s\<rparr>)
       | Some (Inl err) \<Rightarrow> Fatal ''Failed to accept downstream''
       | Some (Inr down) \<Rightarrow> Ret (p\<lparr>pr_server := s, pr_tasks := pr_tasks p @ [Starting down]\<rparr>))"
| "prog_do sdo copen (OpenEvent i a) p =
     (if i < length (pr_tasks p) then
        (case pr_tasks p ! i of
           Starting down \<Rightarrow>
             then_do (copen a (pr_client p)) (\<lambda>(opened, c).
               Ret (p\<lparr>pr_client := c, pr_tasks := (pr_tasks p)[i := Running (handler_start down opened)]\<rparr>))
         | Running h \<Rightarrow> Blocked)
      else Blocked)"
| "prog_do sdo copen (RunEvent i g) p =
     (if i < length (pr_tasks p) then
        (case pr_tasks p ! i of
           Starting down \<Rightarrow> Blocked
         | Running h \<Rightarrow> then_do (hstep g h) (\<lambda>h'. Ret (p\<lparr>pr_tasks := (pr_tasks p)[i := Running h']\<rparr>)))
      else Blocked)"

fun prog_run ::
    "('e \<Rightarrow> 's \<Rightarrow> ((err + stream) option \<times> 's) outcome) \<Rightarrow> ('a \<Rightarrow> ('c, err + stream) action) \<Rightarrow>
     ('e, 'a) prog_event list \<Rightarrow> ('s, 'c) program \<Rightarrow> ('s, 'c) program outcome" where
  "prog_run sdo copen [] p = Ret p"
| "prog_run sdo copen (ev # evs) p = then_do (prog_do sdo copen ev p) (prog_run sdo copen evs)"

definition program_start :: "'s \<Rightarrow> 'c \<Rightarrow> ('s, 'c) program" where
  "program_start server client = \<lparr>pr_server = server, pr_client = client, pr_tasks = []\<rparr>"

text \<open>Every task is a handleStream in some state that its own goroutines can reach.\<close>

fun task_ok :: "task \<Rightarrow> bool" where
  "task_ok (Starting down) = close_ready down"
| "task_ok (Running h) =
     (\<exists>down opened. fresh_streams down opened \<and> reaches (handler_start down opened) h)"

locale proxy_program =
  server_machine sdo sinv + client_machine copen cinv
  for sdo :: "'e \<Rightarrow> 's \<Rightarrow> ((err + stream) option \<times> 's) outcome" and sinv :: "'s \<Rightarrow> bool"
    and copen :: "'a \<Rightarrow> ('c, err + stream) action" and cinv :: "'c \<Rightarrow> bool"
begin

definition program_ok :: "('s, 'c) program \<Rightarrow> bool" where
  "program_ok p \<longleftrightarrow> sinv (pr_server p) \<and> cinv (pr_client p) \<and> (\<forall>t \<in> set (pr_tasks p). task_ok t)"

lemma program_ok_start: "sinv s \<Longrightarrow> cinv c \<Longrightarrow> program_ok (program_start s c)"
  by (simp add: program_ok_def program_start_def)

lemma tasks_upd:
  "\<forall>t \<in> set ts. task_ok t \<Longrightarrow> task_ok t' \<Longrightarrow> \<forall>t \<in> set (ts[i := t']). task_ok t"
  using set_update_subset_insert by fastforce

lemma prog_do_ok:
  assumes ok: "program_ok p" and step: "prog_do sdo copen ev p = Ret p'"
  shows "program_ok p'"
proof (cases ev)
  case (ServerEvent e)
  with step obtain r s where rs: "sdo e (pr_server p) = Ret (r, s)"
    by (fastforce simp: go_simps)
  have s: "sinv s" using sdo_inv [OF _ rs] ok by (simp add: program_ok_def)
  show ?thesis
  proof (cases r)
    case None
    with ServerEvent step rs s ok show ?thesis by (auto simp: program_ok_def)
  next
    case (Some x)
    with ServerEvent step rs obtain down where x: "x = Inr down" by (cases x) simp_all
    have "close_ready down" using accept_ready [of "pr_server p" e down s] rs Some x ok
      by (simp add: program_ok_def)
    with ServerEvent step rs s ok Some x show ?thesis by (auto simp: program_ok_def)
  qed
next
  case (OpenEvent i a)
  with step obtain down where i: "i < length (pr_tasks p)" "pr_tasks p ! i = Starting down"
    by (auto split: if_splits task.splits)
  with OpenEvent step obtain opened c where oc: "copen a (pr_client p) = Ret (opened, c)"
      and p': "p' = p\<lparr>pr_client := c, pr_tasks := (pr_tasks p)[i := Running (handler_start down opened)]\<rparr>"
    by (auto simp: go_simps)
  have c: "cinv c" using copen_inv [OF _ oc] ok by (simp add: program_ok_def)
  have "task_ok (Starting down)" using ok i nth_mem by (metis program_ok_def)
  moreover have "case opened of Inl _ \<Rightarrow> True | Inr up \<Rightarrow> close_ready up"
    using open_ready oc ok by (auto simp: program_ok_def split: sum.splits)
  ultimately have "task_ok (Running (handler_start down opened))"
    using reaches_start fresh_streams_def by fastforce
  with tasks_upd ok have "\<forall>t \<in> set ((pr_tasks p)[i := Running (handler_start down opened)]). task_ok t"
    unfolding program_ok_def by blast
  with ok c p' show ?thesis by (simp add: program_ok_def)
next
  case (RunEvent i g)
  with step obtain h where i: "i < length (pr_tasks p)" "pr_tasks p ! i = Running h"
    by (auto split: if_splits task.splits)
  with RunEvent step obtain h' where h': "hstep g h = Ret h'"
      and p': "p' = p\<lparr>pr_tasks := (pr_tasks p)[i := Running h']\<rparr>"
    by (auto simp: go_simps)
  have "task_ok (Running h)" using ok i nth_mem by (metis program_ok_def)
  then have "task_ok (Running h')" using h' reaches_step by fastforce
  with tasks_upd ok have "\<forall>t \<in> set ((pr_tasks p)[i := Running h']). task_ok t"
    unfolding program_ok_def by blast
  with ok p' show ?thesis by (simp add: program_ok_def)
qed

lemma prog_run_ok: "program_ok p \<Longrightarrow> prog_run sdo copen evs p = Ret p' \<Longrightarrow> program_ok p'"
  by (induction evs arbitrary: p) (auto simp: go_simps intro: prog_do_ok)

lemma run_tasks_ok:
  assumes "sinv s" and "cinv c" and "prog_run sdo copen evs (program_start s c) = Ret p"
    and "t \<in> set (pr_tasks p)"
  shows "task_ok t"
  using prog_run_ok [OF program_ok_start [OF assms(1,2)] assms(3)] assms(4) by (simp add: program_ok_def)

end

subsection \<open>The four sessions as one\<close>

datatype server_event = StdEv std_event | GrpcEv grpc_event | CapnpEv capnp_event | MdEv md_event

fun session_do :: "env \<Rightarrow> server_event \<Rightarrow> server_session \<Rightarrow> ((err + stream) option \<times> server_session) outcome" where
  "session_do env (StdEv e) (StdServer s) = then_do (std_server_do e s) (\<lambda>(r, s'). Ret (r, StdServer s'))"
| "session_do env (GrpcEv e) (GrpcServer s) = then_do (grpc_server_do env e s) (\<lambda>(r, s'). Ret (r, GrpcServer s'))"
| "session_do env (CapnpEv e) (CapnpServer s) = then_do (capnp_server_do e s) (\<lambda>(r, s'). Ret (r, CapnpServer s'))"
| "session_do env (MdEv e) (MdServer s) = then_do (md_server_do e s) (\<lambda>(r, s'). Ret (r, MdServer s'))"
| "session_do env _ _ = Blocked"

fun session_inv :: "server_session \<Rightarrow> bool" where
  "session_inv (StdServer s) = True"
| "session_inv (GrpcServer s) = grpc_server_inv s"
| "session_inv (CapnpServer s) = capnp_server_inv s"
| "session_inv (MdServer s) = md_server_inv s"

text \<open>What the libraries give to one OpenStream call, for the session that makes it.\<close>

datatype open_lib =
    StdLib
  | GrpcLib grpc_NewClient grpc_stub
  | CapnpLib capnp_stub
  | MdLib "conn \<Rightarrow> err option" "conn option \<Rightarrow> err + bs_peer"

fun session_open :: "env \<Rightarrow> open_lib \<Rightarrow> (client_session, err + stream) action" where
  "session_open env StdLib (StdClient s) =
     then_do (std_client_open env s) (\<lambda>(r, s'). Ret (r, StdClient s'))"
| "session_open env (GrpcLib nc stub) (GrpcClient s) =
     then_do (grpc_client_open (nc, stub) s) (\<lambda>(r, s'). Ret (r, GrpcClient s'))"
| "session_open env (CapnpLib stub) (CapnpClient s) =
     then_do (capnp_client_open (env, stub) s) (\<lambda>(r, s'). Ret (r, CapnpClient s'))"
| "session_open env (MdLib wait stub) (MdClient s) =
     then_do (md_client_open (env, wait, stub) s) (\<lambda>(r, s'). Ret (r, MdClient s'))"
| "session_open env _ _ = Blocked"

fun client_inv :: "client_session \<Rightarrow> bool" where
  "client_inv (GrpcClient s) = grpc_client_inv s"
| "client_inv (CapnpClient s) = capnp_client_inv s"
| "client_inv _ = True"

interpretation prog: proxy_program "session_do env" session_inv "session_open env" client_inv for env
proof unfold_locales
  fix s e r s'
  assume "session_inv s" and "session_do env e s = Ret (r, s')"
  then show "session_inv s'"
    by (cases "(env, e, s)" rule: session_do.cases)
      (auto simp: go_simps intro: grpc_srv.sdo_inv capnp_srv.sdo_inv md_srv.sdo_inv)
next
  fix s e st s'
  assume "session_inv s" and "session_do env e s = Ret (Some (Inr st), s')"
  then show "close_ready st"
    by (cases "(env, e, s)" rule: session_do.cases)
      (auto simp: go_simps simp del: std_server_do.simps grpc_server_do.simps capnp_server_do.simps
        md_server_do.simps
        dest: std_srv.accept_ready [OF TrueI] grpc_srv.accept_ready capnp_srv.accept_ready md_srv.accept_ready)
next
  fix s a r s'
  assume "client_inv s" and "session_open env a s = Ret (r, s')"
  then show "client_inv s'"
    by (cases "(env, a, s)" rule: session_open.cases)
      (auto simp: go_simps intro: grpc_cli.copen_inv capnp_cli.copen_inv)
next
  fix s a st s'
  assume "client_inv s" and "session_open env a s = Ret (Inr st, s')"
  then show "close_ready st"
    by (cases "(env, a, s)" rule: session_open.cases)
      (auto simp: go_simps dest: std_cli.open_ready [OF TrueI] grpc_cli.open_ready capnp_cli.open_ready
        md_cli.open_ready [OF TrueI])
qed

subsection \<open>main\<close>

definition main_start :: "env \<Rightarrow> Args \<Rightarrow> (server_session, client_session) program outcome" where
  "main_start env args =
     then_do (newServerSession main_registries env args) (\<lambda>server.
     then_do (newClientSession main_registries env args) (\<lambda>client.
       Ret (program_start server client)))"

lemma server_made_inv: "server_made env args network tls addr s \<Longrightarrow> session_inv s"
  by (cases s) (auto intro: grpc_server_inv_new capnp_server_inv_new md_server_inv_new)

lemma newClientSession_inv:
  assumes "newClientSession main_registries env args = Ret c"
  shows "client_inv c"
proof -
  from assms obtain network tls addr creator where
      tb: "clientSessionCreators main_registries network = Some (Some creator)" and cr: "creator env args = Ret (Inr c)"
    by (rule newClientSession_Ret)
  from tb have "creator \<in> {netDial, mdcapnpDial, grpcDial, capnpDial}"
    by (auto simp: main_client_creators split: if_splits)
  with cr show ?thesis
    by (auto simp: netDial_def mdcapnpDial_def grpcDial_def capnpDial_def grpc_client_inv_def
        capnp_client_inv_def grpc_NewClientSession_def capnp_NewClientSession_def dest!: dial_with_Ret)
qed

lemma main_start_cases:
  assumes "main_start env args = Ret p"
  obtains s c where "session_inv s" "client_inv c" "p = program_start s c"
proof -
  from assms obtain s c where s: "newServerSession main_registries env args = Ret s"
      and c: "newClientSession main_registries env args = Ret c" and p: "p = program_start s c"
    by (auto simp: main_start_def go_simps)
  from s obtain network tls addr creator where
      cr: "serverSessionCreators main_registries network = Some (Some creator)" "creator env args = Ret (Inr s)"
    by (rule newServerSession_Ret)
  have "session_inv s"
    using cr by (auto simp: main_server_creators netListen_def mdcapnpListen_def grpcListen_def capnpListen_def
        go_simps grpc_server_inv_new capnp_server_inv_new md_server_inv_new split: if_splits)
  with newClientSession_inv [OF c] p show thesis by (intro that)
qed

lemma main_task_ok:
  assumes "main_start env args = Ret p0"
    and "prog_run (session_do env) (session_open env) evs p0 = Ret p" and "t \<in> set (pr_tasks p)"
  shows "task_ok t"
proof -
  from assms(1) obtain s c where "session_inv s" "client_inv c" "p0 = program_start s c"
    by (rule main_start_cases)
  with prog.run_tasks_ok assms(2,3) show ?thesis by blast
qed

lemma then_do_Fatal_iff: "then_do r f = Fatal m \<longleftrightarrow> r = Fatal m \<or> (\<exists>x. r = Ret x \<and> f x = Fatal m)"
  by (cases r) auto

lemma lift_Fatal_iff: "lift c r = Fatal m \<longleftrightarrow> r = Fatal m"
  by (cases r) (auto simp: lift_def)

lemma stream_no_Fatal:
  "stream_Read n s \<noteq> Fatal m" "stream_Write b s \<noteq> Fatal m" "stream_CloseRead s \<noteq> Fatal m"
  "stream_CloseWrite s \<noteq> Fatal m" "stream_Close s \<noteq> Fatal m"
proof -
  have recv: "grpc_Recv r \<noteq> Fatal m" for r by (cases r rule: grpc_Recv.cases) auto
  have ch: "close_chan c \<noteq> Fatal m" for c by (cases c) auto
  have pr: "pipe_read n p \<noteq> Fatal m" for p by (simp add: pipe_read_def split: option.splits)
  show "stream_Read n s \<noteq> Fatal m"
    using recv pr
    by (cases s) (auto simp: lift_Fatal_iff then_do_Fatal_iff std_Read_def conn_Read_def grpc_Read_def
        capnp_Read_def bsr_Read_def md_Read_def Let_def split: if_splits list.splits sum.splits prod.splits)
  show "stream_Write b s \<noteq> Fatal m"
    by (cases s) (auto simp: lift_Fatal_iff then_do_Fatal_iff std_Write_def conn_Write_def grpc_Write_def
        capnp_Write_def md_Write_def split: if_splits list.splits option.splits)
  show "stream_CloseRead s \<noteq> Fatal m"
    by (cases s) (auto simp: lift_Fatal_iff then_do_Fatal_iff std_CloseRead_def conn_CloseRead_def
        grpc_CloseRead_def capnp_CloseRead_def bsr_Close_def md_CloseRead_def Let_def)
  show "stream_CloseWrite s \<noteq> Fatal m"
    by (cases s) (auto simp: lift_Fatal_iff then_do_Fatal_iff std_CloseWrite_def conn_CloseWrite_def
        grpc_CloseWrite_def capnp_CloseWrite_def md_CloseWrite_def Let_def)
  show "stream_Close s \<noteq> Fatal m"
    using ch
    by (cases s) (auto simp: lift_Fatal_iff then_do_Fatal_iff std_Close_def conn_Close_def grpc_Close_def
        grpc_CloseRead_def grpc_CloseWrite_def capnp_Close_def capnp_CloseRead_def bsr_Close_def
        capnp_CloseWrite_def md_Close_def Let_def split: if_splits list.splits option.splits)
qed

lemma hstep_no_Fatal: "hstep g h \<noteq> Fatal m"
  by (cases g) (auto simp: main_step_def spawned_step_def copier_step_def then_do_Fatal_iff stream_no_Fatal
      split: main_pc.splits copy_pc.splits option.splits sum.splits if_splits prod.splits)

lemma session_do_no_Fatal: "session_do env e s \<noteq> Fatal m"
proof (cases "(env, e, s)" rule: session_do.cases)
  case (1 env e s)
  then show ?thesis
    by (cases e) (auto simp: then_do_Fatal_iff std_AcceptStream_def listener_Accept_def std_server_Close_def
        listener_Close_def split: list.splits sum.splits prod.splits)
next
  case (2 env e s)
  have "close_chan c \<noteq> Fatal m" for c by (cases c) auto
  with 2 show ?thesis
    by (cases e) (auto simp: then_do_Fatal_iff grpc_server_Close_def split: prod.splits option.splits)
next
  case (3 env e s)
  have "close_chan c \<noteq> Fatal m" for c by (cases c) auto
  with 3 show ?thesis
    by (cases e) (auto simp: then_do_Fatal_iff capnp_server_Close_def listener_Accept_def listener_Close_def
        Let_def split: accept_pc.splits list.splits sum.splits prod.splits)
next
  case (4 env e s)
  then show ?thesis by (cases e) (auto simp: then_do_Fatal_iff split: option.splits)
qed simp_all

lemma session_open_no_Fatal: "session_open env a c \<noteq> Fatal m"
  by (cases "(env, a, c)" rule: session_open.cases)
    (auto simp: then_do_Fatal_iff std_client_open_def std_OpenStream_def grpc_client_open_def grpc_OpenStream_def
      capnp_client_open_def capnp_OpenStream_def md_client_open_def md_OpenStream_def Let_def
      split: sum.splits prod.splits option.splits)

text \<open>What ends the process with log.Fatalf in one event.\<close>

lemma prog_do_Fatal_iff:
  "prog_do (session_do env) (session_open env) ev p = Fatal m \<longleftrightarrow>
     m = ''Failed to accept downstream'' \<and>
     (\<exists>e err s. ev = ServerEvent e \<and> session_do env e (pr_server p) = Ret (Some (Inl err), s))"
proof (cases ev)
  case (ServerEvent e)
  show ?thesis
  proof (cases "session_do env e (pr_server p)")
    case (Ret x)
    obtain r s where "x = (r, s)" by (cases x)
    with ServerEvent Ret show ?thesis by (cases r rule: option.exhaust; cases "the r") auto
  qed (use ServerEvent session_do_no_Fatal [of env e "pr_server p"] in auto)
next
  case (OpenEvent i a)
  then show ?thesis
    by (auto simp: then_do_Fatal_iff session_open_no_Fatal split: if_splits task.splits)
next
  case (RunEvent i g)
  then show ?thesis by (auto simp: then_do_Fatal_iff hstep_no_Fatal split: if_splits task.splits)
qed

subsection \<open>Properties\<close>

text \<open>
  C12. At every moment of the running program, whatever sessions it was started with and in whatever
  order peers, sessions and goroutines act, each stream it handles is in a state that handleStream
  reaches from a stream and an upstream that nobody had closed, so what is proved of handleStream
  holds of it; and no goroutine of handleStream panics.
\<close>

theorem proxy_handlers_run:
  assumes "main_start env args = Ret p0"
    and "prog_run (session_do env) (session_open env) evs p0 = Ret p"
    and "i < length (pr_tasks p)" and "pr_tasks p ! i = Running h"
  shows "(\<exists>down opened. fresh_streams down opened \<and> reaches (handler_start down opened) h) \<and>
    hstep g h \<noteq> Panic m"
proof -
  have "task_ok (Running h)" using main_task_ok [OF assms(1,2)] assms(3,4) nth_mem by metis
  then obtain down opened where r: "fresh_streams down opened" "reaches (handler_start down opened) h"
    by auto
  with hstep_no_panic [OF reaches_closing [OF r(2,1)]] show ?thesis by blast
qed

text \<open>A run for the witness: one TCP connection accepted, its upstream dialled and opened.\<close>

definition run_env :: env where
  "run_env = sample_env\<lparr>env_Listen := \<lambda>_ _. Inr \<lparr>l_accepts = [Inr (new_conn TCPConn [] [])],
     l_close_res = None, l_closes = 0\<rparr>\<rparr>"

definition run_args :: Args where
  "run_args = \<lparr>Listen = ''tcp://h:1'', Connect = ''tcp://h:2'', CertPath = '''', KeyPath = '''', CAPath = ''''\<rparr>"

lemma run_addresses:
  "splitAddress (Listen run_args) = Ret (''tcp'', False, ''h:1'')"
  "splitAddress (Connect run_args) = Ret (''tcp'', False, ''h:2'')"
  by (simp_all add: run_args_def splitAddress_def SplitN2_def)

lemma run_start:
  "main_start run_env run_args =
     Ret (program_start
       (StdServer \<lparr>ss_listener = \<lparr>l_accepts = [Inr (new_conn TCPConn [] [])], l_close_res = None, l_closes = 0\<rparr>\<rparr>)
       (StdClient \<lparr>sc_network = ''tcp'', sc_address = ''h:2'', sc_tlsConfig = None\<rparr>))"
  by (simp add: main_start_def newServerSession_def newClientSession_def main_server_creators
      main_client_creators std_schemes_def run_addresses netListen_def netDial_def dial_with_def
      listen_with_def run_env_def)

lemma run_opened:
  "\<exists>p h. prog_run (session_do run_env) (session_open run_env)
       [ServerEvent (StdEv StdAccept), OpenEvent 0 StdLib, RunEvent 0 MainG]
       (program_start
         (StdServer \<lparr>ss_listener = \<lparr>l_accepts = [Inr (new_conn TCPConn [] [])], l_close_res = None, l_closes = 0\<rparr>\<rparr>)
         (StdClient \<lparr>sc_network = ''tcp'', sc_address = ''h:2'', sc_tlsConfig = None\<rparr>)) = Ret p \<and>
     pr_tasks p = [Running h] \<and> h_main h = MCopy"
  by (simp add: program_start_def std_AcceptStream_def listener_Accept_def std_client_open_def
      std_OpenStream_def run_env_def sample_env_def Let_def handler_start_def main_step_def)

theorem proxy_handlers_run_witness:
  "\<exists>evs p0 p h. main_start run_env run_args = Ret p0 \<and>
     prog_run (session_do run_env) (session_open run_env) evs p0 = Ret p \<and>
     pr_tasks p = [Running h] \<and> h_main h = MCopy \<and> hstep MainG h \<noteq> Panic ''close of nil channel''"
proof -
  obtain evs p0 p h where r: "main_start run_env run_args = Ret p0"
      "prog_run (session_do run_env) (session_open run_env) evs p0 = Ret p"
      "pr_tasks p = [Running h]" "h_main h = MCopy"
    using run_start run_opened by blast
  then have "0 < length (pr_tasks p)" "pr_tasks p ! 0 = Running h" by simp_all
  from proxy_handlers_run [OF r(1,2) this] r show ?thesis by blast
qed

end
