(* ===== verification/Tunnel.thy ===== *)
theory Tunnel
  imports Program
begin

text \<open>
  Two instances of the program in a row, as the README runs them: the first accepts plain
  connections and opens tunnel streams, the second accepts tunnel streams and opens plain
  connections. What is between the two instances (a network and one of the RPC libraries) is outside
  the repository; \<open>carries\<close> states what it is documented to do.
\<close>

subsection \<open>What a tunnel carries\<close>

text \<open>
  The receiving end, before anything was read, has in front of it what the sending end sent, then the
  end of the stream: gRPC delivers the packets in order and then io.EOF; Cap'n Proto delivers the
  calls on one capability in order, the End call after the Write calls; a network connection
  delivers the bytes in order in pieces of any size. It does so once the sender has made the call that
  says that no more bytes come.
\<close>

fun carries :: "stream \<Rightarrow> stream \<Rightarrow> bool" where
  "carries (StdS a) (StdS b) \<longleftrightarrow>
     end_sent (StdS a) \<and> c_closes (ReadWriteCloser b) = 0 \<and>
     (\<exists>chunks. c_in (ReadWriteCloser b) = map Inr chunks @ [Inl EOF] \<and>
        concat chunks = c_out (ReadWriteCloser a))"
| "carries (GrpcS a) (GrpcS b) \<longleftrightarrow>
     end_sent (GrpcS a) \<and> g_buf b = [] \<and> \<not> g_readClosed b \<and> g_recv b = map Inr (g_sent a) @ [Inl EOF]"
| "carries (CapnpS a) (CapnpS b) \<longleftrightarrow>
     end_sent (CapnpS a) \<and> bsr_pipe (cs_reader b) = new_pipe \<and>
     cs_calls b = map (CallWrite \<circ> Inr) (cs_sent a) @ [CallEnd]"
| "carries (MdS a) (MdS b) \<longleftrightarrow>
     end_sent (MdS a) \<and> bs_pipe (ms_server b) = new_pipe \<and>
     (\<exists>words tsize noparams.
        ms_calls b = map (su_call \<circ> ByteStream_Write words tsize) (ms_sent a) @ [ByteStream_End noparams])"
| "carries _ _ \<longleftrightarrow> False"

lemma script_bytes_chunks: "script_bytes (map Inr chunks @ [Inl EOF]) = concat chunks"
  by (induction chunks) auto

lemma calls_bytes_sent: "calls_bytes (map (CallWrite \<circ> Inr) ps @ [CallEnd]) = concat ps"
  by (induction ps) auto

text \<open>What ByteStream.Write sends, the byteStreamServer at the other end decodes to the same bytes.\<close>

lemma md_calls_bytes_sent:
  "md_calls_bytes (map (su_call \<circ> ByteStream_Write words tsize) ps @ [ByteStream_End e]) = concat ps"
  by (induction ps) (auto simp: is_end_call_def call_bytes_def ByteStream_Write_def ByteStream_End_def md_ids)

lemma new_pipe_empty: "pipe_bytes new_pipe = []" "\<not> p_done new_pipe"
  by (simp_all add: new_pipe_def pipe_bytes_def)

lemma carries_avail: "carries a b \<Longrightarrow> stream_avail b = stream_sunk a"
  by (cases "(a, b)" rule: carries.cases)
    (auto simp: std_avail_def std_sunk_def grpc_avail_def grpc_sunk_def capnp_avail_def reader_avail_def
      capnp_sunk_def md_avail_def server_avail_def md_sunk_def new_pipe_empty script_bytes_chunks
      calls_bytes_sent md_calls_bytes_sent)

subsection \<open>Properties\<close>

text \<open>
  C2. Through two instances of the proxy, over any of the transports, the target is given a prefix
  of what the client sent, in order and without repetition, whatever errors the two copies meet; if
  neither meets one it is given all of it. The tunnel stream may be closed between the first copy
  and the end of the second.
\<close>

theorem tunnel_delivers:
  assumes "copyStream client tun1 a1 b1 = Some (Ret r1)" and "stream_sunk tun1 = []"
    and "stream_sunk tun1' = stream_sunk (cr_dst r1)" and "carries tun1' tun2"
    and "copyStream tun2 target a2 b2 = Some (Ret r2)"
  shows "\<exists>t. stream_sunk (cr_dst r2) = stream_sunk target @ t \<and> prefix t (stream_avail client) \<and>
    (copyErr r1 = None \<longrightarrow> copyErr r2 = None \<longrightarrow> t = stream_avail client \<and> written r2 = written r1)"
proof -
  from copyStream_sunk [OF assms(1)] assms(2) obtain t1 where
      t1: "stream_sunk (cr_dst r1) = t1" "prefix t1 (stream_avail client)"
      "copyErr r1 = None \<longrightarrow> t1 = stream_avail client \<and> written r1 = int (length t1)"
    by auto
  from copyStream_sunk [OF assms(5)] obtain t2 where
      t2: "stream_sunk (cr_dst r2) = stream_sunk target @ t2" "prefix t2 (stream_avail tun2)"
      "copyErr r2 = None \<longrightarrow> t2 = stream_avail tun2 \<and> written r2 = int (length t2)"
    by auto
  have mid: "stream_avail tun2 = t1" using carries_avail [OF assms(4)] assms(3) t1(1) by simp
  from t2(2) t1(2) mid have "prefix t2 (stream_avail client)" by (auto intro: prefix_order.trans)
  with t1 t2 mid show ?thesis by auto
qed

text \<open>A tunnel for the witness: gRPC, one packet.\<close>

definition tun_client :: stream where
  "tun_client = GrpcS (newGrpcStream [] [None] True None None)"

definition tun_server :: stream where
  "tun_server = GrpcS (newGrpcStream [Inr [1, 2], Inl EOF] [] False None (Some OpenChan))"

lemmas tunnel_eval = copy_once_def copy_end_def copy_account_def lift_def std_Read_def std_Write_def
  conn_Read_def conn_Write_def grpc_Read_def grpc_Write_def copy_buf_size_def new_conn_def
  newGrpcStream_def sample_src_def sample_dst_def tun_client_def tun_server_def

lemma std_CloseRead_returns: "\<exists>e s'. std_CloseRead s = Ret (e, s')"
  by (simp add: std_CloseRead_def conn_CloseRead_def)

lemma tunnel_copy1:
  "\<exists>r. copyStream sample_src tun_client a b = Some (Ret r) \<and> copyErr r = None \<and>
     carries (cr_dst r) tun_server"
proof -
  have "\<exists>src' g. copy_loop stream_Read stream_Write 0 sample_src tun_client =
      Some (Ret ((2, None), StdS src', GrpcS g)) \<and> g_sent g = [[1, 2]] \<and> g_client g \<and> \<not> g_writeClosed g \<and>
      g_closesends g = 0"
    by (subst copy_loop.simps, simp add: tunnel_eval, subst copy_loop.simps, simp add: tunnel_eval)
  then obtain src' g where g: "copy_loop stream_Read stream_Write 0 sample_src tun_client =
      Some (Ret ((2, None), StdS src', GrpcS g))" "g_sent g = [[1, 2]]" "g_client g" "\<not> g_writeClosed g"
      "g_closesends g = 0"
    by blast
  obtain e1 src'' where cr: "stream_CloseRead (StdS src') = Ret (e1, StdS src'')"
    using std_CloseRead_returns [of src'] by (auto simp: lift_def)
  show ?thesis
    by (simp add: copyStream_def g cr lift_def grpc_CloseWrite_def tun_server_def newGrpcStream_def
        del: stream_CloseRead.simps)
qed

lemma tunnel_copy2:
  "\<exists>r. copyStream tun_server sample_dst a b = Some (Ret r) \<and> copyErr r = None"
proof -
  have "\<exists>g d. copy_loop stream_Read stream_Write 0 tun_server sample_dst =
      Some (Ret ((2, None), GrpcS g, StdS d))"
    by (subst copy_loop.simps, simp add: tunnel_eval, subst copy_loop.simps, simp add: tunnel_eval)
  then obtain g d where gd: "copy_loop stream_Read stream_Write 0 tun_server sample_dst =
      Some (Ret ((2, None), GrpcS g, StdS d))" by blast
  show ?thesis
    by (simp add: copyStream_def gd lift_def grpc_CloseRead_def std_CloseWrite_def conn_CloseWrite_def)
qed

theorem tunnel_delivers_witness:
  "\<exists>r1 r2. copyStream sample_src tun_client ''downstream'' ''upstream'' = Some (Ret r1) \<and>
     carries (cr_dst r1) tun_server \<and>
     copyStream tun_server sample_dst ''downstream'' ''upstream'' = Some (Ret r2) \<and>
     stream_sunk (cr_dst r2) = [1, 2]"
proof -
  obtain r1 where r1: "copyStream sample_src tun_client ''downstream'' ''upstream'' = Some (Ret r1)"
      "copyErr r1 = None" "carries (cr_dst r1) tun_server"
    using tunnel_copy1 by blast
  obtain r2 where r2: "copyStream tun_server sample_dst ''downstream'' ''upstream'' = Some (Ret r2)"
      "copyErr r2 = None"
    using tunnel_copy2 by blast
  have fresh: "stream_sunk tun_client = []"
    by (simp add: tun_client_def newGrpcStream_def grpc_sunk_def)
  from tunnel_delivers [OF r1(1) fresh refl r1(3) r2(1)] r1 r2 sample_streams show ?thesis by auto
qed

end
