(* ===== verification/Ends.thy ===== *)
theory Ends
  imports Leftover
begin

text \<open>
  Every run of handleStream is finite, under every scheduler: a measure of the two copies and of what
  their sources can still deliver falls with every step. The bound is explicit, in terms of what the
  two streams hold at the start.
\<close>

subsection \<open>No operation gives a stream more to deliver\<close>

lemma std_Read_gas: "std_Read n s = Ret (r, s') \<Longrightarrow> std_gas s' \<le> std_gas s"
  by (cases r) (auto simp: std_Read_def then_do_Ret_iff std_gas_def elim!: conn_Read_cases)

lemma grpc_Read_gas: "grpc_Read n s = Ret (r, s') \<Longrightarrow> grpc_gas s' \<le> grpc_gas s"
  by (cases r) (auto simp: grpc_gas_def elim!: grpc_Read_cases)

lemma pipe_read_gas: "pipe_read n p = Ret (r, p') \<Longrightarrow> pipe_gas p' \<le> pipe_gas p"
  by (auto simp: pipe_read_def pipe_gas_def split: if_splits option.splits)

lemma capnp_Read_gas: "capnp_Read n s = Ret (r, s') \<Longrightarrow> capnp_gas s' \<le> capnp_gas s"
  by (rule capnp_Read_split, assumption)
    (auto simp: capnp_gas_def dest!: run_calls_avail bsr_Read_pipe pipe_read_gas)

lemma md_Read_gas: "md_Read n s = Ret (r, s') \<Longrightarrow> md_gas s' \<le> md_gas s"
  by (rule md_Read_split, assumption)
    (auto simp: md_gas_def dest!: md_run_calls_avail pipe_read_gas)

lemma stream_Read_gas: "stream_Read n s = Ret (r, s') \<Longrightarrow> stream_gas s' \<le> stream_gas s"
  by (cases s) (auto simp: lift_Ret_iff dest: std_Read_gas grpc_Read_gas capnp_Read_gas md_Read_gas)

lemma stream_Write_gas: "stream_Write bs s = Ret (r, s') \<Longrightarrow> stream_gas s' = stream_gas s"
  by (cases s) (auto simp: lift_Ret_iff then_do_Ret_iff std_Write_def conn_Write_def grpc_Write_def
      capnp_Write_def md_Write_def std_gas_def grpc_gas_def capnp_gas_def md_gas_def
      split: if_splits list.splits option.splits)

lemma grpc_Close_gas: "grpc_Close g = Ret (e, g') \<Longrightarrow> grpc_gas g' = grpc_gas g"
  by (auto simp: grpc_Close_def grpc_CloseRead_def grpc_CloseWrite_def then_do_Ret_iff Let_def grpc_gas_def
      split: if_splits option.splits)

lemma capnp_CloseRead_gas: "capnp_CloseRead c = Ret (e, c') \<Longrightarrow> capnp_gas c' \<le> capnp_gas c"
  by (auto simp: capnp_CloseRead_def bsr_Close_def Let_def capnp_gas_def pipe_gas_def)

lemma capnp_CloseWrite_gas: "capnp_CloseWrite c = Ret (e, c') \<Longrightarrow> capnp_gas c' = capnp_gas c"
  by (auto dest!: capnp_CloseWrite_Ret simp: capnp_gas_def)

lemma capnp_Close_gas: "capnp_Close c = Ret (e, c') \<Longrightarrow> capnp_gas c' \<le> capnp_gas c"
proof -
  assume "capnp_Close c = Ret (e, c')"
  then obtain e1 c1 e2 c2 where "capnp_CloseWrite c = Ret (e1, c1)" "capnp_CloseRead c1 = Ret (e2, c2)"
      "c' = c2\<lparr>cs_released := True\<rparr>"
    by (auto simp: capnp_Close_def then_do_Ret_iff split: if_splits)
  then show ?thesis using capnp_CloseWrite_gas capnp_CloseRead_gas by (fastforce simp: capnp_gas_def)
qed

lemma stream_close_gas:
  assumes "stream_CloseRead s = Ret (e, s') \<or> stream_CloseWrite s = Ret (e, s') \<or> stream_Close s = Ret (e, s')"
  shows "stream_gas s' \<le> stream_gas s"
proof (cases s)
  case (StdS x)
  with assms show ?thesis by (auto simp: lift_Ret_iff std_defs then_do_Ret_iff split: if_splits)
next
  case (GrpcS x)
  with assms show ?thesis
    by (auto simp: lift_Ret_iff grpc_CloseRead_Ret grpc_gas_def dest!: grpc_CloseWrite_Ret dest: grpc_Close_gas)
next
  case (CapnpS x)
  with assms show ?thesis
    by (auto simp: lift_Ret_iff dest: capnp_CloseRead_gas capnp_CloseWrite_gas capnp_Close_gas)
next
  case (MdS x)
  with assms show ?thesis
    by (auto simp: lift_Ret_iff md_CloseRead_def md_CloseWrite_def md_Close_def Let_def md_gas_def
        pipe_gas_def split: list.splits)
qed

subsection \<open>The measure\<close>

definition copier_left :: "copier \<Rightarrow> stream \<Rightarrow> nat" where
  "copier_left c src =
     (case ck_pc c of
        AtRead \<Rightarrow> 2 * stream_gas src + 4
      | AtWrite bs None \<Rightarrow> 2 * stream_gas src + 5
      | AtWrite bs (Some e) \<Rightarrow> 3
      | AtCloseRead \<Rightarrow> 2
      | AtCloseWrite \<Rightarrow> 1
      | AtEnd \<Rightarrow> 0)"

lemma copier_left_mono: "stream_gas src' \<le> stream_gas src \<Longrightarrow> copier_left c src' \<le> copier_left c src"
  by (auto simp: copier_left_def split: copy_pc.splits option.splits)

lemma copier_left_after_round:
  "copier_left (after_round er c) src = (if er = None then 2 * stream_gas src + 4 else 2)"
  by (cases er) (auto simp: copier_left_def after_round_def)

lemma copier_step_left:
  assumes "copier_step c src dst = Ret (c', src', dst')"
  shows "copier_left c' src' < copier_left c src"
    and "stream_gas src' \<le> stream_gas src" and "stream_gas dst' \<le> stream_gas dst"
proof -
  have "copier_left c' src' < copier_left c src \<and> stream_gas src' \<le> stream_gas src \<and>
      stream_gas dst' \<le> stream_gas dst"
    using assms
  proof (cases rule: copier_step_cases)
    case (reading bs er)
    have "er = None \<Longrightarrow> stream_gas src' < stream_gas src"
      using stream_Read_contract [OF reading(2)] by (simp add: copy_buf_size_def)
    moreover have "copier_left c src = 2 * stream_gas src + 4" using reading(1) by (simp add: copier_left_def)
    moreover have "copier_left c' src' = (if bs = [] then if er = None then 2 * stream_gas src' + 4 else 2
        else if er = None then 2 * stream_gas src' + 5 else 3)"
      using reading(4) by (cases er) (simp_all add: copier_left_after_round, simp_all add: copier_left_def)
    ultimately show ?thesis using stream_Read_gas [OF reading(2)] reading(3) by auto
  next
    case (writing bs er r)
    have before: "copier_left c src = (if er = None then 2 * stream_gas src + 5 else 3)"
      using writing(1) by (cases er) (simp_all add: copier_left_def)
    from writing(2) show ?thesis
    proof (cases rule: after_write_cases [where er = er and c = c])
      case all
      with writing(4) have "copier_left c' src' = (if er = None then 2 * stream_gas src' + 4 else 2)"
        by (simp only: copier_left_after_round)
      with before writing(3) stream_Write_gas [OF writing(2)] show ?thesis by auto
    next
      case (failed k n e)
      with writing(4) have "copier_left c' src' = 2" by (simp add: copier_left_def)
      with before writing(3) stream_Write_gas [OF writing(2)] show ?thesis by auto
    qed
  next
    case (closing_read e)
    with stream_close_gas show ?thesis by (auto simp: copier_left_def)
  next
    case (closing_write e)
    with stream_close_gas show ?thesis by (auto simp: copier_left_def)
  qed
  then show "copier_left c' src' < copier_left c src"
    and "stream_gas src' \<le> stream_gas src" and "stream_gas dst' \<le> stream_gas dst" by simp_all
qed

definition main_left :: "main_pc \<Rightarrow> nat" where
  "main_left pc = (case pc of MOpen \<Rightarrow> 4 | MCopy \<Rightarrow> 3 | MCloseUp \<Rightarrow> 2 | MCloseDown \<Rightarrow> 1 | MDone \<Rightarrow> 0)"

definition handler_left :: "handler \<Rightarrow> nat" where
  "handler_left h =
     main_left (h_main h) +
     (case (case h_up h of Some up \<Rightarrow> Some up | None \<Rightarrow> (case h_open h of Inr up \<Rightarrow> Some up | Inl _ \<Rightarrow> None)) of
        None \<Rightarrow> 0
      | Some up \<Rightarrow> copier_left (h_du h) (h_down h) + copier_left (h_ud h) up)"

lemma main_step_left:
  assumes "main_step h = Ret h'" and "h_main h = MOpen \<Longrightarrow> h_up h = None"
  shows "handler_left h' < handler_left h"
  using assms(1)
proof (cases rule: main_step_cases)
  case (copying up c up' down')
  note st = copier_step_left [OF copying(3)]
  from st(1) copier_left_mono [OF st(3), of "h_du h"] copying show ?thesis
    by (simp add: handler_left_def)
next
  case (close_up up e up')
  with copier_left_mono [OF stream_close_gas, of up e up' "h_ud h"] show ?thesis
    by (simp add: handler_left_def main_left_def)
next
  case (close_down e down')
  with copier_left_mono [OF stream_close_gas, of "h_down h" e down' "h_du h"] show ?thesis
    by (simp add: handler_left_def main_left_def split: option.splits sum.splits)
qed (use assms(2) in \<open>simp add: handler_left_def main_left_def\<close>)+

lemma spawned_step_left:
  assumes "spawned_step h = Ret h'"
  shows "handler_left h' < handler_left h"
  using assms
proof (cases rule: spawned_step_cases)
  case (1 up c down' up')
  note st = copier_step_left [OF 1(2)]
  from st(1) copier_left_mono [OF st(3), of "h_ud h"] 1 show ?thesis
    by (simp add: handler_left_def)
qed

lemma hrun_left:
  "hrun gs h = Ret h' \<Longrightarrow> up_sealed h \<Longrightarrow> length gs + handler_left h' \<le> handler_left h"
proof (induction gs arbitrary: h)
  case (Cons g gs)
  then obtain h1 where h1: "hstep g h = Ret h1" "hrun gs h1 = Ret h'" by (auto simp: then_do_Ret_iff)
  have "handler_left h1 < handler_left h \<and> up_sealed h1"
  proof (cases g)
    case MainG
    with h1(1) have st: "main_step h = Ret h1" by simp
    have "h_main h = MOpen \<Longrightarrow> h_up h = None" using Cons.prems(2) by (simp add: up_sealed_def)
    from main_step_left [OF st this] main_step_sealed [OF st Cons.prems(2)] show ?thesis by simp
  next
    case SpawnedG
    with h1(1) have st: "spawned_step h = Ret h1" by simp
    from spawned_step_left [OF st] spawned_step_sealed [OF st Cons.prems(2)] show ?thesis by simp
  qed
  with Cons.IH [OF h1(2)] show ?case by simp
qed simp

subsection \<open>Phases\<close>

text \<open>
  The points handleStream goes through, ordered by what is left to do; it only moves forward, and the
  goroutine does not move it.
\<close>

instantiation main_pc :: linorder
begin

definition less_eq_main_pc :: "main_pc \<Rightarrow> main_pc \<Rightarrow> bool" where
  "less_eq_main_pc a b \<longleftrightarrow> main_left b \<le> main_left a"

definition less_main_pc :: "main_pc \<Rightarrow> main_pc \<Rightarrow> bool" where
  "less_main_pc a b \<longleftrightarrow> main_left b < main_left a"

instance
  by standard (auto simp: less_eq_main_pc_def less_main_pc_def main_left_def split: main_pc.splits)

end

lemma hstep_phase:
  assumes "hstep g h = Ret h'"
  shows "h_main h \<le> h_main h'" and "g = SpawnedG \<Longrightarrow> h_main h' = h_main h"
proof -
  have "h_main h \<le> h_main h' \<and> (g = SpawnedG \<longrightarrow> h_main h' = h_main h)"
  proof (cases g)
    case MainG
    with assms have "main_step h = Ret h'" by simp
    then show ?thesis
      by (cases rule: main_step_cases) (simp_all add: MainG less_eq_main_pc_def main_left_def)
  next
    case SpawnedG
    with assms have "spawned_step h = Ret h'" by simp
    then show ?thesis by (cases rule: spawned_step_cases) simp
  qed
  then show "h_main h \<le> h_main h'" and "g = SpawnedG \<Longrightarrow> h_main h' = h_main h" by simp_all
qed

lemma reaches_phase: "reaches h0 h \<Longrightarrow> h_main h0 \<le> h_main h"
  by (induction rule: reaches.induct) (auto dest: hstep_phase(1))

subsection \<open>Property\<close>

text \<open>
  C11. handleStream and its goroutine together make a bounded number of steps, whatever the schedule:
  no scheduler and no peer can keep them running for ever without one of their calls waiting.
\<close>

theorem handleStream_bounded:
  assumes "hrun gs (handler_start down (Inr up)) = Ret h"
  shows "length gs \<le> 2 * stream_gas down + 2 * stream_gas up + 12"
proof -
  have "handler_left (handler_start down (Inr up)) = 2 * stream_gas down + 2 * stream_gas up + 12"
    by (simp add: handler_left_def main_left_def handler_start_def copier_left_def copier_start_def)
  with hrun_left [OF assms up_sealed_start] show ?thesis by simp
qed

theorem handleStream_bounded_witness:
  "\<exists>gs h. hrun gs (handler_start run_down (Inr run_up)) = Ret h \<and> h_main h = MDone \<and>
     length gs \<le> 2 * stream_gas run_down + 2 * stream_gas run_up + 12"
proof -
  obtain gs h where r: "hrun gs (handler_start run_down (Inr run_up)) = Ret h" "h_main h = MDone"
    using run_truncated by blast
  from handleStream_bounded [OF r(1)] r show ?thesis by blast
qed

end
