(* ===== verification/Refine.thy ===== *)
theory Refine
  imports Handler
begin

text \<open>
  What handleStream promises, without its goroutines, copiers and streams: two flows of bytes and a
  phase. A flow may deliver the front of what it has still to forward and may lose the end of it,
  nothing else. Every step of handleStream, under any schedule, is a step of this specification.
\<close>

subsection \<open>Specification\<close>

record flow =
  fl_todo :: bytes
  fl_done :: bytes

definition flow_moves :: "flow \<Rightarrow> flow \<Rightarrow> bool" where
  "flow_moves f f' \<longleftrightarrow>
     (\<exists>x y. fl_todo f = x @ y \<and> fl_done f' = fl_done f @ x \<and> prefix (fl_todo f') y)"

datatype phase = Opening | Running | Closing | Closed

text \<open>The flow from downstream to upstream and the one back.\<close>

record spec =
  sp_phase :: phase
  sp_du :: flow
  sp_ud :: flow

text \<open>
  The flow to the upstream can move from the time the upstream is open, also while and after the
  function closes both streams; the one to the downstream only while the function copies, and it
  returns from copying with nothing left of it. Closing can only lose bytes.
\<close>

inductive spec_step :: "spec \<Rightarrow> spec \<Rightarrow> bool" where
  spec_open: "sp_phase a = Opening \<Longrightarrow> spec_step a (a\<lparr>sp_phase := Running\<rparr>)"
| spec_refused: "sp_phase a = Opening \<Longrightarrow> spec_step a (a\<lparr>sp_phase := Closing\<rparr>)"
| spec_du: "sp_phase a \<noteq> Opening \<Longrightarrow> flow_moves (sp_du a) du \<Longrightarrow> spec_step a (a\<lparr>sp_du := du\<rparr>)"
| spec_ud: "sp_phase a = Running \<Longrightarrow> flow_moves (sp_ud a) ud \<Longrightarrow> spec_step a (a\<lparr>sp_ud := ud\<rparr>)"
| spec_return: "sp_phase a = Running \<Longrightarrow> fl_todo (sp_ud a) = [] \<Longrightarrow> spec_step a (a\<lparr>sp_phase := Closing\<rparr>)"
| spec_close: "sp_phase a = Closing \<Longrightarrow> flow_moves (sp_du a) du \<Longrightarrow> fl_done du = fl_done (sp_du a) \<Longrightarrow>
    spec_step a (a\<lparr>sp_phase := Closed, sp_du := du\<rparr>)"

inductive_cases spec_stepE: "spec_step a b"

abbreviation spec_run :: "spec \<Rightarrow> spec \<Rightarrow> bool" where
  "spec_run \<equiv> spec_step\<^sup>*\<^sup>*"

lemma flow_movesI:
  "fl_todo f = x @ y \<Longrightarrow> fl_done f' = fl_done f @ x \<Longrightarrow> prefix (fl_todo f') y \<Longrightarrow> flow_moves f f'"
  unfolding flow_moves_def by blast

lemma flow_moves_refl: "flow_moves f f"
  by (auto simp: flow_moves_def)

lemma flow_moves_trans: "flow_moves f g \<Longrightarrow> flow_moves g h \<Longrightarrow> flow_moves f h"
proof -
  assume "flow_moves f g" and "flow_moves g h"
  then obtain x y x' y' where f: "fl_todo f = x @ y" "fl_done g = fl_done f @ x" "prefix (fl_todo g) y"
      and g: "fl_todo g = x' @ y'" "fl_done h = fl_done g @ x'" "prefix (fl_todo h) y'"
    by (auto simp: flow_moves_def)
  from f(3) g(1) obtain z where "y = x' @ y' @ z" by (auto simp: prefix_def)
  with f g have "fl_todo f = (x @ x') @ (y' @ z)" "fl_done h = fl_done f @ (x @ x')" "prefix (fl_todo h) (y' @ z)"
    by (auto intro: prefix_order.trans)
  then show "flow_moves f h" unfolding flow_moves_def by blast
qed

text \<open>Whatever happens, each flow has delivered a front of what it had, and can still only deliver what follows.\<close>

lemma spec_step_flows:
  "spec_step a b \<Longrightarrow> flow_moves (sp_du a) (sp_du b) \<and> flow_moves (sp_ud a) (sp_ud b)"
  by (erule spec_stepE) (auto simp: flow_moves_refl)

lemma spec_run_flows:
  "spec_run a b \<Longrightarrow> flow_moves (sp_du a) (sp_du b) \<and> flow_moves (sp_ud a) (sp_ud b)"
  by (induction rule: rtranclp_induct)
    (auto simp: flow_moves_refl dest: spec_step_flows intro: flow_moves_trans)

subsection \<open>The state of the specification a handler is in\<close>

fun phase_of :: "main_pc \<Rightarrow> phase" where
  "phase_of MOpen = Opening"
| "phase_of MCopy = Running"
| "phase_of MCloseUp = Closing"
| "phase_of MCloseDown = Closing"
| "phase_of MDone = Closed"

definition upstream :: "handler \<Rightarrow> stream option" where
  "upstream h = (case h_up h of Some up \<Rightarrow> Some up | None \<Rightarrow> (case h_open h of Inl _ \<Rightarrow> None | Inr up \<Rightarrow> Some up))"

lemma upstream_eq: "h_up h' = h_up h \<Longrightarrow> h_open h' = h_open h \<Longrightarrow> upstream h' = upstream h"
  unfolding upstream_def by (rule arg_cong2 [where f = "\<lambda>u r. case u of Some up \<Rightarrow> Some up
      | None \<Rightarrow> (case r of Inl _ \<Rightarrow> None | Inr up \<Rightarrow> Some up)"])

definition flow_of :: "copier \<Rightarrow> stream option \<Rightarrow> stream option \<Rightarrow> flow" where
  "flow_of c src dst =
     \<lparr>fl_todo = (case src of None \<Rightarrow> [] | Some s \<Rightarrow> copier_rest c s),
      fl_done = (case dst of None \<Rightarrow> [] | Some s \<Rightarrow> stream_sunk s)\<rparr>"

definition spec_of :: "handler \<Rightarrow> spec" where
  "spec_of h =
     \<lparr>sp_phase = phase_of (h_main h),
      sp_du = flow_of (h_du h) (Some (h_down h)) (upstream h),
      sp_ud = flow_of (h_ud h) (upstream h) (Some (h_down h))\<rparr>"

text \<open>What the phases of a handler mean for its upstream and its own copy.\<close>

definition phase_inv :: "handler \<Rightarrow> bool" where
  "phase_inv h \<longleftrightarrow>
     (h_main h = MOpen \<longrightarrow> h_up h = None) \<and>
     (h_main h \<noteq> MOpen \<longrightarrow> h_up h = None \<longrightarrow> (\<exists>e. h_open h = Inl e)) \<and>
     (h_main h \<noteq> MOpen \<longrightarrow> h_main h \<noteq> MCopy \<longrightarrow> h_up h \<noteq> None \<longrightarrow> ck_pc (h_ud h) = AtEnd)"

lemma phase_inv_step: "hstep g h = Ret h' \<Longrightarrow> phase_inv h \<Longrightarrow> phase_inv h'"
proof (cases g)
  case MainG
  assume "hstep g h = Ret h'" and inv: "phase_inv h"
  with MainG have "main_step h = Ret h'" by simp
  then show ?thesis by (cases rule: main_step_cases) (use inv in \<open>auto simp: phase_inv_def\<close>)
next
  case SpawnedG
  assume "hstep g h = Ret h'" and inv: "phase_inv h"
  with SpawnedG have "spawned_step h = Ret h'" by simp
  then show ?thesis by (cases rule: spawned_step_cases) (use inv in \<open>auto simp: phase_inv_def\<close>)
qed

lemma phase_inv_start: "phase_inv (handler_start down opened)"
  by (simp add: phase_inv_def handler_start_def)

lemma phase_inv_reaches: "reaches (handler_start down opened) h \<Longrightarrow> phase_inv h"
  by (induction rule: reaches.induct) (auto intro: phase_inv_start phase_inv_step)

subsection \<open>Simulation\<close>

text \<open>A step of a copy moves its flow: a read takes nothing away, a write delivers a front.\<close>

lemma copier_step_flow:
  assumes "copier_step c src dst = Ret (c', src', dst')"
  shows "flow_moves (flow_of c (Some src) (Some dst)) (flow_of c' (Some src') (Some dst'))"
  using assms
proof (cases rule: copier_step_cases)
  case (reading bs er)
  from stream_Read_contract [OF reading(2)] have "stream_avail src = bs @ stream_avail src'" by simp
  with reading show ?thesis
    by (intro flow_movesI [where x = "[]" and y = "stream_avail src"])
      (simp_all add: flow_of_def copier_rest_eqs(1) copier_rest_after_round)
next
  case (writing bs er r)
  let ?y = "if er = None then stream_avail src else []"
  have todo: "copier_rest c src = bs @ ?y" using writing(1) by (simp add: copier_rest_eqs(2))
  from writing(2) show ?thesis
  proof (cases rule: after_write_cases [where er = er and c = c])
    case all
    with writing(3,4) todo show ?thesis
      by (intro flow_movesI [where x = bs and y = ?y]) (simp_all add: flow_of_def copier_rest_after_round)
  next
    case (failed k n e)
    with writing(3,4) todo show ?thesis
      by (intro flow_movesI [where x = "take k bs" and y = "drop k bs @ ?y"])
        (simp_all add: flow_of_def copier_rest_eqs(3))
  qed
next
  case (closing_read e)
  with netx.close_sunk(1) show ?thesis
    by (intro flow_movesI [where x = "[]" and y = "[]"]) (simp_all add: flow_of_def copier_rest_eqs)
next
  case (closing_write e)
  with netx.close_sunk(2) show ?thesis
    by (intro flow_movesI [where x = "[]" and y = "[]"]) (simp_all add: flow_of_def copier_rest_eqs)
qed

text \<open>The other direction sees no difference.\<close>

lemma flow_of_frame:
  assumes "copier_step c src dst = Ret (c', src', dst')"
  shows "flow_of d (Some dst') (Some src') = flow_of d (Some dst) (Some src)"
  using copier_step_frame(1) [OF assms] copier_rest_cong [OF copier_step_frame(2) [OF assms]]
  by (simp add: flow_of_def)

lemma flow_of_close:
  assumes "prefix (stream_avail src') (stream_avail src)"
  shows "flow_moves (flow_of c (Some src) dst) (flow_of c (Some src') dst)"
  using copier_rest_mono [OF assms, of c]
  by (intro flow_movesI [where x = "[]" and y = "copier_rest c src"]) (simp_all add: flow_of_def)

text \<open>Every step of either goroutine is a step of the specification.\<close>

lemma spec_stutter: "sp_phase a \<noteq> Opening \<Longrightarrow> spec_step a a"
  using spec_du [OF _ flow_moves_refl, of a] by simp

lemma main_step_spec:
  assumes "main_step h = Ret h'" and inv: "phase_inv h"
  shows "spec_step (spec_of h) (spec_of h')"
  using assms(1)
proof (cases rule: main_step_cases)
  case (open_fails e)
  with inv spec_refused [of "spec_of h"] show ?thesis by (simp add: spec_of_def upstream_def phase_inv_def)
next
  case (open_ok up)
  with inv spec_open [of "spec_of h"] show ?thesis by (simp add: spec_of_def upstream_def phase_inv_def)
next
  case (copy_ends up)
  with spec_return [of "spec_of h"] show ?thesis
    by (simp add: spec_of_def upstream_def flow_of_def copier_rest_eqs)
next
  case (copying up c up' down')
  with copier_step_flow [OF copying(3)] spec_ud [of "spec_of h" "flow_of c (Some up') (Some down')"] flow_of_frame [OF copying(3), of "h_du h"]
  show ?thesis by (simp add: spec_of_def upstream_def)
next
  case (close_up up e up')
  with inv have "ck_pc (h_ud h) = AtEnd" by (simp add: phase_inv_def)
  with close_up netx.close_sunk(3) have "spec_of h' = spec_of h"
    by (simp add: spec_of_def upstream_def flow_of_def copier_rest_eqs)
  with close_up spec_stutter [of "spec_of h"] show ?thesis by (simp add: spec_of_def)
next
  case (close_down e down')
  have "flow_moves (sp_du (spec_of h)) (flow_of (h_du h) (Some down') (upstream h))"
    using flow_of_close [OF netx.close_avail(3) [OF close_down(2)]] by (simp add: spec_of_def)
  moreover have "spec_of h' = (spec_of h)\<lparr>sp_phase := Closed,
      sp_du := flow_of (h_du h) (Some down') (upstream h)\<rparr>"
    using close_down netx.close_sunk(3) [OF close_down(2)] upstream_eq [of h' h]
    by (simp add: spec_of_def flow_of_def)
  moreover have "sp_phase (spec_of h) = Closing" using close_down(1) by (simp add: spec_of_def)
  ultimately show ?thesis by (auto intro!: spec_close) (simp add: spec_of_def flow_of_def)
qed

lemma spawned_step_spec:
  assumes "spawned_step h = Ret h'" and inv: "phase_inv h"
  shows "spec_step (spec_of h) (spec_of h')"
  using assms(1)
proof (cases rule: spawned_step_cases)
  case (1 up c down' up')
  with inv have "sp_phase (spec_of h) \<noteq> Opening" by (cases "h_main h") (auto simp: spec_of_def phase_inv_def)
  moreover from copier_step_flow [OF 1(2)] 1(1)
  have "flow_moves (sp_du (spec_of h)) (flow_of c (Some down') (Some up'))"
    by (simp add: spec_of_def upstream_def)
  ultimately show ?thesis
    using 1 flow_of_frame [OF 1(2), of "h_ud h"] spec_du [of "spec_of h"]
    by (simp add: spec_of_def upstream_def)
qed

lemma hstep_spec: "hstep g h = Ret h' \<Longrightarrow> phase_inv h \<Longrightarrow> spec_step (spec_of h) (spec_of h')"
  by (cases g) (simp_all add: main_step_spec spawned_step_spec)

lemma reaches_spec:
  "reaches (handler_start down opened) h \<Longrightarrow> spec_run (spec_of (handler_start down opened)) (spec_of h)"
proof (induction rule: reaches.induct)
  case (reaches_step h g h')
  with hstep_spec phase_inv_reaches show ?case by (blast intro: rtranclp.rtrancl_into_rtrancl)
qed simp

text \<open>
  C6. handleStream refines two flows of bytes: every step of its two goroutines, under any schedule
  and over any streams, is a step of the specification, so that each direction only ever delivers a
  front of what it still had and loses an end of it, the direction to the downstream moves only while
  the function copies, and it closes the streams only when nothing of that direction is left.
\<close>

theorem handleStream_refines_spec:
  assumes "reaches (handler_start down opened) h"
  shows "spec_run (spec_of (handler_start down opened)) (spec_of h) \<and>
    (\<forall>g h'. hstep g h = Ret h' \<longrightarrow> spec_step (spec_of h) (spec_of h'))"
  using assms by (blast intro: reaches_spec hstep_spec phase_inv_reaches)

lemma handleStream_refines_spec_witness:
  "\<exists>h. spec_run (spec_of (handler_start run_down (Inr run_up))) (spec_of h) \<and>
     sp_phase (spec_of h) = Closed \<and> h_main h = MDone"
proof -
  obtain h up where "reaches (handler_start run_down (Inr run_up)) h" "h_main h = MDone"
    by (rule reaches_truncated) blast
  with handleStream_refines_spec show ?thesis by (fastforce simp: spec_of_def)
qed

end
