(* ===== verification/WellFormed.thy ===== *)
theory WellFormed
  imports Handler
begin

text \<open>
  The well-formed states of the four stream types, which the constructors give and every method
  keeps, and what follows in them: which errors a read can return, how often the peer is told the
  end, and when a copy can end at all.
\<close>

subsection \<open>Invariants of the stream types\<close>

text \<open>A TLS connection has no CloseRead, so none is ever called on it.\<close>

definition std_wf :: "stdStream \<Rightarrow> bool" where
  "std_wf s \<longleftrightarrow> (c_kind (ReadWriteCloser s) = TLSConn \<longrightarrow> c_closeReads (ReadWriteCloser s) = 0)"

text \<open>
  CloseSend has been called once if the writing side is closed and the stream is the client's, never
  otherwise; the callback's channel was made, and closed only after both sides.
\<close>

definition grpc_wf :: "grpc_stream \<Rightarrow> bool" where
  "grpc_wf s \<longleftrightarrow>
     g_closesends s = (if g_client s \<and> g_writeClosed s then 1 else 0) \<and>
     g_closeCallback s \<noteq> Some NilChan \<and>
     (g_closeCallback s = Some ClosedChan \<longrightarrow> g_readClosed s \<and> g_writeClosed s)"

text \<open>
  The reader's end of the pipe is never closed, only the writer's, and with no error of its own. The
  End call has been made once if the stream is closed for writing; the writer is released last.
\<close>

definition bsr_wf :: "byteStreamReader \<Rightarrow> bool" where
  "bsr_wf s \<longleftrightarrow>
     pipe_wf (bsr_pipe s) \<and> p_rerr (bsr_pipe s) = None \<and> p_werr (bsr_pipe s) \<in> {None, Some EOF}"

definition capnp_wf :: "capnpStream \<Rightarrow> bool" where
  "capnp_wf s \<longleftrightarrow>
     bsr_wf (cs_reader s) \<and> cs_ends s = (if cs_closed s then 1 else 0) \<and>
     (cs_released s \<longrightarrow> cs_closed s \<and> p_done (bsr_pipe (cs_reader s)))"

text \<open>Here Close closes the reader's end, so that reads fail from then on.\<close>

definition md_wf :: "streamImpl \<Rightarrow> bool" where
  "md_wf s \<longleftrightarrow>
     pipe_wf (bs_pipe (ms_server s)) \<and> p_rerr (bs_pipe (ms_server s)) \<in> {None, Some ErrClosedPipe} \<and>
     p_werr (bs_pipe (ms_server s)) \<in> {None, Some EOF}"

fun stream_wf :: "stream \<Rightarrow> bool" where
  "stream_wf (StdS s) = std_wf s"
| "stream_wf (GrpcS s) = grpc_wf s"
| "stream_wf (CapnpS s) = capnp_wf s"
| "stream_wf (MdS s) = md_wf s"

subsection \<open>Constructors and methods\<close>

lemma new_streams_wf:
  "stream_wf (StdS \<lparr>ReadWriteCloser = new_conn k ins ws\<rparr>)"
  "cb \<noteq> Some NilChan \<Longrightarrow> cb \<noteq> Some ClosedChan \<Longrightarrow> stream_wf (GrpcS (newGrpcStream recv send client csres cb))"
  "stream_wf (CapnpS (newCapnpStream newByteStreamReader calls wres endres))"
  "stream_wf (MdS (newStreamImpl newByteStreamServer mcalls mwres endress))"
  by (simp_all add: std_wf_def new_conn_def grpc_wf_def newGrpcStream_def capnp_wf_def bsr_wf_def
      newCapnpStream_def newByteStreamReader_def new_pipe_def pipe_wf_def md_wf_def newStreamImpl_def
      newByteStreamServer_def)

lemma conn_frame:
  "conn_Read n c = Ret (r, c') \<Longrightarrow> c_kind c' = c_kind c \<and> c_closeReads c' = c_closeReads c"
  "conn_Write b c = Ret (q, c') \<Longrightarrow> c_kind c' = c_kind c \<and> c_closeReads c' = c_closeReads c"
proof -
  show "conn_Read n c = Ret (r, c') \<Longrightarrow> c_kind c' = c_kind c \<and> c_closeReads c' = c_closeReads c"
    by (cases r; simp only:; erule conn_Read_cases; simp)
  show "conn_Write b c = Ret (q, c') \<Longrightarrow> c_kind c' = c_kind c \<and> c_closeReads c' = c_closeReads c"
    by (simp add: conn_Write_def split: if_splits list.splits option.splits prod.splits) auto
qed

lemma std_ops_wf:
  "std_Read n s = Ret (r, s') \<Longrightarrow> std_wf s \<Longrightarrow> std_wf s'"
  "std_Write b s = Ret (q, s') \<Longrightarrow> std_wf s \<Longrightarrow> std_wf s'"
  "std_CloseRead s = Ret (e, s') \<Longrightarrow> std_wf s \<Longrightarrow> std_wf s'"
  "std_CloseWrite s = Ret (e, s') \<Longrightarrow> std_wf s \<Longrightarrow> std_wf s'"
  "std_Close s = Ret (e, s') \<Longrightarrow> std_wf s \<Longrightarrow> std_wf s'"
proof -
  show "std_Read n s = Ret (r, s') \<Longrightarrow> std_wf s \<Longrightarrow> std_wf s'"
    using conn_frame(1) by (fastforce simp: std_wf_def std_Read_def then_do_Ret_iff)
  show "std_Write b s = Ret (q, s') \<Longrightarrow> std_wf s \<Longrightarrow> std_wf s'"
    using conn_frame(2) by (fastforce simp: std_wf_def std_Write_def then_do_Ret_iff)
  show "std_CloseRead s = Ret (e, s') \<Longrightarrow> std_wf s \<Longrightarrow> std_wf s'"
    by (cases "c_kind (ReadWriteCloser s)")
      (auto simp: std_wf_def std_CloseRead_def conn_CloseRead_def split: if_splits)
  show "std_CloseWrite s = Ret (e, s') \<Longrightarrow> std_wf s \<Longrightarrow> std_wf s'"
    by (auto simp: std_wf_def std_CloseWrite_def conn_CloseWrite_def split: if_splits)
  show "std_Close s = Ret (e, s') \<Longrightarrow> std_wf s \<Longrightarrow> std_wf s'"
    by (auto simp: std_wf_def std_Close_def conn_Close_def)
qed

lemma grpc_Read_wf:
  assumes "grpc_Read n s = Ret (r, s')" and "grpc_wf s"
  shows "grpc_wf s'"
proof -
  from assms(1) have "grpc_Read n s = Ret ((fst r, snd r), s')" by simp
  then show ?thesis by (cases rule: grpc_Read_cases) (use assms(2) in \<open>simp_all add: grpc_wf_def\<close>)
qed

lemma grpc_ops_wf:
  "grpc_Write b s = Ret (q, s') \<Longrightarrow> grpc_wf s \<Longrightarrow> grpc_wf s'"
  "grpc_CloseRead s = Ret (e, s') \<Longrightarrow> grpc_wf s \<Longrightarrow> grpc_wf s'"
  "grpc_CloseWrite s = Ret (e, s') \<Longrightarrow> grpc_wf s \<Longrightarrow> grpc_wf s'"
proof -
  show "grpc_Write b s = Ret (q, s') \<Longrightarrow> grpc_wf s \<Longrightarrow> grpc_wf s'"
    by (cases "g_send s") (auto simp: grpc_wf_def grpc_Write_def split: if_splits option.splits)
  show "grpc_CloseRead s = Ret (e, s') \<Longrightarrow> grpc_wf s \<Longrightarrow> grpc_wf s'"
    by (auto simp: grpc_wf_def grpc_CloseRead_def)
  show "grpc_CloseWrite s = Ret (e, s') \<Longrightarrow> grpc_wf s \<Longrightarrow> grpc_wf s'"
    by (auto simp: grpc_wf_def grpc_CloseWrite_def Let_def split: if_splits)
qed

lemma grpc_Close_wf:
  assumes "grpc_Close s = Ret (e, s')" and "grpc_wf s"
  shows "grpc_wf s'"
proof -
  from assms(1) obtain e1 s1 e2 s2 where c: "grpc_CloseRead s = Ret (e1, s1)" "grpc_CloseWrite s1 = Ret (e2, s2)"
      and s': "(case g_closeCallback s2 of None \<Rightarrow> Ret (errors_Join [e1, e2], s2)
        | Some done \<Rightarrow> then_do (close_chan done) (\<lambda>done'. Ret (errors_Join [e1, e2], s2\<lparr>g_closeCallback := Some done'\<rparr>)))
        = Ret (e, s')"
    by (auto simp: grpc_Close_def then_do_Ret_iff Let_def)
  from grpc_ops_wf(2) [OF c(1) assms(2)] grpc_ops_wf(3) [OF c(2)] have "grpc_wf s2" by blast
  moreover have "g_readClosed s2 \<and> g_writeClosed s2"
    using c by (auto simp: grpc_CloseRead_def grpc_CloseWrite_def Let_def split: if_splits)
  ultimately show ?thesis
    using s' by (cases "g_closeCallback s2") (auto simp: grpc_wf_def go_simps)
qed

lemma bsr_ops_wf:
  "bsr_wf s \<Longrightarrow> bsr_wf (serve_call c s)"
  "bsr_wf s \<Longrightarrow> bsr_Read n s = Ret (r, s') \<Longrightarrow> bsr_wf s'"
  "bsr_wf s \<Longrightarrow> bsr_Close s = Ret (e, s') \<Longrightarrow> bsr_wf s' \<and> p_done (bsr_pipe s')"
  by (cases c; auto simp: bsr_wf_def bsr_Write_def bsr_End_def bsr_Read_def bsr_Close_def Let_def go_simps
      pipe_wf_def pipe_write_def pipe_read_def pipe_close_writer_def split: sum.splits if_splits option.splits)+

lemma run_calls_wf: "run_calls s cs = (s', cs') \<Longrightarrow> bsr_wf s \<Longrightarrow> bsr_wf s'"
  by (induction s cs rule: run_calls.induct) (auto simp: bsr_ops_wf(1) split: if_splits)

lemma capnp_Read_wf:
  assumes "capnp_Read n s = Ret (r, s')" and "capnp_wf s"
  shows "capnp_wf s'"
proof -
  from assms(1) obtain r1 cs where run: "run_calls (cs_reader s) (cs_calls s) = (r1, cs)"
      and "\<exists>r2. bsr_Read n r1 = Ret (r, r2) \<and> s' = s\<lparr>cs_reader := r2, cs_calls := cs\<rparr>"
    by (auto simp: capnp_Read_def then_do_Ret_iff split: prod.splits)
  then obtain r2 where rd: "bsr_Read n r1 = Ret (r, r2)" and s': "s' = s\<lparr>cs_reader := r2, cs_calls := cs\<rparr>"
    by blast
  have done1: "p_done (bsr_pipe r1)" if "p_done (bsr_pipe (cs_reader s))"
    using run that by (cases "cs_calls s") auto
  have "p_done (bsr_pipe r2) = p_done (bsr_pipe r1)" using pipe_read_done [OF bsr_Read_pipe [OF rd]] by simp
  with done1 run_calls_wf [OF run] bsr_ops_wf(2) [OF _ rd] assms(2) s' show ?thesis
    by (auto simp: capnp_wf_def)
qed

lemma capnp_ops_wf:
  "capnp_Write b s = Ret (q, s') \<Longrightarrow> capnp_wf s \<Longrightarrow> capnp_wf s'"
  "capnp_CloseRead s = Ret (e, s') \<Longrightarrow> capnp_wf s \<Longrightarrow> capnp_wf s'"
  "capnp_CloseWrite s = Ret (e, s') \<Longrightarrow> capnp_wf s \<Longrightarrow> capnp_wf s'"
proof -
  show "capnp_Write b s = Ret (q, s') \<Longrightarrow> capnp_wf s \<Longrightarrow> capnp_wf s'"
    by (cases "cs_wres s") (auto simp: capnp_wf_def capnp_Write_def split: if_splits option.splits)
  show "capnp_CloseRead s = Ret (e, s') \<Longrightarrow> capnp_wf s \<Longrightarrow> capnp_wf s'"
    using bsr_ops_wf(3) [of "cs_reader s"] by (fastforce simp: capnp_wf_def capnp_CloseRead_def then_do_Ret_iff)
  show "capnp_CloseWrite s = Ret (e, s') \<Longrightarrow> capnp_wf s \<Longrightarrow> capnp_wf s'"
    by (auto simp: capnp_wf_def capnp_CloseWrite_def split: if_splits)
qed

lemma capnp_Close_wf:
  assumes "capnp_Close s = Ret (e, s')" and "capnp_wf s"
  shows "capnp_wf s'"
proof -
  from assms(1) obtain e1 s1 e2 s2 where c: "capnp_CloseWrite s = Ret (e1, s1)" "capnp_CloseRead s1 = Ret (e2, s2)"
      and s': "s' = s2\<lparr>cs_released := True\<rparr>"
    by (auto simp: capnp_Close_def then_do_Ret_iff split: if_splits)
  from capnp_ops_wf(2,3) c assms(2) have "capnp_wf s2" by blast
  with s' c capnp_CloseWrite_Ret [OF c(1)] capnp_CloseRead_Ret [OF c(2)] show ?thesis
    by (simp add: capnp_wf_def)
qed

definition bss_wf :: "byteStreamServer \<Rightarrow> bool" where
  "bss_wf b \<longleftrightarrow>
     pipe_wf (bs_pipe b) \<and> p_rerr (bs_pipe b) \<in> {None, Some ErrClosedPipe} \<and> p_werr (bs_pipe b) \<in> {None, Some EOF}"

lemma md_wf_server: "md_wf s \<longleftrightarrow> bss_wf (ms_server s)"
  by (simp add: md_wf_def bss_wf_def)

lemma pipe_errs:
  "pipe_write bs p = (e, p') \<Longrightarrow> p_rerr p' = p_rerr p \<and> p_werr p' = p_werr p"
  "pipe_read n p = Ret (r, p') \<Longrightarrow> p_rerr p' = p_rerr p \<and> p_werr p' = p_werr p"
  "p_rerr (pipe_close_writer p) = p_rerr p" "p_werr (pipe_close_reader p) = p_werr p"
  "p_werr (pipe_close_writer p) = (case p_werr p of None \<Rightarrow> Some EOF | e \<Rightarrow> e)"
  "p_rerr (pipe_close_reader p) = (case p_rerr p of None \<Rightarrow> Some ErrClosedPipe | e \<Rightarrow> e)"
  by (auto simp: pipe_write_def pipe_read_def pipe_close_writer_def pipe_close_reader_def
      split: if_splits option.splits)

lemma bss_Call_wf:
  assumes "bss_wf b"
  shows "bss_wf (bss_Call c b)"
proof -
  have upd: "bss_wf b'" if "bs_pipe b' = p" "pipe_write data (bs_pipe b) = (e, p)" for data e p b'
    using assms that pipe_wf_ops(5) [of "bs_pipe b" data e p] pipe_errs(1) [of data "bs_pipe b" e p]
    by (simp add: bss_wf_def)
  have clw: "bss_wf b'" if "bs_pipe b' = pipe_close_writer (bs_pipe b)" for b'
    using assms that pipe_wf_ops(2) [of "bs_pipe b"] by (auto simp: bss_wf_def pipe_errs)
  have same: "bss_wf b'" if "bs_pipe b' = bs_pipe b" for b'
    using assms that by (simp add: bss_wf_def)
  show ?thesis
    unfolding bss_Call_def
    by (auto simp: Let_def intro: upd clw same split: sum.split option.split prod.split)
qed

lemma md_run_calls_wf: "md_run_calls b cs = (b', cs') \<Longrightarrow> bss_wf b \<Longrightarrow> bss_wf b'"
  by (induction b cs rule: md_run_calls.induct) (auto simp: bss_Call_wf split: if_splits)

lemma md_ops_wf:
  "md_Read n s = Ret (r, s') \<Longrightarrow> md_wf s \<Longrightarrow> md_wf s'"
  "md_Write b s = Ret (q, s') \<Longrightarrow> md_wf s \<Longrightarrow> md_wf s'"
  "md_CloseRead s = Ret (e, s') \<Longrightarrow> md_wf s \<Longrightarrow> md_wf s'"
  "md_CloseWrite s = Ret (e, s') \<Longrightarrow> md_wf s \<Longrightarrow> md_wf s'"
  "md_Close s = Ret (e, s') \<Longrightarrow> md_wf s \<Longrightarrow> md_wf s'"
proof -
  show "md_Read n s = Ret (r, s') \<Longrightarrow> md_wf s \<Longrightarrow> md_wf s'"
  proof (erule md_Read_split)
    fix b
    assume "md_wf s" and run: "md_run_calls (ms_server s) (ms_calls s) = (b, ms_calls s')"
      and rd: "pipe_read n (bs_pipe b) = Ret (r, bs_pipe (ms_server s'))"
    then have "bss_wf b" using md_run_calls_wf by (simp add: md_wf_server)
    with pipe_wf_ops(4) [OF _ rd] pipe_errs(2) [OF rd] show "md_wf s'" by (simp add: md_wf_server bss_wf_def)
  qed
  show "md_Write b s = Ret (q, s') \<Longrightarrow> md_wf s \<Longrightarrow> md_wf s'"
    by (cases "ms_wres s") (auto simp: md_wf_def md_Write_def)
  show "md_CloseRead s = Ret (e, s') \<Longrightarrow> md_wf s \<Longrightarrow> md_wf s'"
      "md_CloseWrite s = Ret (e, s') \<Longrightarrow> md_wf s \<Longrightarrow> md_wf s'"
    by (simp_all add: md_CloseRead_def md_CloseWrite_def)
  show "md_Close s = Ret (e, s') \<Longrightarrow> md_wf s \<Longrightarrow> md_wf s'"
    using pipe_wf_ops(3) [of "bs_pipe (ms_server s)"]
    by (cases "ms_endres s") (auto simp: md_wf_def md_Close_def Let_def pipe_errs)
qed

subsection \<open>Streams as interface values\<close>

lemma stream_ops_wf:
  "stream_Read n s = Ret (r, s') \<Longrightarrow> stream_wf s \<Longrightarrow> stream_wf s'"
  "stream_Write b s = Ret (q, s') \<Longrightarrow> stream_wf s \<Longrightarrow> stream_wf s'"
  "stream_CloseRead s = Ret (e, s') \<Longrightarrow> stream_wf s \<Longrightarrow> stream_wf s'"
  "stream_CloseWrite s = Ret (e, s') \<Longrightarrow> stream_wf s \<Longrightarrow> stream_wf s'"
  "stream_Close s = Ret (e, s') \<Longrightarrow> stream_wf s \<Longrightarrow> stream_wf s'"
  by (cases s; auto simp: lift_Ret_iff intro: std_ops_wf grpc_Read_wf grpc_ops_wf grpc_Close_wf capnp_Read_wf
      capnp_ops_wf capnp_Close_wf md_ops_wf)+

text \<open>A property of streams that every method keeps, and how it passes to the two streams of a handler.\<close>

definition kept :: "(stream \<Rightarrow> bool) \<Rightarrow> bool" where
  "kept P \<longleftrightarrow>
     (\<forall>s s'. P s \<longrightarrow>
        (\<forall>n r. stream_Read n s = Ret (r, s') \<longrightarrow> P s') \<and> (\<forall>b q. stream_Write b s = Ret (q, s') \<longrightarrow> P s') \<and>
        (\<forall>e. stream_CloseRead s = Ret (e, s') \<or> stream_CloseWrite s = Ret (e, s') \<or> stream_Close s = Ret (e, s') \<longrightarrow>
           P s'))"

lemma keptD:
  assumes "kept P" and "P s"
  shows "stream_Read n s = Ret (r, s') \<Longrightarrow> P s'" "stream_Write b s = Ret (q, s') \<Longrightarrow> P s'"
    "stream_CloseRead s = Ret (e, s') \<Longrightarrow> P s'" "stream_CloseWrite s = Ret (e, s') \<Longrightarrow> P s'"
    "stream_Close s = Ret (e, s') \<Longrightarrow> P s'"
  using assms unfolding kept_def by blast+

definition handler_streams :: "(stream \<Rightarrow> bool) \<Rightarrow> (stream \<Rightarrow> bool) \<Rightarrow> handler \<Rightarrow> bool" where
  "handler_streams P Q h \<longleftrightarrow>
     P (h_down h) \<and> (\<forall>up. h_up h = Some up \<longrightarrow> Q up) \<and> (\<forall>up. h_open h = Inr up \<longrightarrow> Q up)"

lemma copier_step_kept:
  assumes "copier_step c src dst = Ret (c', src', dst')" and "kept P" "kept Q" and "P src" "Q dst"
  shows "P src' \<and> Q dst'"
  using assms(1)
proof (cases rule: copier_step_cases)
  case (reading bs er)
  with keptD(1) [OF assms(2,4)] assms(5) show ?thesis by simp
next
  case (writing bs er r)
  with keptD(2) [OF assms(3,5)] assms(4) show ?thesis by simp
next
  case (closing_read e)
  with keptD(3) [OF assms(2,4)] assms(5) show ?thesis by simp
next
  case (closing_write e)
  with keptD(4) [OF assms(3,5)] assms(4) show ?thesis by simp
qed

lemma hstep_kept:
  assumes "hstep g h = Ret h'" and P: "kept P" and Q: "kept Q" and inv: "handler_streams P Q h"
  shows "handler_streams P Q h'"
proof (cases g)
  case MainG
  with assms(1) have "main_step h = Ret h'" by simp
  then show ?thesis
  proof (cases rule: main_step_cases)
    case (copying up c up' down')
    with copier_step_kept [OF copying(3) Q P] inv show ?thesis by (auto simp: handler_streams_def)
  next
    case (close_up up e up')
    with inv keptD(5) [OF Q, of up] show ?thesis by (auto simp: handler_streams_def)
  next
    case (close_down e down')
    with inv keptD(5) [OF P, of "h_down h"] show ?thesis by (auto simp: handler_streams_def)
  qed (use inv in \<open>auto simp: handler_streams_def\<close>)
next
  case SpawnedG
  with assms(1) have "spawned_step h = Ret h'" by simp
  then obtain up c down' up' where up: "h_up h = Some up"
      and st: "copier_step (h_du h) (h_down h) up = Ret (c, down', up')"
      and h': "h' = h\<lparr>h_du := c, h_down := down', h_up := Some up'\<rparr>"
    by (rule spawned_step_cases)
  from copier_step_kept [OF st P Q] inv up h' show ?thesis by (simp add: handler_streams_def)
qed

lemma reaches_kept:
  assumes "reaches (handler_start down opened) h" and "kept P" "kept Q"
    and "P down" and "\<And>up. opened = Inr up \<Longrightarrow> Q up"
  shows "handler_streams P Q h"
  using assms(1)
proof (induction rule: reaches.induct)
  case reaches_start
  from assms(4,5) show ?case by (simp add: handler_streams_def handler_start_def)
next
  case (reaches_step h g h')
  with hstep_kept assms(2,3) show ?case by blast
qed

lemma stream_wf_kept: "kept stream_wf"
  unfolding kept_def using stream_ops_wf by blast

lemma capnp_writes_reader:
  "capnp_Write b s = Ret (q, s') \<Longrightarrow> cs_reader s' = cs_reader s \<and> cs_calls s' = cs_calls s"
  "capnp_CloseWrite s = Ret (e, s') \<Longrightarrow> cs_reader s' = cs_reader s \<and> cs_calls s' = cs_calls s"
proof -
  show "cs_reader s' = cs_reader s \<and> cs_calls s' = cs_calls s" if "capnp_Write b s = Ret (q, s')"
    using that by (cases "cs_wres s") (auto simp: capnp_Write_def split: if_splits option.splits)
qed (auto dest: capnp_CloseWrite_Ret)

subsection \<open>Streams whose peer never ends\<close>

text \<open>
  The peer makes no End call, as when its side of the stream was dropped or its process has gone: it
  may write, or make no call at all.
\<close>

fun never_ends :: "stream \<Rightarrow> bool" where
  "never_ends (CapnpS s) \<longleftrightarrow> CallEnd \<notin> set (cs_calls s) \<and> \<not> p_done (bsr_pipe (cs_reader s))"
| "never_ends (MdS s) \<longleftrightarrow> (\<forall>c \<in> set (ms_calls s). \<not> is_end_call c) \<and> \<not> p_done (bs_pipe (ms_server s))"
| "never_ends _ \<longleftrightarrow> False"

lemma run_calls_open:
  "run_calls s cs = (s', cs') \<Longrightarrow> CallEnd \<notin> set cs \<Longrightarrow> \<not> p_done (bsr_pipe s) \<Longrightarrow>
   CallEnd \<notin> set cs' \<and> \<not> p_done (bsr_pipe s')"
proof (induction s cs rule: run_calls.induct)
  case (2 s c cs)
  from "2.prems" obtain arg where "c = CallWrite arg" by (cases c) auto
  with "2.prems"(3) have "\<not> p_done (bsr_pipe (serve_call c s))"
    by (cases arg) (auto simp: bsr_Write_def pipe_write_def)
  with 2 show ?case by (auto split: if_splits)
qed simp

lemma md_run_calls_open:
  "md_run_calls b cs = (b', cs') \<Longrightarrow> \<forall>c \<in> set cs. \<not> is_end_call c \<Longrightarrow> \<not> p_done (bs_pipe b) \<Longrightarrow>
   (\<forall>c \<in> set cs'. \<not> is_end_call c) \<and> \<not> p_done (bs_pipe b')"
proof (induction b cs rule: md_run_calls.induct)
  case (2 b c cs)
  have "\<not> p_done (bs_pipe (bss_Call c b))"
    using "2.prems"(2,3) by (auto simp: bss_Call_def is_end_call_def pipe_write_def md_ids split: sum.split)
  with 2 show ?case by (auto split: if_splits)
qed simp

lemma pipe_read_open: "pipe_read n p = Ret ((bs, er), p') \<Longrightarrow> \<not> p_done p \<Longrightarrow> er = None \<and> \<not> p_done p'"
  using pipe_read_done pipe_read_err by (cases er) fastforce+

text \<open>A read from such a stream never returns an error, not even io.EOF.\<close>

lemma never_ends_Read:
  assumes "stream_Read n s = Ret ((bs, er), s')" and "never_ends s"
  shows "er = None \<and> never_ends s'"
proof (cases s)
  case (CapnpS x)
  with assms(1) obtain x' where rd: "capnp_Read n x = Ret ((bs, er), x')" and s': "s' = CapnpS x'"
    by (auto simp: lift_Ret_iff)
  from rd obtain r1 where "run_calls (cs_reader x) (cs_calls x) = (r1, cs_calls x')"
      and r: "bsr_Read n r1 = Ret ((bs, er), cs_reader x')"
    by (rule capnp_Read_split)
  with run_calls_open [of "cs_reader x" "cs_calls x"] assms(2) CapnpS
  have "CallEnd \<notin> set (cs_calls x')" "\<not> p_done (bsr_pipe r1)" by auto
  with pipe_read_open [OF bsr_Read_pipe [OF r]] s' show ?thesis by simp
next
  case (MdS x)
  with assms(1) obtain x' where rd: "md_Read n x = Ret ((bs, er), x')" and s': "s' = MdS x'"
    by (auto simp: lift_Ret_iff)
  from rd obtain b where "md_run_calls (ms_server x) (ms_calls x) = (b, ms_calls x')"
      and r: "pipe_read n (bs_pipe b) = Ret ((bs, er), bs_pipe (ms_server x'))"
    by (rule md_Read_split)
  with md_run_calls_open [of "ms_server x" "ms_calls x"] assms(2) MdS
  have "\<forall>c \<in> set (ms_calls x'). \<not> is_end_call c" "\<not> p_done (bs_pipe b)" by auto
  with pipe_read_open [OF r] s' show ?thesis by simp
qed (use assms(2) in simp_all)

lemma never_ends_writes:
  "stream_Write b s = Ret (q, s') \<Longrightarrow> never_ends s \<Longrightarrow> never_ends s'"
  "stream_CloseWrite s = Ret (e, s') \<Longrightarrow> never_ends s \<Longrightarrow> never_ends s'"
proof -
  show "stream_Write b s = Ret (q, s') \<Longrightarrow> never_ends s \<Longrightarrow> never_ends s'"
    by (cases s) (auto simp: lift_Ret_iff md_Write_def dest: capnp_writes_reader(1) split: list.splits)
  show "stream_CloseWrite s = Ret (e, s') \<Longrightarrow> never_ends s \<Longrightarrow> never_ends s'"
    by (cases s) (auto simp: lift_Ret_iff md_CloseWrite_def dest: capnp_writes_reader(2))
qed

text \<open>So the copy from it stays in its loop until a write fails.\<close>

definition keeps_copying :: "copier \<Rightarrow> stream \<Rightarrow> bool" where
  "keeps_copying c src \<longleftrightarrow>
     (ck_err c = None \<longrightarrow> never_ends src \<and> (ck_pc c = AtRead \<or> (\<exists>bs. ck_pc c = AtWrite bs None))) \<and>
     (ck_err c \<noteq> None \<longrightarrow> ck_pc c \<in> {AtCloseRead, AtCloseWrite, AtEnd})"

lemma keeps_copying_step:
  assumes "copier_step c src dst = Ret (c', src', dst')" and inv: "keeps_copying c src"
  shows "keeps_copying c' src'"
  using assms(1)
proof (cases rule: copier_step_cases)
  case (reading bs er)
  with inv have "ck_err c = None" "never_ends src" by (auto simp: keeps_copying_def)
  with never_ends_Read [OF reading(2)] reading(4) show ?thesis
    by (auto simp: keeps_copying_def after_round_def)
next
  case (writing bs er r)
  with inv have *: "ck_err c = None" "never_ends src" "er = None" by (auto simp: keeps_copying_def)
  from writing(2) show ?thesis
  proof (cases rule: after_write_cases [where er = er and c = c])
    case all
    with * writing show ?thesis by (simp add: keeps_copying_def after_round_def)
  next
    case (failed k n e)
    with * writing show ?thesis by (simp add: keeps_copying_def)
  qed
qed (use inv in \<open>auto simp: keeps_copying_def\<close>)

definition waits_inv :: "handler \<Rightarrow> bool" where
  "waits_inv h \<longleftrightarrow>
     (h_main h = MOpen \<longrightarrow> h_up h = None \<and> h_ud h = copier_start \<and> (\<exists>up. h_open h = Inr up \<and> never_ends up)) \<and>
     (h_main h \<noteq> MOpen \<longrightarrow> (ck_err (h_ud h) = None \<longrightarrow> h_main h = MCopy) \<and>
        (\<exists>up. h_up h = Some up \<and> (h_main h = MCopy \<longrightarrow> keeps_copying (h_ud h) up)))"

lemma waits_inv_step:
  assumes "hstep g h = Ret h'" and inv: "waits_inv h"
  shows "waits_inv h'"
proof (cases g)
  case MainG
  with assms(1) have "main_step h = Ret h'" by simp
  then show ?thesis
  proof (cases rule: main_step_cases)
    case (copying up c up' down')
    with keeps_copying_step [OF copying(3)] inv show ?thesis by (auto simp: waits_inv_def)
  next
    case (copy_ends up)
    with inv show ?thesis by (auto simp: waits_inv_def keeps_copying_def)
  qed (use inv in \<open>auto simp: waits_inv_def keeps_copying_def copier_start_def\<close>)
next
  case SpawnedG
  with assms(1) have "spawned_step h = Ret h'" by simp
  then obtain up c down' up' where up: "h_up h = Some up"
      and st: "copier_step (h_du h) (h_down h) up = Ret (c, down', up')"
      and h': "h' = h\<lparr>h_du := c, h_down := down', h_up := Some up'\<rparr>"
    by (rule spawned_step_cases)
  have "never_ends up \<longrightarrow> never_ends up'"
    using st by (cases rule: copier_step_cases) (auto intro: never_ends_writes)
  with inv up h' show ?thesis by (auto simp: waits_inv_def keeps_copying_def)
qed

lemma waits_inv_reaches:
  assumes "reaches (handler_start down (Inr up)) h" and "never_ends up"
  shows "waits_inv h"
  using assms(1)
proof (induction rule: reaches.induct)
  case reaches_start
  from assms(2) show ?case by (simp add: waits_inv_def handler_start_def)
next
  case (reaches_step h g h')
  with waits_inv_step show ?case by blast
qed

subsection \<open>Properties\<close>

text \<open>
  C19. The four stream types have well-formed states, which their constructors give and which
  handleStream never leaves under any schedule: CloseRead is never called on a TLS connection,
  CloseSend or End is made once per stream exactly when it is closed for writing, the done channel of
  a gRPC handler is closed only after both sides, and the pipe of a Cap'n Proto stream is only ever
  closed at the end and with the error that Read and Write report.
\<close>

theorem handleStream_keeps_types:
  assumes "reaches (handler_start down opened) h"
    and "stream_wf down" and "\<forall>up. opened = Inr up \<longrightarrow> stream_wf up"
  shows "stream_wf (h_down h) \<and> (\<forall>up. h_up h = Some up \<longrightarrow> stream_wf up)"
  using reaches_kept [OF assms(1) stream_wf_kept stream_wf_kept assms(2)] assms(3)
  by (simp add: handler_streams_def)

text \<open>
  C25. A Read of a well-formed Cap'n Proto stream reports no error but io.EOF, and then no bytes:
  whether the peer ended the stream or this side closed it, the copy that reads sees a clean end.
\<close>

theorem capnp_read_error_is_EOF:
  assumes "stream_wf (CapnpS s)" and "capnp_Read n s = Ret ((bs, Some e), s')"
  shows "e = EOF \<and> bs = []"
proof -
  from assms(2) obtain r1 where run: "run_calls (cs_reader s) (cs_calls s) = (r1, cs_calls s')"
      and rd: "bsr_Read n r1 = Ret ((bs, Some e), cs_reader s')"
    by (rule capnp_Read_split)
  have "bsr_wf r1" using run_calls_wf [OF run] assms(1) by (simp add: capnp_wf_def)
  with pipe_read_err [OF bsr_Read_pipe [OF rd]] show ?thesis
    by (auto simp: bsr_wf_def pipe_wf_def readCloseError_def)
qed


text \<open>A Cap'n Proto upstream for the witnesses: the peer writes one byte, and ends the stream or not.\<close>

definition capnp_up :: "bs_call list \<Rightarrow> stream" where
  "capnp_up calls = CapnpS (newCapnpStream newByteStreamReader (CallWrite (Inr [5]) # calls) [] None)"

lemmas capnp_eval = capnp_up_def newCapnpStream_def newByteStreamReader_def new_pipe_def capnp_Read_def
  bsr_Read_def bsr_Write_def pipe_read_def pipe_write_def pipe_idle_def reply_of_waiting_def

lemma run_calls_stop: "p_pend (bsr_pipe s) \<noteq> None \<Longrightarrow> run_calls s cs = (s, cs)"
  by (cases cs) (auto simp: pipe_idle_def)

lemma run_capnp_copying:
  "\<exists>h. hrun [MainG, MainG] (handler_start run_down (Inr (capnp_up calls))) = Ret h \<and>
     h_main h = MCopy \<and> ck_err (h_ud h) = None \<and> (\<exists>up. h_up h = Some up)"
  by (rule hrun_ex_step, (simp add: run_eval capnp_eval run_calls_stop; fail))+ (rule hrun_ex_end, simp)

lemma reaches_capnp_copying:
  obtains h up where "reaches (handler_start run_down (Inr (capnp_up calls))) h" "h_main h = MCopy"
    "ck_err (h_ud h) = None" "h_up h = Some up"
  using run_capnp_copying hrun_reaches_start by blast

lemma handleStream_keeps_types_witness:
  "\<exists>h up. reaches (handler_start run_down (Inr (capnp_up [CallEnd]))) h \<and> h_up h = Some up \<and> stream_wf up"
proof -
  obtain h up where r: "reaches (handler_start run_down (Inr (capnp_up [CallEnd]))) h" "h_up h = Some up"
    by (rule reaches_capnp_copying) blast
  have "stream_wf run_down" "stream_wf (capnp_up [CallEnd])"
    by (simp_all only: run_down_def capnp_up_def new_streams_wf)
  with handleStream_keeps_types [OF r(1)] r show ?thesis by blast
qed

lemma capnp_read_error_is_EOF_witness:
  "\<exists>s e s'. capnp_Read 4 s = Ret (([], Some e), s') \<and> e = EOF"
proof -
  let ?s = "newCapnpStream newByteStreamReader [CallEnd] [] None"
  have "stream_wf (CapnpS ?s)" by (rule new_streams_wf)
  moreover have "\<exists>e s'. capnp_Read 4 ?s = Ret (([], Some e), s')"
    by (simp add: capnp_eval bsr_End_def pipe_close_writer_def)
  ultimately show ?thesis using capnp_read_error_is_EOF by blast
qed


end
