(* ===== verification/Feed.thy ===== *)
theory Feed
  imports Handler
begin

text \<open>
  Streams whose peer is still sending. So far what a stream delivers was there from the start; here
  more of it arrives while the handler runs: \<open>feed\<close> adds a packet at the end of what the peer sends,
  \<open>cut\<close> the end of it (for a connection or gRPC, io.EOF or an error; for Cap'n Proto the End call).
  The copies of a handler are then related to everything fed so far.
\<close>

subsection \<open>Arrivals\<close>

fun feed :: "bytes \<Rightarrow> stream \<Rightarrow> stream" where
  "feed p (StdS s) = StdS (s\<lparr>ReadWriteCloser := (ReadWriteCloser s)\<lparr>c_in := c_in (ReadWriteCloser s) @ [Inr p]\<rparr>\<rparr>)"
| "feed p (GrpcS s) = GrpcS (s\<lparr>g_recv := g_recv s @ [Inr p]\<rparr>)"
| "feed p (CapnpS s) = CapnpS (s\<lparr>cs_calls := cs_calls s @ [CallWrite (Inr p)]\<rparr>)"
| "feed p (MdS s) =
     MdS (s\<lparr>ms_calls := ms_calls s @
       [\<lparr>mc_iid = ByteStream_InterfaceId, mc_mid = ByteStream_Write_MethodId, mc_params = Inr p\<rparr>]\<rparr>)"

fun cut :: "err \<Rightarrow> stream \<Rightarrow> stream" where
  "cut e (StdS s) = StdS (s\<lparr>ReadWriteCloser := (ReadWriteCloser s)\<lparr>c_in := c_in (ReadWriteCloser s) @ [Inl e]\<rparr>\<rparr>)"
| "cut e (GrpcS s) = GrpcS (s\<lparr>g_recv := g_recv s @ [Inl e]\<rparr>)"
| "cut e (CapnpS s) = CapnpS (s\<lparr>cs_calls := cs_calls s @ [CallEnd]\<rparr>)"
| "cut e (MdS s) = MdS (s\<lparr>ms_calls := ms_calls s @ [ByteStream_End e]\<rparr>)"

text \<open>What is fed now will be delivered: neither end has closed the stream, and it has not been cut.\<close>

fun no_error :: "(err + bytes) list \<Rightarrow> bool" where
  "no_error [] = True"
| "no_error (Inr _ # rs) = no_error rs"
| "no_error (Inl _ # _) = False"

fun growing :: "stream \<Rightarrow> bool" where
  "growing (StdS s) \<longleftrightarrow> c_closes (ReadWriteCloser s) = 0 \<and> no_error (c_in (ReadWriteCloser s))"
| "growing (GrpcS s) \<longleftrightarrow> \<not> g_readClosed s \<and> no_error (g_recv s)"
| "growing (CapnpS s) \<longleftrightarrow> \<not> p_done (bsr_pipe (cs_reader s)) \<and> CallEnd \<notin> set (cs_calls s)"
| "growing (MdS s) \<longleftrightarrow> \<not> p_done (bs_pipe (ms_server s)) \<and> (\<forall>c \<in> set (ms_calls s). \<not> is_end_call c)"

lemma script_bytes_feed:
  "script_bytes (rs @ [Inr p]) = (if no_error rs then script_bytes rs @ p else script_bytes rs)"
  by (induction rs rule: no_error.induct) auto

lemma script_bytes_cut: "script_bytes (rs @ [Inl e]) = script_bytes rs"
  by (induction rs rule: no_error.induct) auto

lemma no_error_append: "no_error (rs @ qs) \<longleftrightarrow> no_error rs \<and> no_error qs"
  by (induction rs rule: no_error.induct) auto

lemma calls_bytes_feed:
  "calls_bytes (cs @ [CallWrite (Inr p)]) = (if CallEnd \<in> set cs then calls_bytes cs else calls_bytes cs @ p)"
  by (induction cs rule: calls_bytes.induct) auto

lemma calls_bytes_cut: "calls_bytes (cs @ [CallEnd]) = calls_bytes cs"
  by (induction cs rule: calls_bytes.induct) auto

lemma md_calls_bytes_feed:
  "md_calls_bytes (cs @ [\<lparr>mc_iid = ByteStream_InterfaceId, mc_mid = ByteStream_Write_MethodId, mc_params = Inr p\<rparr>]) =
   (if \<exists>c \<in> set cs. is_end_call c then md_calls_bytes cs else md_calls_bytes cs @ p)"
  by (induction cs) (auto simp: is_end_call_def call_bytes_def md_ids)

lemma md_calls_bytes_cut: "md_calls_bytes (cs @ [ByteStream_End e]) = md_calls_bytes cs"
  by (induction cs) (auto simp: is_end_call_def ByteStream_End_def)

lemma feed_stream:
  "stream_sunk (feed p s) = stream_sunk s" "growing (feed p s) = growing s"
  "stream_sunk (cut e s) = stream_sunk s" "\<not> growing (cut e s)"
proof -
  show "stream_sunk (feed p s) = stream_sunk s" "stream_sunk (cut e s) = stream_sunk s"
    by (cases s; simp add: std_sunk_def grpc_sunk_def capnp_sunk_def md_sunk_def)+
  show "growing (feed p s) = growing s"
    by (cases s) (simp_all add: no_error_append is_end_call_def md_ids)
  show "\<not> growing (cut e s)"
    by (cases s) (simp_all add: no_error_append is_end_call_def ByteStream_End_def)
qed

lemma feed_avail:
  "stream_avail (feed p s) = (if growing s then stream_avail s @ p else stream_avail s)"
proof (cases s)
  case (StdS x)
  then show ?thesis by (simp add: std_avail_def Let_def script_bytes_feed)
next
  case (GrpcS x)
  then show ?thesis by (simp add: grpc_avail_def script_bytes_feed)
next
  case (CapnpS x)
  then show ?thesis by (simp add: capnp_avail_def reader_avail_def calls_bytes_feed)
next
  case (MdS x)
  then show ?thesis by (auto simp: md_avail_def server_avail_def md_calls_bytes_feed)
qed

lemma cut_avail: "stream_avail (cut e s) = stream_avail s"
proof (cases s)
  case (StdS x)
  then show ?thesis by (simp add: std_avail_def Let_def script_bytes_cut)
next
  case (GrpcS x)
  then show ?thesis by (simp add: grpc_avail_def script_bytes_cut)
next
  case (CapnpS x)
  then show ?thesis by (simp add: capnp_avail_def reader_avail_def calls_bytes_cut)
next
  case (MdS x)
  then show ?thesis by (simp add: md_avail_def server_avail_def md_calls_bytes_cut)
qed

subsection \<open>The methods\<close>

text \<open>A stream that grows after a call grew before it; closing one that still grows took nothing away.\<close>

lemma std_growing_back:
  "std_Read n s = Ret ((bs, er), s') \<Longrightarrow> growing (StdS s') \<Longrightarrow> growing (StdS s)"
  "std_Write b s = Ret (q, s') \<Longrightarrow> growing (StdS s') \<Longrightarrow> growing (StdS s)"
  "std_CloseRead s = Ret (e, s') \<Longrightarrow> growing (StdS s') = growing (StdS s) \<and> std_avail s' = std_avail s"
  "std_CloseWrite s = Ret (e, s') \<Longrightarrow> growing (StdS s') = growing (StdS s)"
  "std_Close s = Ret (e, s') \<Longrightarrow> \<not> growing (StdS s')"
proof -
  show "growing (StdS s)" if "std_Read n s = Ret ((bs, er), s')" "growing (StdS s')"
  proof -
    from that(1) obtain c where "conn_Read n (ReadWriteCloser s) = Ret ((bs, er), c)" and s': "s' = s\<lparr>ReadWriteCloser := c\<rparr>"
      by (auto simp: std_Read_def then_do_Ret_iff)
    from this(1) show ?thesis
      by (cases rule: conn_Read_cases) (use s' that(2) in \<open>auto split: if_splits\<close>)
  qed
  show "std_Write b s = Ret (q, s') \<Longrightarrow> growing (StdS s') \<Longrightarrow> growing (StdS s)"
    by (auto simp: std_Write_def conn_Write_def then_do_Ret_iff split: if_splits list.splits option.splits prod.splits)
  show "std_CloseRead s = Ret (e, s') \<Longrightarrow> growing (StdS s') = growing (StdS s) \<and> std_avail s' = std_avail s"
    by (auto simp: std_CloseRead_def conn_CloseRead_def std_avail_def Let_def split: if_splits)
  show "std_CloseWrite s = Ret (e, s') \<Longrightarrow> growing (StdS s') = growing (StdS s)"
    by (auto simp: std_CloseWrite_def conn_CloseWrite_def split: if_splits)
  show "std_Close s = Ret (e, s') \<Longrightarrow> \<not> growing (StdS s')"
    by (auto simp: std_Close_def conn_Close_def)
qed

lemma grpc_growing_back:
  "grpc_Read n s = Ret ((bs, er), s') \<Longrightarrow> growing (GrpcS s') \<Longrightarrow> growing (GrpcS s)"
  "grpc_Write b s = Ret (q, s') \<Longrightarrow> growing (GrpcS s') \<Longrightarrow> growing (GrpcS s)"
  "grpc_CloseRead s = Ret (e, s') \<Longrightarrow> \<not> growing (GrpcS s')"
  "grpc_CloseWrite s = Ret (e, s') \<Longrightarrow> growing (GrpcS s') = growing (GrpcS s)"
  "grpc_Close s = Ret (e, s') \<Longrightarrow> \<not> growing (GrpcS s')"
proof -
  show "growing (GrpcS s)" if "grpc_Read n s = Ret ((bs, er), s')" "growing (GrpcS s')"
    using that(1) by (cases rule: grpc_Read_cases) (use that(2) in auto)
  show "grpc_Write b s = Ret (q, s') \<Longrightarrow> growing (GrpcS s') \<Longrightarrow> growing (GrpcS s)"
    by (auto simp: grpc_Write_def split: if_splits list.splits option.splits)
  show "grpc_CloseRead s = Ret (e, s') \<Longrightarrow> \<not> growing (GrpcS s')"
    by (auto simp: grpc_CloseRead_def)
  show "grpc_CloseWrite s = Ret (e, s') \<Longrightarrow> growing (GrpcS s') = growing (GrpcS s)"
    by (auto simp: grpc_CloseWrite_def Let_def split: if_splits)
  show "\<not> growing (GrpcS s')" if "grpc_Close s = Ret (e, s')"
    using grpc_Close_closed [OF that] by simp
qed

lemma run_calls_growing:
  "run_calls s cs = (s', cs') \<Longrightarrow> \<not> p_done (bsr_pipe s') \<Longrightarrow> CallEnd \<notin> set cs' \<Longrightarrow>
   \<not> p_done (bsr_pipe s) \<and> CallEnd \<notin> set cs"
proof (induction s cs rule: run_calls.induct)
  case (2 s c cs)
  show ?case
  proof (cases "pipe_idle (bsr_pipe s) \<and> \<not> p_done (bsr_pipe s)")
    case True
    with 2 have "\<not> p_done (bsr_pipe (serve_call c s))" "CallEnd \<notin> set cs" by auto
    then have "c \<noteq> CallEnd" by (auto simp: bsr_End_def Let_def)
    with True \<open>CallEnd \<notin> set cs\<close> show ?thesis by simp
  qed (use 2 in auto)
qed simp

lemma md_run_calls_growing:
  "md_run_calls b cs = (b', cs') \<Longrightarrow> \<not> p_done (bs_pipe b') \<Longrightarrow> \<forall>c \<in> set cs'. \<not> is_end_call c \<Longrightarrow>
   \<not> p_done (bs_pipe b) \<and> (\<forall>c \<in> set cs. \<not> is_end_call c)"
proof (induction b cs rule: md_run_calls.induct)
  case (2 b c cs)
  show ?case
  proof (cases "pipe_idle (bs_pipe b) \<and> \<not> p_done (bs_pipe b)")
    case True
    with 2 have *: "\<not> p_done (bs_pipe (bss_Call c b))" "\<forall>c \<in> set cs. \<not> is_end_call c" by auto
    then have "\<not> is_end_call c" by (auto simp: bss_Call_def is_end_call_def md_ids Let_def)
    with True * show ?thesis by simp
  qed (use 2 in auto)
qed simp

lemma capnp_growing_back:
  "capnp_Read n s = Ret ((bs, er), s') \<Longrightarrow> growing (CapnpS s') \<Longrightarrow> growing (CapnpS s)"
  "capnp_Write b s = Ret (q, s') \<Longrightarrow> growing (CapnpS s') \<Longrightarrow> growing (CapnpS s)"
  "capnp_CloseRead s = Ret (e, s') \<Longrightarrow> \<not> growing (CapnpS s')"
  "capnp_CloseWrite s = Ret (e, s') \<Longrightarrow> growing (CapnpS s') = growing (CapnpS s)"
  "capnp_Close s = Ret (e, s') \<Longrightarrow> \<not> growing (CapnpS s')"
proof -
  show "growing (CapnpS s)" if "capnp_Read n s = Ret ((bs, er), s')" "growing (CapnpS s')"
  proof -
    from that(1) obtain r1 where run: "run_calls (cs_reader s) (cs_calls s) = (r1, cs_calls s')"
        and rd: "bsr_Read n r1 = Ret ((bs, er), cs_reader s')"
      by (rule capnp_Read_split)
    from pipe_read_done [OF bsr_Read_pipe [OF rd]] that(2) run_calls_growing [OF run] show ?thesis by simp
  qed
  show "capnp_Write b s = Ret (q, s') \<Longrightarrow> growing (CapnpS s') \<Longrightarrow> growing (CapnpS s)"
    by (auto simp: capnp_Write_def split: if_splits list.splits option.splits)
  show "capnp_CloseRead s = Ret (e, s') \<Longrightarrow> \<not> growing (CapnpS s')"
    by (auto dest: capnp_CloseRead_Ret)
  show "capnp_CloseWrite s = Ret (e, s') \<Longrightarrow> growing (CapnpS s') = growing (CapnpS s)"
    by (auto dest: capnp_CloseWrite_Ret)
  show "capnp_Close s = Ret (e, s') \<Longrightarrow> \<not> growing (CapnpS s')"
    by (auto dest: capnp_Close_Ret(3))
qed

lemma md_growing_back:
  "md_Read n s = Ret ((bs, er), s') \<Longrightarrow> growing (MdS s') \<Longrightarrow> growing (MdS s)"
  "md_Write b s = Ret (q, s') \<Longrightarrow> growing (MdS s') \<Longrightarrow> growing (MdS s)"
  "md_Close s = Ret (e, s') \<Longrightarrow> \<not> growing (MdS s')"
proof -
  show "growing (MdS s)" if "md_Read n s = Ret ((bs, er), s')" "growing (MdS s')"
  proof -
    from that(1) obtain b where run: "md_run_calls (ms_server s) (ms_calls s) = (b, ms_calls s')"
        and rd: "pipe_read n (bs_pipe b) = Ret ((bs, er), bs_pipe (ms_server s'))"
      by (rule md_Read_split)
    from pipe_read_done [OF rd] that(2) md_run_calls_growing [OF run] show ?thesis by simp
  qed
  show "md_Write b s = Ret (q, s') \<Longrightarrow> growing (MdS s') \<Longrightarrow> growing (MdS s)"
    by (auto simp: md_Write_def split: list.splits)
  show "md_Close s = Ret (e, s') \<Longrightarrow> \<not> growing (MdS s')"
    by (auto simp: md_Close_def Let_def split: list.splits)
qed

lemma stream_growing_back:
  "stream_Read n s = Ret ((bs, er), s') \<Longrightarrow> growing s' \<Longrightarrow> growing s"
  "stream_Write b s = Ret (q, s') \<Longrightarrow> growing s' \<Longrightarrow> growing s"
  "stream_CloseWrite s = Ret (e, s') \<Longrightarrow> growing s' \<Longrightarrow> growing s"
proof -
  show "stream_Read n s = Ret ((bs, er), s') \<Longrightarrow> growing s' \<Longrightarrow> growing s"
    using std_growing_back(1) grpc_growing_back(1) capnp_growing_back(1) md_growing_back(1)
    by (cases s) (simp_all add: lift_Ret_iff del: growing.simps, blast+)
  show "stream_Write b s = Ret (q, s') \<Longrightarrow> growing s' \<Longrightarrow> growing s"
    using std_growing_back(2) grpc_growing_back(2) capnp_growing_back(2) md_growing_back(2)
    by (cases s) (simp_all add: lift_Ret_iff del: growing.simps, blast+)
  show "stream_CloseWrite s = Ret (e, s') \<Longrightarrow> growing s' \<Longrightarrow> growing s"
    using std_growing_back(4) grpc_growing_back(4) capnp_growing_back(4)
    by (cases s) (simp_all add: lift_Ret_iff md_CloseWrite_def del: growing.simps, blast+)
qed

lemma stream_close_growing:
  "stream_CloseRead s = Ret (e, s') \<Longrightarrow> growing s' \<Longrightarrow> growing s \<and> stream_avail s' = stream_avail s"
  "stream_Close s = Ret (e, s') \<Longrightarrow> \<not> growing s'"
proof -
  show "growing s \<and> stream_avail s' = stream_avail s" if "stream_CloseRead s = Ret (e, s')" "growing s'"
  proof (cases s)
    case (StdS x)
    with that(1) obtain y where "std_CloseRead x = Ret (e, y)" "s' = StdS y" by (auto simp: lift_Ret_iff)
    with std_growing_back(3) that(2) StdS show ?thesis by (metis stream_avail.simps(1))
  next
    case (GrpcS x)
    with that grpc_growing_back(3) show ?thesis by (auto simp: lift_Ret_iff simp del: growing.simps)
  next
    case (CapnpS x)
    with that capnp_growing_back(3) show ?thesis by (auto simp: lift_Ret_iff simp del: growing.simps)
  next
    case (MdS x)
    with that show ?thesis by (auto simp: lift_Ret_iff md_CloseRead_def simp del: growing.simps)
  qed
  show "\<not> growing s'" if "stream_Close s = Ret (e, s')"
    using that std_growing_back(5) grpc_growing_back(5) capnp_growing_back(5) md_growing_back(3)
    by (cases s) (auto simp: lift_Ret_iff simp del: growing.simps)
qed

subsection \<open>One direction of a handler\<close>

text \<open>
  What has been fed into the source so far (\<open>T\<close>), what has come out at the destination and what the
  copy still has in hand: nothing but a front of \<open>T\<close>, and while the copy and its source are alive
  all of \<open>T\<close>.
\<close>

definition live :: "copier \<Rightarrow> stream \<Rightarrow> bool" where
  "live c src \<longleftrightarrow> growing src \<and> (ck_pc c = AtRead \<or> (\<exists>bs. ck_pc c = AtWrite bs None))"

definition fwd :: "copier \<Rightarrow> stream \<Rightarrow> bytes \<Rightarrow> bytes \<Rightarrow> bool" where
  "fwd c src out T \<longleftrightarrow>
     prefix (out @ copier_rest c src) T \<and> (live c src \<longrightarrow> out @ copier_rest c src = T)"

lemma fwd_start: "stream_avail src = [] \<Longrightarrow> fwd copier_start src [] []"
  by (simp add: fwd_def copier_rest_def copier_start_def)

lemma live_after_round: "live (after_round er c) src \<Longrightarrow> er = None \<and> growing src"
  by (auto simp: live_def after_round_def split: option.splits)

lemma fwd_step:
  assumes step: "copier_step c src dst = Ret (c', src', dst')" and inv: "fwd c src (stream_sunk dst) T"
  shows "fwd c' src' (stream_sunk dst') T"
  using step
proof (cases rule: copier_step_cases)
  case (reading bs er)
  from stream_Read_contract [OF reading(2)] have av: "stream_avail src = bs @ stream_avail src'" by simp
  have pre: "prefix (stream_sunk dst @ bs @ stream_avail src') T"
    using inv reading(1) av by (simp add: fwd_def copier_rest_eqs(1))
  have all: "stream_sunk dst @ bs @ stream_avail src' = T" if "growing src'"
    using inv reading(1) av stream_growing_back(1) [OF reading(2) that] by (simp add: fwd_def live_def copier_rest_eqs(1))
  show ?thesis
  proof (cases "er = None")
    case True
    with reading(3,4) pre all show ?thesis
      by (auto simp: fwd_def copier_rest_after_round live_def)
  next
    case False
    then have "\<not> live c' src'" using reading(4) by (auto simp: live_def after_round_def split: option.splits)
    moreover have "prefix (stream_sunk dst @ bs) T" using pre by (auto intro: append_prefixD)
    ultimately show ?thesis
      using False reading(3,4) prefix_appendI [of "stream_sunk dst" bs]
      by (auto simp: fwd_def copier_rest_after_round)
  qed
next
  case (writing bs er r)
  let ?rest = "if er = None then stream_avail src else []"
  have pre: "prefix (stream_sunk dst @ bs @ ?rest) T"
    using inv writing(1) by (auto simp: fwd_def copier_rest_eqs(2) split: if_splits)
  from writing(2) show ?thesis
  proof (cases rule: after_write_cases [where er = er and c = c])
    case all
    have "stream_sunk dst @ bs @ stream_avail src = T" if "er = None" "growing src"
      using inv writing(1) that by (simp add: fwd_def live_def copier_rest_eqs(2))
    with all writing(3,4) pre live_after_round show ?thesis
      by (auto simp: fwd_def copier_rest_after_round)
  next
    case (failed k n e)
    have "prefix (stream_sunk dst @ take k bs) (stream_sunk dst @ bs @ ?rest)"
      by (simp add: prefix_def) (metis append.assoc append_take_drop_id)
    with pre have "prefix (stream_sunk dst @ take k bs) T" by (rule prefix_order.trans [rotated])
    with failed writing(3,4) show ?thesis by (simp add: fwd_def live_def copier_rest_eqs(3))
  qed
next
  case (closing_read e)
  with inv netx.close_sunk(1) show ?thesis
    by (simp add: fwd_def live_def copier_rest_eqs)
next
  case (closing_write e)
  with inv netx.close_sunk(2) [OF closing_write(2)] show ?thesis
    by (simp add: fwd_def live_def copier_rest_eqs)
qed

lemma fwd_frame:
  assumes "fwd c src out T" and "prefix (stream_avail src') (stream_avail src)"
    and "growing src' \<Longrightarrow> growing src \<and> stream_avail src' = stream_avail src"
  shows "fwd c src' out T"
proof -
  have "prefix (out @ copier_rest c src') (out @ copier_rest c src)"
    using copier_rest_mono [OF assms(2), of c] by simp
  with assms(1) have "prefix (out @ copier_rest c src') T"
    unfolding fwd_def by (blast intro: prefix_order.trans)
  moreover have "out @ copier_rest c src' = T" if "live c src'"
  proof -
    from that assms(3) have *: "live c src" "stream_avail src' = stream_avail src" by (auto simp: live_def)
    from assms(1) *(1) have "out @ copier_rest c src = T" by (simp add: fwd_def)
    with copier_rest_cong [OF *(2), of c] show ?thesis by simp
  qed
  ultimately show ?thesis by (simp add: fwd_def)
qed

lemma fwd_close: "fwd c src out T \<Longrightarrow> stream_Close src = Ret (e, src') \<Longrightarrow> fwd c src' out T"
  using stream_close_growing(2) netx.close_avail(3) by (blast intro: fwd_frame)

lemma fwd_cut: "fwd c src out T \<Longrightarrow> fwd c (cut e src) out T"
  by (erule fwd_frame) (simp_all add: cut_avail feed_stream(4))

lemma fwd_feed:
  assumes "fwd c src out T"
  shows "fwd c (feed p src) out (T @ p)"
proof (cases "live c src")
  case True
  then have g: "growing src" and pc: "ck_pc c = AtRead \<or> (\<exists>bs. ck_pc c = AtWrite bs None)" by (auto simp: live_def)
  from pc g have "copier_rest c (feed p src) = copier_rest c src @ p"
    by (auto simp: copier_rest_def feed_avail)
  with True assms have "out @ copier_rest c (feed p src) = T @ p" by (auto simp: fwd_def)
  then show ?thesis by (simp add: fwd_def)
next
  case False
  then have "copier_rest c (feed p src) = copier_rest c src" "\<not> live c (feed p src)"
    by (auto simp: live_def feed_avail feed_stream(2) copier_rest_def split: copy_pc.splits option.splits)
  with assms show ?thesis by (simp add: fwd_def)
qed

text \<open>What the copy of the other direction does to this one's source: it writes to it and closes it for writing.\<close>

lemma fwd_other_step:
  assumes step: "copier_step c src dst = Ret (c', src', dst')" and inv: "fwd d dst out T"
  shows "fwd d dst' out T"
proof (rule fwd_frame [OF inv])
  note av = copier_step_frame(2) [OF step]
  then show "prefix (stream_avail dst') (stream_avail dst)" by simp
  show "growing dst \<and> stream_avail dst' = stream_avail dst" if "growing dst'"
    using step
    by (cases rule: copier_step_cases) (use av that stream_growing_back(2,3) in auto)
qed

subsection \<open>A handler between two peers\<close>

text \<open>
  The bytes its client side was fed (\<open>TD\<close>) and its upstream was fed (\<open>TU\<close>), on one handler and its
  goroutine. The upstream stream starts empty, and is fed once it is open.
\<close>

definition up_sunk :: "handler \<Rightarrow> bytes" where
  "up_sunk h = (case h_up h of None \<Rightarrow> [] | Some up \<Rightarrow> stream_sunk up)"

definition down_sunk :: "handler \<Rightarrow> bytes" where
  "down_sunk h = stream_sunk (h_down h)"

definition fresh_stream :: "stream \<Rightarrow> bool" where
  "fresh_stream s \<longleftrightarrow> stream_avail s = [] \<and> stream_sunk s = []"

definition hflow :: "handler \<Rightarrow> bytes \<Rightarrow> bytes \<Rightarrow> bool" where
  "hflow h TD TU \<longleftrightarrow>
     (\<forall>up. h_open h = Inr up \<longrightarrow> fresh_stream up) \<and> fwd (h_du h) (h_down h) (up_sunk h) TD \<and>
     (case h_up h of
        None \<Rightarrow> h_ud h = copier_start \<and> down_sunk h = [] \<and> TU = []
      | Some up \<Rightarrow> h_main h \<noteq> MOpen \<and> fwd (h_ud h) up (down_sunk h) TU)"

lemma hflow_start:
  assumes "fresh_stream down" and "\<And>up. opened = Inr up \<Longrightarrow> fresh_stream up"
  shows "hflow (handler_start down opened) [] []"
  using assms by (simp add: hflow_def handler_start_def fresh_stream_def up_sunk_def down_sunk_def fwd_start)

lemma main_step_flow:
  assumes "main_step h = Ret h'" and inv: "hflow h TD TU"
  shows "hflow h' TD TU"
  using assms(1)
proof (cases rule: main_step_cases)
  case (open_fails e)
  with inv show ?thesis by (simp add: hflow_def up_sunk_def down_sunk_def split: option.splits)
next
  case (open_ok up)
  with inv have "h_up h = None" by (simp add: hflow_def split: option.splits)
  with inv open_ok show ?thesis
    by (simp add: hflow_def up_sunk_def down_sunk_def fresh_stream_def fwd_start)
next
  case (copy_ends up)
  with inv show ?thesis by (simp add: hflow_def up_sunk_def down_sunk_def)
next
  case (copying up c up' down')
  note step = copying(3)
  from inv copying(2) have "fwd (h_du h) (h_down h) (stream_sunk up) TD" "fwd (h_ud h) up (stream_sunk (h_down h)) TU"
    by (simp_all add: hflow_def up_sunk_def down_sunk_def)
  from fwd_other_step [OF step this(1)] fwd_step [OF step this(2)] copier_step_frame(1) [OF step]
  show ?thesis using inv copying by (simp add: hflow_def up_sunk_def down_sunk_def)
next
  case (close_up up e up')
  with inv have "fwd (h_ud h) up (stream_sunk (h_down h)) TU" by (simp add: hflow_def down_sunk_def)
  from fwd_close [OF this close_up(3)] netx.close_sunk(3) [OF close_up(3)]
  show ?thesis using inv close_up by (simp add: hflow_def up_sunk_def down_sunk_def)
next
  case (close_down e down')
  from inv have "fwd (h_du h) (h_down h) (up_sunk h) TD" by (simp add: hflow_def)
  from fwd_close [OF this close_down(2)] netx.close_sunk(3) [OF close_down(2)]
  show ?thesis using inv close_down by (simp add: hflow_def up_sunk_def down_sunk_def split: option.splits)
qed

lemma spawned_step_flow:
  assumes "spawned_step h = Ret h'" and inv: "hflow h TD TU"
  shows "hflow h' TD TU"
proof -
  from assms(1) obtain up c down' up' where up: "h_up h = Some up"
      and step: "copier_step (h_du h) (h_down h) up = Ret (c, down', up')"
      and h': "h' = h\<lparr>h_du := c, h_down := down', h_up := Some up'\<rparr>"
    by (rule spawned_step_cases)
  from inv up have "fwd (h_du h) (h_down h) (stream_sunk up) TD" "fwd (h_ud h) up (stream_sunk (h_down h)) TU"
    by (simp_all add: hflow_def up_sunk_def down_sunk_def)
  from fwd_step [OF step this(1)] fwd_other_step [OF step this(2)] copier_step_frame(1) [OF step]
  show ?thesis using inv up h' by (simp add: hflow_def up_sunk_def down_sunk_def)
qed

lemma hstep_flow: "hstep g h = Ret h' \<Longrightarrow> hflow h TD TU \<Longrightarrow> hflow h' TD TU"
  by (cases g) (simp_all add: main_step_flow spawned_step_flow)

text \<open>A peer sends, or is gone.\<close>

definition feed_down :: "bytes \<Rightarrow> handler \<Rightarrow> handler" where
  "feed_down p h = h\<lparr>h_down := feed p (h_down h)\<rparr>"

definition feed_up :: "bytes \<Rightarrow> handler \<Rightarrow> handler" where
  "feed_up p h = h\<lparr>h_up := map_option (feed p) (h_up h)\<rparr>"

definition cut_down :: "err \<Rightarrow> handler \<Rightarrow> handler" where
  "cut_down e h = h\<lparr>h_down := cut e (h_down h)\<rparr>"

definition cut_up :: "err \<Rightarrow> handler \<Rightarrow> handler" where
  "cut_up e h = h\<lparr>h_up := map_option (cut e) (h_up h)\<rparr>"

lemmas peer_defs = feed_down_def feed_up_def cut_down_def cut_up_def

lemma peer_sunk [simp]:
  "up_sunk (feed_down p h) = up_sunk h" "down_sunk (feed_down p h) = down_sunk h"
  "up_sunk (feed_up p h) = up_sunk h" "down_sunk (feed_up p h) = down_sunk h"
  "up_sunk (cut_down e h) = up_sunk h" "down_sunk (cut_down e h) = down_sunk h"
  "up_sunk (cut_up e h) = up_sunk h" "down_sunk (cut_up e h) = down_sunk h"
  by (simp_all add: peer_defs up_sunk_def down_sunk_def feed_stream split: option.splits)

lemma peer_flow:
  "hflow h TD TU \<Longrightarrow> hflow (feed_down p h) (TD @ p) TU"
  "hflow h TD TU \<Longrightarrow> h_up h \<noteq> None \<Longrightarrow> hflow (feed_up p h) TD (TU @ p)"
  "hflow h TD TU \<Longrightarrow> hflow (cut_down e h) TD TU"
  "hflow h TD TU \<Longrightarrow> hflow (cut_up e h) TD TU"
  by (simp_all add: hflow_def peer_defs up_sunk_def down_sunk_def feed_stream fwd_feed fwd_cut split: option.splits)

text \<open>What was handed over stays handed over.\<close>

lemma copier_step_sunk:
  assumes "copier_step c src dst = Ret (c', src', dst')"
  shows "prefix (stream_sunk dst) (stream_sunk dst')"
  using assms
proof (cases rule: copier_step_cases)
  case (writing bs er r)
  from writing(2) show ?thesis by (cases rule: after_write_cases) auto
next
  case (closing_write e)
  with netx.close_sunk(2) show ?thesis by auto
qed auto

lemma main_step_sunk:
  assumes "main_step h = Ret h'" and "hflow h TD TU"
  shows "prefix (up_sunk h) (up_sunk h')" and "prefix (down_sunk h) (down_sunk h')"
proof -
  have "prefix (up_sunk h) (up_sunk h') \<and> prefix (down_sunk h) (down_sunk h')"
    using assms(1)
  proof (cases rule: main_step_cases)
    case (open_ok up)
    with assms(2) have "h_up h = None" by (simp add: hflow_def split: option.splits)
    with open_ok show ?thesis by (simp add: up_sunk_def down_sunk_def)
  next
    case (copying up c up' down')
    with copier_step_sunk [OF copying(3)] copier_step_frame(1) [OF copying(3)] show ?thesis
      by (simp add: up_sunk_def down_sunk_def)
  next
    case (close_up up e up')
    with netx.close_sunk(3) [OF close_up(3)] show ?thesis by (simp add: up_sunk_def down_sunk_def)
  next
    case (close_down e down')
    with netx.close_sunk(3) [OF close_down(2)] show ?thesis by (simp add: up_sunk_def down_sunk_def)
  qed (simp_all add: up_sunk_def down_sunk_def)
  then show "prefix (up_sunk h) (up_sunk h')" and "prefix (down_sunk h) (down_sunk h')" by simp_all
qed

lemma spawned_step_sunk:
  assumes "spawned_step h = Ret h'"
  shows "prefix (up_sunk h) (up_sunk h')" and "prefix (down_sunk h) (down_sunk h')"
proof -
  from assms obtain up c down' up' where up: "h_up h = Some up"
      and step: "copier_step (h_du h) (h_down h) up = Ret (c, down', up')"
      and h': "h' = h\<lparr>h_du := c, h_down := down', h_up := Some up'\<rparr>"
    by (rule spawned_step_cases)
  with copier_step_sunk [OF step] copier_step_frame(1) [OF step]
  show "prefix (up_sunk h) (up_sunk h')" and "prefix (down_sunk h) (down_sunk h')"
    by (simp_all add: up_sunk_def down_sunk_def)
qed

lemma hstep_sunk:
  assumes "hstep g h = Ret h'" and "hflow h TD TU"
  shows "prefix (up_sunk h) (up_sunk h')" and "prefix (down_sunk h) (down_sunk h')"
  using assms main_step_sunk spawned_step_sunk by (cases g; auto)+

end
