(* ===== verification/Pair.thy ===== *)
theory Pair
  imports Feed
begin

text \<open>
  The deployment of the README while it runs: a handler of each of two proxies, the first between a
  client and a tunnel, the second between the tunnel and a target. Client and target send when they
  like, the tunnel carries what was handed to it in order and in pieces of any size, every end may be
  cut off at any moment, and the goroutines of both handlers are scheduled in any order.
\<close>

record net =
  n_a :: handler
  n_b :: handler
  n_forward :: nat
  n_backward :: nat
  n_client :: bytes
  n_target :: bytes

text \<open>
  \<open>n_forward\<close> and \<open>n_backward\<close> count the bytes the tunnel has carried, \<open>n_client\<close> and \<open>n_target\<close> are
  all the bytes the two ends have sent.
\<close>

definition net_start :: "handler \<Rightarrow> handler \<Rightarrow> net" where
  "net_start a b =
     \<lparr>n_a = a, n_b = b, n_forward = 0, n_backward = 0, n_client = [], n_target = []\<rparr>"

datatype net_event =
    StepA goroutine
  | StepB goroutine
  | ClientSends bytes
  | TargetSends bytes
  | Forward nat
  | Backward nat
  | CutClient err
  | CutForward err
  | CutBackward err
  | CutTarget err

fun net_do :: "net_event \<Rightarrow> net \<Rightarrow> net option" where
  "net_do (StepA g) n = (case hstep g (n_a n) of Ret h \<Rightarrow> Some (n\<lparr>n_a := h\<rparr>) | _ \<Rightarrow> None)"
| "net_do (StepB g) n = (case hstep g (n_b n) of Ret h \<Rightarrow> Some (n\<lparr>n_b := h\<rparr>) | _ \<Rightarrow> None)"
| "net_do (ClientSends p) n = Some (n\<lparr>n_a := feed_down p (n_a n), n_client := n_client n @ p\<rparr>)"
| "net_do (TargetSends p) n =
     (case h_up (n_b n) of
        None \<Rightarrow> None
      | Some _ \<Rightarrow> Some (n\<lparr>n_b := feed_up p (n_b n), n_target := n_target n @ p\<rparr>))"
| "net_do (Forward k) n =
     (let p = take k (drop (n_forward n) (up_sunk (n_a n)))
      in Some (n\<lparr>n_b := feed_down p (n_b n), n_forward := n_forward n + length p\<rparr>))"
| "net_do (Backward k) n =
     (case h_up (n_a n) of
        None \<Rightarrow> None
      | Some _ \<Rightarrow>
          let p = take k (drop (n_backward n) (down_sunk (n_b n)))
          in Some (n\<lparr>n_a := feed_up p (n_a n), n_backward := n_backward n + length p\<rparr>))"
| "net_do (CutClient e) n = Some (n\<lparr>n_a := cut_down e (n_a n)\<rparr>)"
| "net_do (CutForward e) n = Some (n\<lparr>n_b := cut_down e (n_b n)\<rparr>)"
| "net_do (CutBackward e) n = Some (n\<lparr>n_a := cut_up e (n_a n)\<rparr>)"
| "net_do (CutTarget e) n = Some (n\<lparr>n_b := cut_up e (n_b n)\<rparr>)"

fun net_run :: "net_event list \<Rightarrow> net \<Rightarrow> net option" where
  "net_run [] n = Some n"
| "net_run (e # es) n = Option.bind (net_do e n) (net_run es)"

subsection \<open>The invariant\<close>

definition net_inv :: "net \<Rightarrow> bool" where
  "net_inv n \<longleftrightarrow>
     n_forward n \<le> length (up_sunk (n_a n)) \<and> n_backward n \<le> length (down_sunk (n_b n)) \<and>
     hflow (n_a n) (n_client n) (take (n_backward n) (down_sunk (n_b n))) \<and>
     hflow (n_b n) (take (n_forward n) (up_sunk (n_a n))) (n_target n)"

lemma take_of_prefix: "prefix xs ys \<Longrightarrow> k \<le> length xs \<Longrightarrow> take k ys = take k xs"
  by (auto simp: prefix_def)

lemma take_more: "take (k + min (length xs - k) j) xs = take k xs @ take j (drop k xs)"
  by (simp add: take_add min_def)

lemma net_inv_start:
  assumes "hflow a [] []" and "hflow b [] []"
  shows "net_inv (net_start a b)"
  using assms by (simp add: net_inv_def net_start_def)

lemma net_do_inv:
  assumes "net_do e n = Some n'" and inv: "net_inv n"
  shows "net_inv n'"
proof (cases e)
  case (StepA g)
  with assms(1) obtain h where h: "hstep g (n_a n) = Ret h" and n': "n' = n\<lparr>n_a := h\<rparr>"
    by (auto split: outcome.splits)
  from inv have fl: "hflow (n_a n) (n_client n) (take (n_backward n) (down_sunk (n_b n)))"
    by (simp add: net_inv_def)
  note mono = hstep_sunk(1) [OF h fl]
  have "take (n_forward n) (up_sunk h) = take (n_forward n) (up_sunk (n_a n))"
    using take_of_prefix [OF mono] inv by (simp add: net_inv_def)
  with inv hstep_flow [OF h fl] prefix_length_le [OF mono] show ?thesis by (simp add: net_inv_def n')
next
  case (StepB g)
  with assms(1) obtain h where h: "hstep g (n_b n) = Ret h" and n': "n' = n\<lparr>n_b := h\<rparr>"
    by (auto split: outcome.splits)
  from inv have fl: "hflow (n_b n) (take (n_forward n) (up_sunk (n_a n))) (n_target n)"
    by (simp add: net_inv_def)
  note mono = hstep_sunk(2) [OF h fl]
  have "take (n_backward n) (down_sunk h) = take (n_backward n) (down_sunk (n_b n))"
    using take_of_prefix [OF mono] inv by (simp add: net_inv_def)
  with inv hstep_flow [OF h fl] prefix_length_le [OF mono] show ?thesis by (simp add: net_inv_def n')
next
  case (Forward k)
  with assms(1) inv show ?thesis
    by (auto simp: net_inv_def Let_def take_more peer_flow)
next
  case (Backward k)
  with assms(1) inv show ?thesis
    by (auto simp: net_inv_def Let_def take_more peer_flow split: option.splits)
qed (use assms in \<open>auto simp: net_inv_def peer_flow split: option.splits\<close>)

lemma hflow_fronts:
  assumes "hflow h TD TU"
  shows "prefix (up_sunk h) TD" and "prefix (down_sunk h) TU"
proof -
  from assms show "prefix (up_sunk h) TD" by (auto simp: hflow_def fwd_def intro: append_prefixD)
  from assms show "prefix (down_sunk h) TU"
    by (auto simp: hflow_def fwd_def intro: append_prefixD split: option.splits)
qed

lemma net_run_inv: "net_run es n = Some n' \<Longrightarrow> net_inv n \<Longrightarrow> net_inv n'"
  by (induction es arbitrary: n) (auto simp: bind_eq_Some_conv dest: net_do_inv)

subsection \<open>Properties\<close>

text \<open>
  Between a client and a target with two proxies and a tunnel between them: streams that start with
  nothing to deliver and nothing delivered.
\<close>

definition fresh_handler :: "handler \<Rightarrow> bool" where
  "fresh_handler h \<longleftrightarrow>
     h = handler_start (h_down h) (h_open h) \<and> fresh_stream (h_down h) \<and>
     (case h_open h of Inl _ \<Rightarrow> True | Inr up \<Rightarrow> fresh_stream up)"

lemma fresh_handler_flow: "fresh_handler h \<Longrightarrow> hflow h [] []"
  using hflow_start [of "h_down h" "h_open h"] by (auto simp: fresh_handler_def split: sum.splits)

text \<open>
  The bytes on their way in each direction, what has arrived first: in the second proxy's hands, in
  the tunnel, in the first proxy's hands; and whether both copies and their streams are alive.
\<close>

definition to_target :: "net \<Rightarrow> bytes" where
  "to_target n =
     up_sunk (n_b n) @ copier_rest (h_du (n_b n)) (h_down (n_b n)) @
     drop (n_forward n) (up_sunk (n_a n)) @ copier_rest (h_du (n_a n)) (h_down (n_a n))"

definition live_forward :: "net \<Rightarrow> bool" where
  "live_forward n \<longleftrightarrow> live (h_du (n_a n)) (h_down (n_a n)) \<and> live (h_du (n_b n)) (h_down (n_b n))"

definition up_rest :: "handler \<Rightarrow> bytes" where
  "up_rest h = (case h_up h of None \<Rightarrow> [] | Some up \<Rightarrow> copier_rest (h_ud h) up)"

definition up_live :: "handler \<Rightarrow> bool" where
  "up_live h \<longleftrightarrow> (case h_up h of None \<Rightarrow> False | Some up \<Rightarrow> live (h_ud h) up)"

lemma hflow_live:
  "hflow h TD TU \<Longrightarrow> live (h_du h) (h_down h) \<Longrightarrow> TD = up_sunk h @ copier_rest (h_du h) (h_down h)"
  "hflow h TD TU \<Longrightarrow> up_live h \<Longrightarrow> TU = down_sunk h @ up_rest h"
  by (simp_all add: hflow_def fwd_def up_live_def up_rest_def split: option.splits)

definition to_client :: "net \<Rightarrow> bytes" where
  "to_client n =
     down_sunk (n_a n) @ up_rest (n_a n) @ drop (n_backward n) (down_sunk (n_b n)) @ up_rest (n_b n)"

definition live_backward :: "net \<Rightarrow> bool" where
  "live_backward n \<longleftrightarrow> up_live (n_a n) \<and> up_live (n_b n)"

lemma net_inv_live:
  assumes "net_inv n"
  shows "live_forward n \<Longrightarrow> to_target n = n_client n" and "live_backward n \<Longrightarrow> to_client n = n_target n"
proof -
  from assms have a: "hflow (n_a n) (n_client n) (take (n_backward n) (down_sunk (n_b n)))"
    and b: "hflow (n_b n) (take (n_forward n) (up_sunk (n_a n))) (n_target n)"
    by (simp_all add: net_inv_def)
  show "to_target n = n_client n" if "live_forward n"
    using hflow_live(1) [OF a] hflow_live(1) [OF b] that
    by (simp add: to_target_def live_forward_def) (metis append.assoc append_take_drop_id)
  show "to_client n = n_target n" if "live_backward n"
    using hflow_live(2) [OF a] hflow_live(2) [OF b] that
    by (simp add: to_client_def live_backward_def) (metis append.assoc append_take_drop_id)
qed

lemma net_reached:
  assumes "net_run es (net_start a b) = Some n" and "fresh_handler a" and "fresh_handler b"
  shows "net_inv n"
  using net_run_inv [OF assms(1)] net_inv_start fresh_handler_flow assms(2,3) by blast

text \<open>
  C3. At every moment of a run of two proxies in a row, over any of the transports, whatever each
  end sends and when, whichever end is cut off and in whatever order the goroutines of the handlers
  run: the target has been given a front of what the client sent and the client a front of what the
  target sent; and as long as the two copies of one direction and their streams are alive, every byte
  sent in that direction has been given to the other end or is, in this order, in the hands of the
  second proxy on its way, in the tunnel or in the hands of the first.
\<close>

theorem two_proxies_in_order:
  assumes "net_run es (net_start a b) = Some n" and "fresh_handler a" and "fresh_handler b"
  shows "prefix (up_sunk (n_b n)) (n_client n) \<and> prefix (down_sunk (n_a n)) (n_target n) \<and>
    (live_forward n \<longrightarrow> to_target n = n_client n) \<and>
    (live_backward n \<longrightarrow> to_client n = n_target n)"
proof -
  have inv: "net_inv n" by (rule net_reached [OF assms])
  then have a: "hflow (n_a n) (n_client n) (take (n_backward n) (down_sunk (n_b n)))"
    and b: "hflow (n_b n) (take (n_forward n) (up_sunk (n_a n))) (n_target n)"
    by (simp_all add: net_inv_def)
  have "prefix (up_sunk (n_b n)) (n_client n)"
    using hflow_fronts(1) [OF a] hflow_fronts(1) [OF b] take_is_prefix by (blast intro: prefix_order.trans)
  moreover have "prefix (down_sunk (n_a n)) (n_target n)"
    using hflow_fronts(2) [OF a] hflow_fronts(2) [OF b] take_is_prefix by (blast intro: prefix_order.trans)
  ultimately show ?thesis using net_inv_live [OF inv] by blast
qed

text \<open>
  A run for the witness: a plain client sends two bytes, the first proxy writes them to a gRPC
  stream, gRPC carries them, the second proxy writes them to a plain target; then the client sends
  a third byte that is still before the first proxy.
\<close>

definition net_conn :: stream where
  "net_conn = StdS \<lparr>ReadWriteCloser = new_conn TCPConn [] [None, None]\<rparr>"

definition net_grpc_client :: stream where
  "net_grpc_client = GrpcS (newGrpcStream [] [None, None] True None None)"

definition net_grpc_server :: stream where
  "net_grpc_server = GrpcS (newGrpcStream [] [None, None] False None (Some OpenChan))"

lemmas net_eval = run_eval net_conn_def net_grpc_client_def net_grpc_server_def newGrpcStream_def
  grpc_Read_def grpc_Write_def net_start_def feed_down_def up_sunk_def std_sunk_def grpc_sunk_def

lemma net_ex_step:
  "net_do e n = Some n1 \<Longrightarrow> \<exists>n'. net_run es n1 = Some n' \<and> P n' \<Longrightarrow> \<exists>n'. net_run (e # es) n = Some n' \<and> P n'"
  by simp

lemma net_ex_end: "P n \<Longrightarrow> \<exists>n'. net_run [] n = Some n' \<and> P n'"
  by simp

lemma net_ran:
  "\<exists>n. net_run
      [ClientSends [1, 2], StepA MainG, StepA SpawnedG, StepA SpawnedG, Forward 8, StepB MainG,
       StepB SpawnedG, StepB SpawnedG, ClientSends [3]]
      (net_start (handler_start net_conn (Inr net_grpc_client)) (handler_start net_grpc_server (Inr net_conn))) =
      Some n \<and>
    (n_client n = [1, 2, 3] \<and> n_forward n = 2 \<and> up_sunk (n_a n) = [1, 2] \<and>
     live_forward n \<and> copier_rest (h_du (n_b n)) (h_down (n_b n)) = [])"
  by (rule net_ex_step, (simp add: net_eval Let_def; fail))+
    (rule net_ex_end, simp add: net_eval live_forward_def live_def copier_rest_def grpc_avail_def)

lemma net_fresh:
  "fresh_handler (handler_start net_conn (Inr net_grpc_client))"
  "fresh_handler (handler_start net_grpc_server (Inr net_conn))"
proof -
  have "fresh_stream net_conn" "fresh_stream net_grpc_client" "fresh_stream net_grpc_server"
    by (simp_all add: fresh_stream_def net_conn_def net_grpc_client_def net_grpc_server_def new_conn_def
        newGrpcStream_def std_avail_def std_sunk_def grpc_avail_def grpc_sunk_def)
  then show "fresh_handler (handler_start net_conn (Inr net_grpc_client))"
    "fresh_handler (handler_start net_grpc_server (Inr net_conn))"
    by (simp_all add: fresh_handler_def handler_start_def)
qed

theorem two_proxies_in_order_witness:
  "\<exists>es n. net_run es
      (net_start (handler_start net_conn (Inr net_grpc_client)) (handler_start net_grpc_server (Inr net_conn))) =
      Some n \<and> n_client n = up_sunk (n_b n) @ copier_rest (h_du (n_a n)) (h_down (n_a n)) \<and> n_client n = [1, 2, 3]"
proof -
  let ?a = "handler_start net_conn (Inr net_grpc_client)"
  let ?b = "handler_start net_grpc_server (Inr net_conn)"
  from net_ran obtain es n where r: "net_run es (net_start ?a ?b) = Some n"
      "n_client n = [1, 2, 3]" "n_forward n = 2" "up_sunk (n_a n) = [1, 2]"
      "live_forward n" "copier_rest (h_du (n_b n)) (h_down (n_b n)) = []"
    by blast
  from two_proxies_in_order [OF r(1) net_fresh] r(5) have "to_target n = n_client n" by blast
  with r have "n_client n = up_sunk (n_b n) @ copier_rest (h_du (n_a n)) (h_down (n_a n)) \<and> n_client n = [1, 2, 3]"
    by (simp add: to_target_def)
  with r(1) show ?thesis by blast
qed

end
