(* ===== verification/Packets.thy ===== *)
theory Packets
  imports Feed
begin

text \<open>
  The read side of every stream as a queue. While its peer is sending, whatever the transport is, a
  stream is a queue of packets: an arrival appends one, Read takes the front of the first one or
  waits when there is none. The buffer of grpcStream, the slice waiting in a pipe and the calls or
  packets that have not been read yet are the parts of that queue.
\<close>

subsection \<open>The abstract queue\<close>

definition read_queue :: "nat \<Rightarrow> (bytes list, bytes) action" where
  "read_queue n ps =
     (case ps of
        [] \<Rightarrow> Blocked
      | p # ps \<Rightarrow> Ret (take n p, if length p \<le> n then ps else drop n p # ps))"

subsection \<open>The queue of a stream\<close>

fun script_packets :: "script \<Rightarrow> bytes list" where
  "script_packets (Inr data # rs) = data # script_packets rs"
| "script_packets _ = []"

fun calls_packets :: "bs_call list \<Rightarrow> bytes list" where
  "calls_packets (CallWrite (Inr bs) # cs) = bs # calls_packets cs"
| "calls_packets (CallWrite (Inl e) # cs) = calls_packets cs"
| "calls_packets _ = []"

definition call_packets :: "(err + bytes) md_call \<Rightarrow> bytes list" where
  "call_packets c =
     (if mc_iid c = ByteStream_InterfaceId \<and> mc_mid c = ByteStream_Write_MethodId
      then (case mc_params c of Inl e \<Rightarrow> [] | Inr data \<Rightarrow> [data]) else [])"

fun md_calls_packets :: "(err + bytes) md_call list \<Rightarrow> bytes list" where
  "md_calls_packets [] = []"
| "md_calls_packets (c # cs) = (if is_end_call c then [] else call_packets c @ md_calls_packets cs)"

definition pipe_packets :: "pipe \<Rightarrow> bytes list" where
  "pipe_packets p = (case p_pend p of None \<Rightarrow> [] | Some bw \<Rightarrow> [bw])"

fun packets :: "stream \<Rightarrow> bytes list" where
  "packets (StdS s) = script_packets (c_in (ReadWriteCloser s))"
| "packets (GrpcS s) = (if g_buf s = [] then [] else [g_buf s]) @ script_packets (g_recv s)"
| "packets (CapnpS s) = pipe_packets (bsr_pipe (cs_reader s)) @ calls_packets (cs_calls s)"
| "packets (MdS s) = pipe_packets (bs_pipe (ms_server s)) @ md_calls_packets (ms_calls s)"

lemma script_packets_feed:
  "no_error rs \<Longrightarrow> script_packets (rs @ [Inr p]) = script_packets rs @ [p]"
  by (induction rs rule: no_error.induct) auto

lemma concat_script_packets: "concat (script_packets rs) = script_bytes rs"
  by (induction rs rule: script_packets.induct) auto

lemma calls_packets_feed:
  "CallEnd \<notin> set cs \<Longrightarrow> calls_packets (cs @ [CallWrite (Inr p)]) = calls_packets cs @ [p]"
  by (induction cs rule: calls_packets.induct) auto

lemma concat_calls_packets: "concat (calls_packets cs) = calls_bytes cs"
  by (induction cs rule: calls_packets.induct) auto

lemma md_calls_packets_feed:
  "\<forall>c \<in> set cs. \<not> is_end_call c \<Longrightarrow>
   md_calls_packets (cs @ [\<lparr>mc_iid = ByteStream_InterfaceId, mc_mid = ByteStream_Write_MethodId, mc_params = Inr p\<rparr>]) =
   md_calls_packets cs @ [p]"
  by (induction cs) (auto simp: is_end_call_def call_packets_def md_ids)

lemma concat_call_packets: "concat (call_packets c) = call_bytes c"
  by (cases "mc_iid c = ByteStream_InterfaceId \<and> mc_mid c = ByteStream_Write_MethodId"; cases "mc_params c")
    (simp_all only: call_packets_def call_bytes_def sum.case simp_thms if_True if_False concat.simps append_Nil2)

lemma concat_md_calls_packets: "concat (md_calls_packets cs) = md_calls_bytes cs"
  by (induction cs) (simp_all add: concat_call_packets)

lemma concat_pipe_packets: "\<not> p_done p \<Longrightarrow> concat (pipe_packets p) = pipe_bytes p"
  by (simp add: pipe_packets_def pipe_bytes_def split: option.splits)

lemma packets_feed: "growing s \<Longrightarrow> packets (feed p s) = packets s @ [p]"
  by (cases s) (simp_all add: script_packets_feed calls_packets_feed md_calls_packets_feed)

lemma concat_packets: "growing s \<Longrightarrow> concat (packets s) = stream_avail s"
  by (cases s)
    (simp_all add: std_avail_def grpc_avail_def capnp_avail_def reader_avail_def md_avail_def server_avail_def
      concat_script_packets concat_calls_packets concat_md_calls_packets concat_pipe_packets Let_def)

subsection \<open>Read\<close>

text \<open>What Read of a stream that grows does, on the stream and on its queue.\<close>

definition reads_queue :: "nat \<Rightarrow> stream \<Rightarrow> bool" where
  "reads_queue n s \<longleftrightarrow>
     (case read_queue n (packets s) of
        Ret (bs, ps) \<Rightarrow> \<exists>s'. stream_Read n s = Ret ((bs, None), s') \<and> growing s' \<and> packets s' = ps
      | _ \<Rightarrow> stream_Read n s = Blocked)"

lemma reads_queueI:
  "packets s = p # ps \<Longrightarrow>
   \<exists>s'. stream_Read n s = Ret ((take n p, None), s') \<and> growing s' \<and>
     packets s' = (if length p \<le> n then ps else drop n p # ps) \<Longrightarrow> reads_queue n s"
  "packets s = [] \<Longrightarrow> stream_Read n s = Blocked \<Longrightarrow> reads_queue n s"
  by (simp_all add: reads_queue_def read_queue_def)

lemma std_reads_queue:
  assumes "growing (StdS s)" and "0 < n"
  shows "reads_queue n (StdS s)"
proof (cases "c_in (ReadWriteCloser s)")
  case Nil
  with assms show ?thesis by (intro reads_queueI(2)) (simp_all add: std_Read_def conn_Read_def lift_def)
next
  case (Cons r rs)
  with assms show ?thesis
    by (cases r) (simp_all add: reads_queue_def read_queue_def std_Read_def conn_Read_def lift_def)
qed

lemma grpc_reads_queue:
  assumes "growing (GrpcS s)"
  shows "reads_queue n (GrpcS s)"
proof (cases "g_buf s = []")
  case True
  show ?thesis
  proof (cases "g_recv s")
    case Nil
    with True assms show ?thesis by (intro reads_queueI(2)) (simp_all add: grpc_Read_def lift_def)
  next
    case (Cons r rs)
    with True assms show ?thesis
      by (cases r) (auto simp: reads_queue_def read_queue_def grpc_Read_def lift_def Let_def min_def)
  qed
next
  case False
  with assms show ?thesis
    by (auto simp: reads_queue_def read_queue_def grpc_Read_def lift_def)
qed

text \<open>The calls that run before a Read of a pipe keep the queue; afterwards its head is in the pipe.\<close>

lemma run_calls_queue:
  "run_calls s cs = (s', cs') \<Longrightarrow> \<not> p_done (bsr_pipe s) \<Longrightarrow> CallEnd \<notin> set cs \<Longrightarrow>
   \<not> p_done (bsr_pipe s') \<and> CallEnd \<notin> set cs' \<and> (p_pend (bsr_pipe s') = None \<longrightarrow> cs' = []) \<and>
   pipe_packets (bsr_pipe s') @ calls_packets cs' = pipe_packets (bsr_pipe s) @ calls_packets cs"
proof (induction s cs rule: run_calls.induct)
  case (2 s c cs)
  show ?case
  proof (cases "pipe_idle (bsr_pipe s)")
    case True
    from "2.prems" obtain arg where c: "c = CallWrite arg" by (cases c) auto
    from "2.prems" True have on: "pipe_idle (bsr_pipe s) \<and> \<not> p_done (bsr_pipe s)" "run_calls (serve_call c s) cs = (s', cs')"
      by simp_all
    have "\<not> p_done (bsr_pipe (serve_call c s))" "CallEnd \<notin> set cs"
        "pipe_packets (bsr_pipe (serve_call c s)) @ calls_packets cs = pipe_packets (bsr_pipe s) @ calls_packets (c # cs)"
      using "2.prems" True c
      by (simp_all add: bsr_Write_def pipe_write_def pipe_packets_def pipe_idle_def split: sum.splits)
    with "2.IH" [OF on] show ?thesis by simp
  qed (use "2.prems" in \<open>auto simp: pipe_idle_def\<close>)
qed simp

lemma bss_Call_queue:
  assumes "\<not> is_end_call c" and "\<not> p_done (bs_pipe b)" and "pipe_idle (bs_pipe b)"
  shows "\<not> p_done (bs_pipe (bss_Call c b))" and "pipe_packets (bs_pipe (bss_Call c b)) = call_packets c"
proof -
  have "\<not> p_done (bs_pipe (bss_Call c b)) \<and> pipe_packets (bs_pipe (bss_Call c b)) = call_packets c"
  proof (cases "mc_params c")
    case (Inl e)
    with assms show ?thesis
      by (simp add: bss_Call_def is_end_call_def bss_reply_def bss_replies_def call_packets_def
          pipe_packets_def pipe_idle_def)
  next
    case (Inr p)
    with assms show ?thesis
      by (simp add: bss_Call_def is_end_call_def bss_reply_def bss_replies_def pipe_write_def
          call_packets_def pipe_packets_def pipe_idle_def)
  qed
  then show "\<not> p_done (bs_pipe (bss_Call c b))" and "pipe_packets (bs_pipe (bss_Call c b)) = call_packets c"
    by simp_all
qed

lemma md_run_calls_queue:
  "md_run_calls b cs = (b', cs') \<Longrightarrow> \<not> p_done (bs_pipe b) \<Longrightarrow> \<forall>c \<in> set cs. \<not> is_end_call c \<Longrightarrow>
   \<not> p_done (bs_pipe b') \<and> (\<forall>c \<in> set cs'. \<not> is_end_call c) \<and> (p_pend (bs_pipe b') = None \<longrightarrow> cs' = []) \<and>
   pipe_packets (bs_pipe b') @ md_calls_packets cs' = pipe_packets (bs_pipe b) @ md_calls_packets cs"
proof (induction b cs rule: md_run_calls.induct)
  case (2 b c cs)
  show ?case
  proof (cases "pipe_idle (bs_pipe b)")
    case True
    with "2.prems" have on: "pipe_idle (bs_pipe b) \<and> \<not> p_done (bs_pipe b)" "md_run_calls (bss_Call c b) cs = (b', cs')"
      by simp_all
    from "2.prems" have c: "\<not> is_end_call c" "\<forall>c \<in> set cs. \<not> is_end_call c" by simp_all
    have "pipe_packets (bs_pipe b) = []" using True by (simp add: pipe_packets_def pipe_idle_def)
    with "2.IH" [OF on bss_Call_queue(1) [OF c(1)] c(2)] bss_Call_queue(2) [OF c(1)] c(1) "2.prems"(2) True
    show ?thesis by simp
  qed (use "2.prems" in \<open>auto simp: pipe_idle_def\<close>)
qed simp

lemma capnp_reads_queue:
  assumes "growing (CapnpS s)"
  shows "reads_queue n (CapnpS s)"
proof -
  obtain r cs where run: "run_calls (cs_reader s) (cs_calls s) = (r, cs)" by fastforce
  from assms run_calls_queue [OF run] have on: "\<not> p_done (bsr_pipe r)" "CallEnd \<notin> set cs"
      "p_pend (bsr_pipe r) = None \<longrightarrow> cs = []"
      "packets (CapnpS s) = pipe_packets (bsr_pipe r) @ calls_packets cs" by simp_all
  show ?thesis
  proof (cases "p_pend (bsr_pipe r)")
    case None
    with on run show ?thesis
      by (intro reads_queueI(2)) (simp_all add: pipe_packets_def capnp_Read_def bsr_Read_def pipe_read_def lift_def)
  next
    case (Some bw)
    with on run show ?thesis
      by (intro reads_queueI(1) [where p = bw and ps = "calls_packets cs"])
        (simp_all add: pipe_packets_def capnp_Read_def bsr_Read_def pipe_read_def lift_def)
  qed
qed

lemma md_reads_queue:
  assumes "growing (MdS s)"
  shows "reads_queue n (MdS s)"
proof -
  obtain b cs where run: "md_run_calls (ms_server s) (ms_calls s) = (b, cs)" by fastforce
  from assms md_run_calls_queue [OF run] have on: "\<not> p_done (bs_pipe b)" "\<forall>c \<in> set cs. \<not> is_end_call c"
      "p_pend (bs_pipe b) = None \<longrightarrow> cs = []"
      "packets (MdS s) = pipe_packets (bs_pipe b) @ md_calls_packets cs" by simp_all
  show ?thesis
  proof (cases "p_pend (bs_pipe b)")
    case None
    with on run show ?thesis
      by (intro reads_queueI(2)) (simp_all add: pipe_packets_def md_Read_def pipe_read_def lift_def)
  next
    case (Some bw)
    with on run show ?thesis
      by (intro reads_queueI(1) [where p = bw and ps = "md_calls_packets cs"])
        (simp_all add: pipe_packets_def md_Read_def pipe_read_def lift_def bss_replies_def)
  qed
qed

lemma stream_reads_queue: "growing s \<Longrightarrow> 0 < n \<Longrightarrow> reads_queue n s"
  using std_reads_queue grpc_reads_queue capnp_reads_queue md_reads_queue by (cases s) auto

text \<open>The other side of a stream leaves the queue as it is.\<close>

lemma stream_Write_packets: "stream_Write b s = Ret (q, s') \<Longrightarrow> packets s' = packets s"
  by (cases s)
    (auto simp: lift_Ret_iff std_Write_def conn_Write_def grpc_Write_def capnp_Write_def md_Write_def
      then_do_Ret_iff split: if_splits list.splits option.splits prod.splits)

lemma stream_CloseWrite_packets: "stream_CloseWrite s = Ret (e, s') \<Longrightarrow> packets s' = packets s"
  by (cases s)
    (auto simp: lift_Ret_iff std_CloseWrite_def conn_CloseWrite_def grpc_CloseWrite_def capnp_CloseWrite_def
      md_CloseWrite_def Let_def split: if_splits)

subsection \<open>Property\<close>

text \<open>
  C10. A stream of any transport, while its peer sends, is a queue of packets: Read does what
  read_queue does on its queue, returns no error and waits exactly when the queue is empty; what
  arrives goes to the end of the queue; and the bytes of the queue are those the stream has to deliver.
\<close>

theorem stream_refines_queue:
  assumes "growing s" and "0 < n"
  shows "(case read_queue n (packets s) of
      Ret (bs, ps) \<Rightarrow> \<exists>s'. stream_Read n s = Ret ((bs, None), s') \<and> growing s' \<and> packets s' = ps
    | _ \<Rightarrow> stream_Read n s = Blocked) \<and>
    packets (feed p s) = packets s @ [p] \<and> concat (packets s) = stream_avail s"
  using stream_reads_queue [OF assms] packets_feed [OF assms(1)] concat_packets [OF assms(1)]
  by (simp add: reads_queue_def)

definition queue_sample :: stream where
  "queue_sample = CapnpS (newCapnpStream newByteStreamReader
     [CallWrite (Inl EOF), CallWrite (Inr [1, 2, 3]), CallWrite (Inr [4])] [] None)"

theorem stream_refines_queue_witness:
  "\<exists>s. stream_Read 2 queue_sample = Ret (([1, 2], None), s) \<and> packets s = [[3], [4]]"
proof -
  have g: "growing queue_sample"
    by (simp add: queue_sample_def newCapnpStream_def newByteStreamReader_def new_pipe_def)
  have ps: "packets queue_sample = [[1, 2, 3], [4]]"
    by (simp add: queue_sample_def newCapnpStream_def newByteStreamReader_def new_pipe_def pipe_packets_def)
  from stream_refines_queue [OF g, of 2 "[]"] ps show ?thesis by (auto simp: read_queue_def)
qed

end
