(* ===== verification/Drain.thy ===== *)
theory Drain
  imports Pair Ends Packets
begin

text \<open>
  Two proxies in a row do not get stuck: from every moment of a run in which a direction is alive,
  scheduling alone (the goroutines and the tunnel) takes everything the client has sent to the
  target, if the writes on the way are answered without an error.
\<close>

subsection \<open>Reads of a stream that grows\<close>

text \<open>With something in front of it, Read returns, without an error, and the stream still grows.\<close>

definition reads_on :: "nat \<Rightarrow> stream \<Rightarrow> bool" where
  "reads_on n s \<longleftrightarrow> (\<exists>bs s'. stream_Read n s = Ret ((bs, None), s') \<and> growing s')"

lemma stream_reads_on:
  assumes "growing s" and "stream_avail s \<noteq> []" and "0 < n"
  shows "reads_on n s"
proof -
  from assms(1,2) have "packets s \<noteq> []" using concat_packets by fastforce
  with stream_reads_queue [OF assms(1,3)] show ?thesis
    by (auto simp: reads_queue_def read_queue_def reads_on_def neq_Nil_conv)
qed

subsection \<open>Writes that are answered\<close>

text \<open>The next \<open>k\<close> writes succeed: the stream is open for writing and nothing fails outside.\<close>

fun writes_left :: "nat \<Rightarrow> stream \<Rightarrow> bool" where
  "writes_left k (StdS s) \<longleftrightarrow>
     c_closes (ReadWriteCloser s) = 0 \<and> c_closeWrites (ReadWriteCloser s) = 0 \<and>
     take k (c_wres (ReadWriteCloser s)) = replicate k None"
| "writes_left k (GrpcS s) \<longleftrightarrow> \<not> g_writeClosed s \<and> take k (g_send s) = replicate k None"
| "writes_left k (CapnpS s) \<longleftrightarrow> \<not> cs_closed s \<and> take k (cs_wres s) = replicate k None"
| "writes_left k (MdS s) \<longleftrightarrow> take k (ms_wres s) = replicate k None"

lemma take_Suc_None: "take (Suc k) ws = replicate (Suc k) None \<longleftrightarrow> (\<exists>vs. ws = None # vs \<and> take k vs = replicate k None)"
  by (cases ws) auto

lemma take_None_less: "take k ws = replicate k None \<Longrightarrow> j \<le> k \<Longrightarrow> take j ws = replicate j None"
  by (metis min_def take_replicate take_take)

lemma writes_left_less: "writes_left k s \<Longrightarrow> j \<le> k \<Longrightarrow> writes_left j s"
  by (cases s) (auto dest: take_None_less)

lemma writes_left_write:
  assumes "writes_left (Suc k) s"
  shows "\<exists>s'. stream_Write b s = Ret ((int (length b), None), s') \<and> writes_left k s'"
  using assms
  by (cases s)
    (auto simp: take_Suc_None std_Write_def conn_Write_def grpc_Write_def capnp_Write_def md_Write_def lift_def
      simp del: replicate.simps)

subsection \<open>One copy\<close>

text \<open>The writes a copy will make at most, to hand over what it has in hand and in front of it.\<close>

definition writes_needed :: "copier \<Rightarrow> stream \<Rightarrow> nat" where
  "writes_needed c src =
     (case ck_pc c of AtWrite bs er \<Rightarrow> Suc (length (stream_avail src)) | _ \<Rightarrow> length (stream_avail src))"

lemma writes_needed_le: "live c src \<Longrightarrow> writes_needed c src \<le> Suc (length (copier_rest c src))"
  by (auto simp: writes_needed_def live_def copier_rest_def)

lemma copier_on:
  assumes alive: "live c src" and rest: "copier_rest c src \<noteq> []" and wr: "writes_left (writes_needed c src) dst"
  shows "\<exists>c' src' dst'. copier_step c src dst = Ret (c', src', dst') \<and> live c' src' \<and>
    writes_left (writes_needed c' src') dst' \<and>
    stream_sunk dst' @ copier_rest c' src' = stream_sunk dst @ copier_rest c src"
proof (cases "ck_pc c = AtRead")
  case True
  with alive rest have "growing src" "stream_avail src \<noteq> []" by (simp_all add: live_def copier_rest_eqs(1))
  then obtain bs src' where rd: "stream_Read copy_buf_size src = Ret ((bs, None), src')" and g: "growing src'"
    using stream_reads_on [of src copy_buf_size] by (auto simp: reads_on_def copy_buf_size_def)
  from stream_Read_contract [OF rd] have av: "stream_avail src = bs @ stream_avail src'" by simp
  have "writes_left (writes_needed (if bs = [] then after_round None c else c\<lparr>ck_pc := AtWrite bs None\<rparr>) src') dst"
    using wr True av by (auto simp: writes_needed_def after_round_def Suc_le_eq intro: writes_left_less)
  with True rd g av show ?thesis
    by (simp add: copier_step_def live_def copier_rest_after_round copier_rest_eqs(1) after_round_def)
next
  case False
  with alive obtain bs where pc: "ck_pc c = AtWrite bs None" and g: "growing src" by (auto simp: live_def)
  with wr obtain dst' where w: "stream_Write bs dst = Ret ((int (length bs), None), dst')"
      and left: "writes_left (length (stream_avail src)) dst'"
    using writes_left_write [of "length (stream_avail src)" dst bs] by (auto simp: writes_needed_def)
  from stream_Write_contract(1) [OF w] have sunk: "stream_sunk dst' = stream_sunk dst @ bs" by simp
  have "after_write bs None (int (length bs), None) c = after_round None (c\<lparr>ck_written := ck_written c + int (length bs)\<rparr>)"
    by (simp add: after_write_def copy_account_valid)
  with pc w g left sunk show ?thesis
    by (simp add: copier_step_def live_def after_round_def writes_needed_def copier_rest_def)
qed

lemma copier_drains:
  "live c src \<Longrightarrow> writes_left (writes_needed c src) dst \<Longrightarrow>
   \<exists>c' src' dst'. copier_steps c src dst c' src' dst' \<and> live c' src' \<and> copier_rest c' src' = [] \<and>
     stream_sunk dst' = stream_sunk dst @ copier_rest c src"
proof (induction "copier_left c src" arbitrary: c src dst rule: less_induct)
  case less
  show ?case
  proof (cases "copier_rest c src = []")
    case True
    with less.prems show ?thesis by (auto intro: copier_refl)
  next
    case False
    then obtain c1 src1 dst1 where step: "copier_step c src dst = Ret (c1, src1, dst1)" "live c1 src1"
        "writes_left (writes_needed c1 src1) dst1"
        "stream_sunk dst1 @ copier_rest c1 src1 = stream_sunk dst @ copier_rest c src"
      using copier_on less.prems by blast
    from copier_step_left(1) [OF step(1)] less.hyps step(2,3) obtain c' src' dst' where
        "copier_steps c1 src1 dst1 c' src' dst'" "live c' src'" "copier_rest c' src' = []"
        "stream_sunk dst' = stream_sunk dst1 @ copier_rest c1 src1"
      by blast
    with step show ?thesis by (metis copier_more)
  qed
qed

subsection \<open>The two handlers\<close>

lemma spawned_steps:
  "copier_steps c s d c' s' d' \<Longrightarrow> h_du h = c \<Longrightarrow> h_down h = s \<Longrightarrow> h_up h = Some d \<Longrightarrow>
   \<exists>m. hrun (replicate m SpawnedG) h = Ret (h\<lparr>h_du := c', h_down := s', h_up := Some d'\<rparr>)"
proof (induction arbitrary: h rule: copier_steps.induct)
  case (copier_refl c s d)
  then have "hrun (replicate 0 SpawnedG) h = Ret (h\<lparr>h_du := c, h_down := s, h_up := Some d\<rparr>)" by simp
  then show ?case by blast
next
  case (copier_more c s d c1 s1 d1 c2 s2 d2)
  let ?h = "h\<lparr>h_du := c1, h_down := s1, h_up := Some d1\<rparr>"
  from copier_more.prems copier_more.hyps(1) have "hstep SpawnedG h = Ret ?h" by (simp add: spawned_step_def)
  moreover obtain m where "hrun (replicate m SpawnedG) ?h = Ret (?h\<lparr>h_du := c2, h_down := s2, h_up := Some d2\<rparr>)"
    using copier_more.IH [of ?h] by auto
  ultimately have "hrun (replicate (Suc m) SpawnedG) h = Ret (h\<lparr>h_du := c2, h_down := s2, h_up := Some d2\<rparr>)" by simp
  then show ?case by blast
qed

lemma handler_drains:
  assumes "h_up h = Some up" and "live (h_du h) (h_down h)"
    and "writes_left (Suc (length (copier_rest (h_du h) (h_down h)))) up"
  shows "\<exists>m h' . hrun (replicate m SpawnedG) h = Ret h' \<and> live (h_du h') (h_down h') \<and>
    copier_rest (h_du h') (h_down h') = [] \<and> up_sunk h' = up_sunk h @ copier_rest (h_du h) (h_down h)"
proof -
  from copier_drains [OF assms(2) writes_left_less [OF assms(3) writes_needed_le [OF assms(2)]]] obtain c' s' d' where
      r: "copier_steps (h_du h) (h_down h) up c' s' d'" "live c' s'" "copier_rest c' s' = []"
      "stream_sunk d' = stream_sunk up @ copier_rest (h_du h) (h_down h)"
    by blast
  from spawned_steps [OF r(1) refl refl assms(1)] r(2-) assms(1) show ?thesis by (force simp: up_sunk_def)
qed

lemma net_run_append: "net_run (es @ fs) n = Option.bind (net_run es n) (net_run fs)"
proof (induction es arbitrary: n)
  case (Cons e es)
  then show ?case by (cases "net_do e n") simp_all
qed simp

lemma net_run_handlers:
  "hrun (replicate m g) (n_a n) = Ret h \<Longrightarrow> net_run (replicate m (StepA g)) n = Some (n\<lparr>n_a := h\<rparr>)"
  "hrun (replicate m g) (n_b n) = Ret h' \<Longrightarrow> net_run (replicate m (StepB g)) n = Some (n\<lparr>n_b := h'\<rparr>)"
  by (induction m arbitrary: n) (auto simp: then_do_Ret_iff split: outcome.splits)

lemma feed_down_live:
  assumes "live (h_du h) (h_down h)"
  shows "live (h_du (feed_down p h)) (h_down (feed_down p h))"
    and "copier_rest (h_du (feed_down p h)) (h_down (feed_down p h)) = copier_rest (h_du h) (h_down h) @ p"
  using assms by (auto simp: live_def feed_down_def feed_stream(2) feed_avail copier_rest_def)

subsection \<open>Property\<close>

text \<open>
  From every moment of a run of two proxies in a row at which the copies towards the target are
  alive, the goroutines of the handlers and the tunnel alone can take everything the client has sent
  so far to the target, if the writes on the way are answered: no state of the two proxies is a dead
  end.
\<close>

theorem two_proxies_can_deliver:
  assumes "net_run es (net_start a b) = Some n" and "fresh_handler a" and "fresh_handler b"
    and "live_forward n" and "h_up (n_a n) = Some ua" and "h_up (n_b n) = Some ub"
    and "writes_left (Suc (length (n_client n))) ua" and "writes_left (Suc (length (n_client n))) ub"
  shows "\<exists>es' n'. set es' \<subseteq> {StepA SpawnedG, StepB SpawnedG} \<union> range Forward \<and>
    net_run es' n = Some n' \<and> n_client n' = n_client n \<and> up_sunk (n_b n') = n_client n"
proof -
  let ?A = "n_a n" and ?B = "n_b n" and ?c = "n_client n"
  have inv: "net_inv n" by (rule net_reached [OF assms(1-3)])
  from net_inv_live(1) [OF inv assms(4)] have all: "?c = up_sunk ?B @ copier_rest (h_du ?B) (h_down ?B) @
      drop (n_forward n) (up_sunk ?A) @ copier_rest (h_du ?A) (h_down ?A)"
    by (simp add: to_target_def)
  have A: "live (h_du ?A) (h_down ?A)" "writes_left (Suc (length (copier_rest (h_du ?A) (h_down ?A)))) ua"
    using assms(4,7) all by (auto simp: live_forward_def elim: writes_left_less)
  from handler_drains [OF assms(5) A] obtain m hA where hA: "hrun (replicate m SpawnedG) ?A = Ret hA"
      "up_sunk hA = up_sunk ?A @ copier_rest (h_du ?A) (h_down ?A)" by blast
  let ?p = "drop (n_forward n) (up_sunk hA)"
  have p: "?p = drop (n_forward n) (up_sunk ?A) @ copier_rest (h_du ?A) (h_down ?A)"
    using inv hA(2) by (simp add: net_inv_def)
  let ?n2 = "n\<lparr>n_a := hA, n_b := feed_down ?p ?B, n_forward := n_forward n + length ?p\<rparr>"
  have run2: "net_run (replicate m (StepA SpawnedG) @ [Forward (length ?p)]) n = Some ?n2"
    using net_run_handlers(1) [of m SpawnedG n, OF hA(1)] by (simp add: net_run_append Let_def)
  let ?B2 = "feed_down ?p ?B"
  have aliveB: "live (h_du ?B) (h_down ?B)" using assms(4) by (simp add: live_forward_def)
  have rest: "up_sunk ?B2 @ copier_rest (h_du ?B2) (h_down ?B2) = ?c"
    using feed_down_live(2) [OF aliveB, of ?p] all p by simp
  then have "length (copier_rest (h_du ?B2) (h_down ?B2)) \<le> length ?c" by (metis length_append le_add2)
  then have left: "writes_left (Suc (length (copier_rest (h_du ?B2) (h_down ?B2)))) ub"
    using assms(8) by (auto elim: writes_left_less)
  have up: "h_up ?B2 = Some ub" using assms(6) by (simp add: feed_down_def)
  from handler_drains [OF up feed_down_live(1) [OF aliveB] left] rest obtain k hB where
      hB: "hrun (replicate k SpawnedG) ?B2 = Ret hB" "up_sunk hB = ?c" by auto
  let ?es = "(replicate m (StepA SpawnedG) @ [Forward (length ?p)]) @ replicate k (StepB SpawnedG)"
  have "net_run ?es n = Some (?n2\<lparr>n_b := hB\<rparr>)"
    using run2 net_run_handlers(2) [of k SpawnedG ?n2 hB] hB(1) by (simp only: net_run_append) simp
  moreover have "set ?es \<subseteq> {StepA SpawnedG, StepB SpawnedG} \<union> range Forward" by auto
  ultimately show ?thesis using hB(2) by (intro exI [of _ ?es] exI [of _ "?n2\<lparr>n_b := hB\<rparr>"]) simp
qed

lemma net_opened:
  "\<exists>n. net_run [ClientSends [5], StepA MainG, StepB MainG]
      (net_start (handler_start net_conn (Inr net_grpc_client)) (handler_start net_grpc_server (Inr net_conn))) =
      Some n \<and>
    (n_client n = [5] \<and> live_forward n \<and>
     (\<exists>ua. h_up (n_a n) = Some ua \<and> writes_left 2 ua) \<and> (\<exists>ub. h_up (n_b n) = Some ub \<and> writes_left 2 ub))"
  by (rule net_ex_step, (simp add: net_eval Let_def; fail))+
    (rule net_ex_end, simp add: net_eval live_forward_def live_def numeral_2_eq_2)

theorem two_proxies_can_deliver_witness:
  "\<exists>n es n'. n_client n = [5] \<and> net_run es n = Some n' \<and> up_sunk (n_b n') = [5]"
proof -
  from net_opened obtain es n ua ub where r:
      "net_run es (net_start (handler_start net_conn (Inr net_grpc_client))
        (handler_start net_grpc_server (Inr net_conn))) = Some n"
      "n_client n = [5]" "live_forward n" "h_up (n_a n) = Some ua" "writes_left 2 ua"
      "h_up (n_b n) = Some ub" "writes_left 2 ub"
    by blast
  from r(2,5,7) have "writes_left (Suc (length (n_client n))) ua" "writes_left (Suc (length (n_client n))) ub"
    by (simp_all add: numeral_2_eq_2)
  from two_proxies_can_deliver [OF r(1) net_fresh r(3,4,6) this] r(2) show ?thesis by metis
qed

end
