(* ===== verification/Fair.thy ===== *)
theory Fair
  imports Drain
begin

text \<open>
  Two proxies in a row under every fair schedule. A schedule is an infinite sequence of events; one
  that cannot happen when its turn comes is skipped. It is fair when the copying goroutine of each
  handler and the tunnel get their turn again and again. Then every byte the client sends arrives, as
  long as nothing on its way is cut off: a measure of the work in front of the byte never grows,
  whatever arrives behind it, and each turn of the goroutine that has it in hand makes it smaller.
\<close>

subsection \<open>Measures along a run\<close>

lemma reached_by_measure:
  fixes \<mu> :: "nat \<Rightarrow> nat"
  assumes "\<And>t. t0 \<le> t \<Longrightarrow> \<not> G t \<Longrightarrow> \<mu> (Suc t) \<le> \<mu> t"
    and "\<And>t. t0 \<le> t \<Longrightarrow> \<exists>t' \<ge> t. \<not> G t' \<longrightarrow> \<mu> (Suc t') < \<mu> t'"
  shows "\<exists>t \<ge> t0. G t"
proof (rule ccontr)
  assume "\<not> (\<exists>t \<ge> t0. G t)"
  then have never: "\<not> G t" if "t0 \<le> t" for t using that by blast
  have down: "\<mu> t' \<le> \<mu> t" if "t0 \<le> t" "t \<le> t'" for t t'
    using that(2)
  proof (induction t' rule: dec_induct)
    case (step n)
    with assms(1) [of n] never [of n] that(1) show ?case by linarith
  qed simp
  have "False" if "t0 \<le> t" for t
    using that
  proof (induction "\<mu> t" arbitrary: t rule: less_induct)
    case less
    from assms(2) [OF less.prems] obtain t' where "t \<le> t'" "\<not> G t' \<longrightarrow> \<mu> (Suc t') < \<mu> t'" by blast
    with never less.prems have "\<mu> (Suc t') < \<mu> t'" by simp
    with down [OF less.prems \<open>t \<le> t'\<close>] less.hyps [of "Suc t'"] less.prems \<open>t \<le> t'\<close> show ?case by simp
  qed
  then show False by blast
qed

subsection \<open>The work in front of a byte\<close>

text \<open>The packets that must be read, and their bytes, until the first \<open>k\<close> bytes of a queue are out.\<close>

fun front :: "nat \<Rightarrow> bytes list \<Rightarrow> nat" where
  "front k [] = 0"
| "front k (p # ps) = (if k = 0 then 0 else Suc (length p) + front (k - length p) ps)"

lemma front_0 [simp]: "front 0 ps = 0"
  by (cases ps) simp_all

lemma front_append: "k \<le> length (concat ps) \<Longrightarrow> front k (ps @ qs) = front k ps"
  by (induction ps arbitrary: k) auto

lemma front_read:
  assumes "0 < n" and "0 < k"
  shows "front (k - length (take n p)) (if length p \<le> n then ps else drop n p # ps) < front k (p # ps)"
  using assms by (cases "length p \<le> n") (auto simp: min_def)

text \<open>The steps a copy will make until \<open>L\<close> bytes have been handed over, of which \<open>out\<close> have.\<close>

definition ahead :: "nat \<Rightarrow> copier \<Rightarrow> stream \<Rightarrow> bytes \<Rightarrow> nat" where
  "ahead L c src out =
     (let k = L - length out
      in case ck_pc c of
           AtRead \<Rightarrow> 2 * front k (packets src)
         | AtWrite bs er \<Rightarrow> 2 * front (k - length bs) (packets src) + 1
         | _ \<Rightarrow> 0)"

definition in_reach :: "nat \<Rightarrow> copier \<Rightarrow> stream \<Rightarrow> bytes \<Rightarrow> bool" where
  "in_reach L c src out \<longleftrightarrow> L \<le> length (out @ copier_rest c src)"

lemma ahead_cong:
  assumes "packets src' = packets src"
  shows "ahead L c src' out = ahead L c src out"
  unfolding ahead_def assms by (rule refl)

lemma ahead_step:
  assumes alive: "live c src" and wr: "writes_left 1 dst"
    and L: "length (stream_sunk dst) < L" "in_reach L c src (stream_sunk dst)"
  shows "\<exists>c' src' dst'. copier_step c src dst = Ret (c', src', dst') \<and>
    ahead L c' src' (stream_sunk dst') < ahead L c src (stream_sunk dst)"
proof (cases "ck_pc c = AtRead")
  case True
  let ?k = "L - length (stream_sunk dst)"
  from alive have g: "growing src" by (simp add: live_def)
  from L True have k: "0 < ?k" "?k \<le> length (stream_avail src)"
    by (simp_all add: in_reach_def copier_rest_eqs(1))
  then obtain p ps where ps: "packets src = p # ps"
    using concat_packets [OF g] by (cases "packets src") auto
  have n: "0 < copy_buf_size" by (simp add: copy_buf_size_def)
  from stream_reads_queue [OF g n] ps obtain s' where rd:
      "stream_Read copy_buf_size src = Ret ((take copy_buf_size p, None), s')"
      "packets s' = (if length p \<le> copy_buf_size then ps else drop copy_buf_size p # ps)"
    by (auto simp: reads_queue_def read_queue_def)
  let ?bs = "take copy_buf_size p"
  let ?c = "if ?bs = [] then after_round None c else c\<lparr>ck_pc := AtWrite ?bs None\<rparr>"
  have step: "copier_step c src dst = Ret (?c, s', dst)"
    using True rd(1) by (simp add: copier_step_def)
  from front_read [OF n k(1), of p ps]
  have "front (?k - length ?bs) (packets s') < front ?k (packets src)" by (simp only: rd(2) ps)
  then have "ahead L ?c s' (stream_sunk dst) < ahead L c src (stream_sunk dst)"
    using True by (auto simp: ahead_def after_round_def)
  with step show ?thesis by blast
next
  case False
  with alive obtain bs where pc: "ck_pc c = AtWrite bs None" by (auto simp: live_def)
  from writes_left_write [of 0 dst bs] wr obtain dst' where
      w: "stream_Write bs dst = Ret ((int (length bs), None), dst')" by auto
  from stream_Write_contract(1) [OF w] have sunk: "stream_sunk dst' = stream_sunk dst @ bs" by simp
  let ?c = "after_round None (c\<lparr>ck_written := ck_written c + int (length bs)\<rparr>)"
  have "copier_step c src dst = Ret (?c, src, dst')"
    using pc w by (simp add: copier_step_def after_write_def copy_account_valid)
  moreover have "ahead L ?c src (stream_sunk dst') < ahead L c src (stream_sunk dst)"
    using pc sunk by (simp add: ahead_def after_round_def)
  ultimately show ?thesis by blast
qed

text \<open>What arrives behind the bytes in reach is not in front of them.\<close>

lemma ahead_feed:
  assumes "live c src" and "in_reach L c src out"
  shows "ahead L c (feed p src) out = ahead L c src out"
proof -
  from assms(1) have g: "growing src" by (simp add: live_def)
  from assms have "L - length out - (case ck_pc c of AtWrite bs er \<Rightarrow> length bs | _ \<Rightarrow> 0)
      \<le> length (concat (packets src))"
    by (auto simp: in_reach_def live_def concat_packets copier_rest_def)
  with g assms(1) show ?thesis
    by (auto simp: ahead_def packets_feed front_append live_def simp del: length_concat)
qed

lemma copier_step_dst_packets:
  "copier_step c src dst = Ret (c', src', dst') \<Longrightarrow> packets dst' = packets dst"
  by (erule copier_step_cases) (auto dest: stream_Write_packets stream_CloseWrite_packets)

subsection \<open>Directions\<close>

text \<open>Everything that can happen to a handler in a run of two proxies.\<close>

inductive moved :: "handler \<Rightarrow> handler \<Rightarrow> bool" where
  moved_not: "moved h h"
| moved_step: "hstep g h = Ret h' \<Longrightarrow> moved h h'"
| moved_feed_down: "moved h (feed_down p h)"
| moved_feed_up: "moved h (feed_up p h)"
| moved_cut_down: "moved h (cut_down e h)"
| moved_cut_up: "moved h (cut_up e h)"

text \<open>
  A direction of a handler: the goroutine that copies in it, its copy, source and what it has handed
  over, and when it is running, that is alive with its next write answered. A turn of its goroutine
  brings the bytes in reach nearer, and nothing else puts work in front of them.
\<close>

locale direction =
  fixes turn :: goroutine
    and cop :: "handler \<Rightarrow> copier" and src :: "handler \<Rightarrow> stream" and out :: "handler \<Rightarrow> bytes"
    and runs :: "handler \<Rightarrow> bool"
  assumes turn_ahead: "runs h \<Longrightarrow> length (out h) < L \<Longrightarrow> in_reach L (cop h) (src h) (out h) \<Longrightarrow>
      \<exists>h'. hstep turn h = Ret h' \<and> ahead L (cop h') (src h') (out h') < ahead L (cop h) (src h) (out h)"
    and moved_ahead: "moved h h' \<Longrightarrow> runs h \<Longrightarrow> runs h' \<Longrightarrow> length (out h) < L \<Longrightarrow>
      in_reach L (cop h) (src h) (out h) \<Longrightarrow>
      ahead L (cop h') (src h') (out h') \<le> ahead L (cop h) (src h) (out h)"
begin

lemma handed_over:
  fixes H :: "nat \<Rightarrow> handler"
  assumes moves: "\<And>t. since \<le> t \<Longrightarrow> moved (H t) (H (Suc t))"
    and run: "\<And>t. since \<le> t \<Longrightarrow> runs (H t)"
    and reach: "\<And>t. since \<le> t \<Longrightarrow> in_reach L (cop (H t)) (src (H t)) (out (H t))"
    and fair: "\<And>t. since \<le> t \<Longrightarrow> \<exists>t' \<ge> t. \<forall>h. hstep turn (H t') = Ret h \<longrightarrow> H (Suc t') = h"
  shows "\<exists>t \<ge> since. L \<le> length (out (H t))"
proof (rule reached_by_measure [where \<mu> = "\<lambda>t. ahead L (cop (H t)) (src (H t)) (out (H t))"])
  fix t
  assume t: "since \<le> t"
  then have Suc: "since \<le> Suc t" by simp
  show "ahead L (cop (H (Suc t))) (src (H (Suc t))) (out (H (Suc t))) \<le> ahead L (cop (H t)) (src (H t)) (out (H t))"
    if "\<not> L \<le> length (out (H t))"
    using moved_ahead [OF moves [OF t] run [OF t] run [OF Suc] _ reach [OF t]] that by simp
  from fair [OF t] obtain t' where t': "t \<le> t'" "\<forall>h. hstep turn (H t') = Ret h \<longrightarrow> H (Suc t') = h"
    by blast
  with t have late: "since \<le> t'" by simp
  from turn_ahead [OF run [OF late] _ reach [OF late]] t'(2)
  have "\<not> L \<le> length (out (H t')) \<longrightarrow>
      ahead L (cop (H (Suc t'))) (src (H (Suc t'))) (out (H (Suc t'))) < ahead L (cop (H t')) (src (H t')) (out (H t'))"
    by (auto simp: not_le)
  with t'(1) show "\<exists>t' \<ge> t. \<not> L \<le> length (out (H t')) \<longrightarrow>
      ahead L (cop (H (Suc t'))) (src (H (Suc t'))) (out (H (Suc t'))) < ahead L (cop (H t')) (src (H t')) (out (H t'))"
    by blast
qed

end

text \<open>From the client's side upstream: the spawned goroutine.\<close>

definition runs_up :: "handler \<Rightarrow> bool" where
  "runs_up h \<longleftrightarrow>
     h_main h \<noteq> MOpen \<and> live (h_du h) (h_down h) \<and>
     (case h_up h of None \<Rightarrow> False | Some up \<Rightarrow> writes_left 1 up)"

lemma runs_upE:
  assumes "runs_up h"
  obtains up where "h_main h \<noteq> MOpen" "live (h_du h) (h_down h)" "h_up h = Some up" "writes_left 1 up"
  using assms by (auto simp: runs_up_def split: option.splits)

lemma up_turn:
  assumes "runs_up h" and "length (up_sunk h) < L" and "in_reach L (h_du h) (h_down h) (up_sunk h)"
  shows "\<exists>h'. hstep SpawnedG h = Ret h' \<and>
    ahead L (h_du h') (h_down h') (up_sunk h') < ahead L (h_du h) (h_down h) (up_sunk h)"
proof -
  from assms(1) obtain up where r: "live (h_du h) (h_down h)" "h_up h = Some up" "writes_left 1 up"
    by (rule runs_upE)
  with assms(2,3) ahead_step [OF r(1,3), of L] obtain c s d where
      step: "copier_step (h_du h) (h_down h) up = Ret (c, s, d)"
      and less: "ahead L c s (stream_sunk d) < ahead L (h_du h) (h_down h) (stream_sunk up)"
    by (auto simp: up_sunk_def)
  from step r(2) have "hstep SpawnedG h = Ret (h\<lparr>h_du := c, h_down := s, h_up := Some d\<rparr>)"
    by (simp add: spawned_step_def)
  with less r(2) show ?thesis by (simp add: up_sunk_def)
qed

lemma up_main_ahead:
  assumes "main_step h = Ret h'" and "runs_up h" and "runs_up h'"
  shows "ahead L (h_du h') (h_down h') (up_sunk h') = ahead L (h_du h) (h_down h) (up_sunk h)"
  using assms(1)
proof (cases rule: main_step_cases)
  case (copying up c up' down')
  with copier_step_frame(1) [OF copying(3)] ahead_cong [OF copier_step_dst_packets [OF copying(3)]] show ?thesis
    by (simp add: up_sunk_def)
next
  case (close_up up e up')
  with netx.close_sunk(3) [OF close_up(3)] show ?thesis by (simp add: up_sunk_def)
next
  case (close_down e down')
  with stream_close_growing(2) [OF close_down(2)] assms(3) show ?thesis by (simp add: runs_up_def live_def)
qed (use assms(2) in \<open>simp_all add: runs_up_def up_sunk_def\<close>)

lemma up_moved:
  assumes "moved h h'" and "runs_up h" and "runs_up h'" and "length (up_sunk h) < L"
    and "in_reach L (h_du h) (h_down h) (up_sunk h)"
  shows "ahead L (h_du h') (h_down h') (up_sunk h') \<le> ahead L (h_du h) (h_down h) (up_sunk h)"
  using assms(1)
proof cases
  case (moved_step g)
  show ?thesis
  proof (cases g)
    case MainG
    with moved_step up_main_ahead assms(2,3) show ?thesis by simp
  next
    case SpawnedG
    with moved_step up_turn [OF assms(2,4,5)] show ?thesis by auto
  qed
next
  case (moved_feed_down p)
  with ahead_feed [OF _ assms(5)] assms(2) show ?thesis by (simp add: runs_up_def, simp add: feed_down_def)
next
  case (moved_cut_down e)
  with assms(3) show ?thesis by (simp add: runs_up_def live_def cut_down_def feed_stream(4))
next
  case (moved_feed_up p)
  then show ?thesis by (simp, simp add: feed_up_def)
next
  case (moved_cut_up e)
  then show ?thesis by (simp, simp add: cut_up_def)
qed simp

interpretation upward: direction SpawnedG h_du h_down up_sunk runs_up
  by (rule direction.intro [OF up_turn up_moved])

text \<open>And back: the goroutine of handleStream itself, while it copies.\<close>

definition up_stream :: "handler \<Rightarrow> stream" where
  "up_stream h = (case h_up h of None \<Rightarrow> h_down h | Some up \<Rightarrow> up)"

definition runs_down :: "handler \<Rightarrow> bool" where
  "runs_down h \<longleftrightarrow>
     h_main h = MCopy \<and> h_up h \<noteq> None \<and> live (h_ud h) (up_stream h) \<and> writes_left 1 (h_down h)"

lemma runs_downE:
  assumes "runs_down h"
  obtains up where "h_main h = MCopy" "h_up h = Some up" "live (h_ud h) up" "writes_left 1 (h_down h)"
    "up_stream h = up"
  using assms by (auto simp: runs_down_def up_stream_def)

lemma down_turn:
  assumes "runs_down h" and "length (down_sunk h) < L" and "in_reach L (h_ud h) (up_stream h) (down_sunk h)"
  shows "\<exists>h'. hstep MainG h = Ret h' \<and>
    ahead L (h_ud h') (up_stream h') (down_sunk h') < ahead L (h_ud h) (up_stream h) (down_sunk h)"
proof -
  from assms(1) obtain up where r: "h_main h = MCopy" "h_up h = Some up" "live (h_ud h) up"
      "writes_left 1 (h_down h)" "up_stream h = up"
    by (rule runs_downE)
  with assms(2,3) ahead_step [OF r(3,4), of L] obtain c s d where
      step: "copier_step (h_ud h) up (h_down h) = Ret (c, s, d)"
      and less: "ahead L c s (stream_sunk d) < ahead L (h_ud h) up (stream_sunk (h_down h))"
    by (auto simp: down_sunk_def)
  have "ck_pc (h_ud h) \<noteq> AtEnd" using r(3) by (auto simp: live_def)
  with step r(1,2) have "hstep MainG h = Ret (h\<lparr>h_ud := c, h_up := Some s, h_down := d\<rparr>)"
    by (simp add: main_step_def)
  with less r(5) show ?thesis by (simp add: down_sunk_def up_stream_def)
qed

lemma down_moved:
  assumes "moved h h'" and "runs_down h" and "runs_down h'" and "length (down_sunk h) < L"
    and "in_reach L (h_ud h) (up_stream h) (down_sunk h)"
  shows "ahead L (h_ud h') (up_stream h') (down_sunk h') \<le> ahead L (h_ud h) (up_stream h) (down_sunk h)"
  using assms(1)
proof cases
  case (moved_step g)
  show ?thesis
  proof (cases g)
    case MainG
    with moved_step down_turn [OF assms(2,4,5)] show ?thesis by auto
  next
    case SpawnedG
    with moved_step have "spawned_step h = Ret h'" by simp
    then obtain up c down' up' where up: "h_up h = Some up"
        and step: "copier_step (h_du h) (h_down h) up = Ret (c, down', up')"
        and h': "h' = h\<lparr>h_du := c, h_down := down', h_up := Some up'\<rparr>"
      by (rule spawned_step_cases)
    with copier_step_frame(1) [OF step] ahead_cong [OF copier_step_dst_packets [OF step]] show ?thesis
      by (simp add: down_sunk_def up_stream_def)
  qed
next
  case (moved_feed_down p)
  from assms(2) obtain up where "h_up h = Some up" by (rule runs_downE)
  with moved_feed_down show ?thesis by (simp, simp add: feed_down_def up_stream_def)
next
  case (moved_cut_down e)
  from assms(2) obtain up where "h_up h = Some up" by (rule runs_downE)
  with moved_cut_down show ?thesis by (simp, simp add: cut_down_def up_stream_def)
next
  case (moved_feed_up p)
  from assms(2) obtain up where "h_up h = Some up" "live (h_ud h) up" "up_stream h = up" by (rule runs_downE)
  with moved_feed_up ahead_feed [OF _ assms(5)] show ?thesis by (simp, simp add: feed_up_def up_stream_def)
next
  case (moved_cut_up e)
  from assms(2) obtain up where "h_up h = Some up" by (rule runs_downE)
  with moved_cut_up assms(3) show ?thesis by (simp add: runs_down_def live_def cut_up_def up_stream_def feed_stream(4))
qed simp

interpretation downward: direction MainG h_ud up_stream down_sunk runs_down
  by (rule direction.intro [OF down_turn down_moved])

subsection \<open>Schedules\<close>

definition skip :: "net_event \<Rightarrow> net \<Rightarrow> net" where
  "skip e n = (case net_do e n of None \<Rightarrow> n | Some n' \<Rightarrow> n')"

primrec net_at :: "(nat \<Rightarrow> net_event) \<Rightarrow> net \<Rightarrow> nat \<Rightarrow> net" where
  "net_at \<sigma> n 0 = n"
| "net_at \<sigma> n (Suc t) = skip (\<sigma> t) (net_at \<sigma> n t)"

text \<open>Every goroutine and the tunnel in both directions get their turn again and again.\<close>

definition fair :: "(nat \<Rightarrow> net_event) \<Rightarrow> bool" where
  "fair \<sigma> \<longleftrightarrow>
     (\<forall>t g. (\<exists>t' \<ge> t. \<sigma> t' = StepA g) \<and> (\<exists>t' \<ge> t. \<sigma> t' = StepB g)) \<and>
     (\<forall>t. (\<exists>t' \<ge> t. \<exists>k > 0. \<sigma> t' = Forward k) \<and> (\<exists>t' \<ge> t. \<exists>k > 0. \<sigma> t' = Backward k))"

lemma net_at_moved:
  "moved (n_a (net_at \<sigma> n t)) (n_a (net_at \<sigma> n (Suc t)))"
  "moved (n_b (net_at \<sigma> n t)) (n_b (net_at \<sigma> n (Suc t)))"
  by (cases "\<sigma> t"; auto simp: skip_def Let_def intro: moved.intros split: outcome.splits option.splits)+

lemma net_at_inv: "net_inv n \<Longrightarrow> net_inv (net_at \<sigma> n t)"
  by (induction t) (auto simp: skip_def dest: net_do_inv split: option.splits)

lemma net_at_turn:
  "\<sigma> t = StepA g \<Longrightarrow> hstep g (n_a (net_at \<sigma> n t)) = Ret h \<Longrightarrow> n_a (net_at \<sigma> n (Suc t)) = h"
  "\<sigma> t = StepB g \<Longrightarrow> hstep g (n_b (net_at \<sigma> n t)) = Ret h \<Longrightarrow> n_b (net_at \<sigma> n (Suc t)) = h"
  by (simp_all add: skip_def)

lemma fair_turns:
  assumes "fair \<sigma>"
  shows "\<exists>t' \<ge> t. \<forall>h. hstep g (n_a (net_at \<sigma> n t')) = Ret h \<longrightarrow> n_a (net_at \<sigma> n (Suc t')) = h"
    and "\<exists>t' \<ge> t. \<forall>h. hstep g (n_b (net_at \<sigma> n t')) = Ret h \<longrightarrow> n_b (net_at \<sigma> n (Suc t')) = h"
proof -
  from assms obtain t1 t2 where "t \<le> t1" "\<sigma> t1 = StepA g" "t \<le> t2" "\<sigma> t2 = StepB g" unfolding fair_def by blast
  with net_at_turn show "\<exists>t' \<ge> t. \<forall>h. hstep g (n_a (net_at \<sigma> n t')) = Ret h \<longrightarrow> n_a (net_at \<sigma> n (Suc t')) = h"
    and "\<exists>t' \<ge> t. \<forall>h. hstep g (n_b (net_at \<sigma> n t')) = Ret h \<longrightarrow> n_b (net_at \<sigma> n (Suc t')) = h"
    by blast+
qed

text \<open>What the ends have sent, what has been written into the tunnel and what it has carried only grow.\<close>

definition grown :: "net \<Rightarrow> net \<Rightarrow> bool" where
  "grown n n' \<longleftrightarrow>
     prefix (n_client n) (n_client n') \<and> prefix (n_target n) (n_target n') \<and>
     n_forward n \<le> n_forward n' \<and> n_backward n \<le> n_backward n' \<and>
     prefix (up_sunk (n_a n)) (up_sunk (n_a n')) \<and> prefix (down_sunk (n_b n)) (down_sunk (n_b n'))"

lemma moved_sunk:
  assumes "moved h h'" and "hflow h TD TU"
  shows "prefix (up_sunk h) (up_sunk h')" and "prefix (down_sunk h) (down_sunk h')"
proof -
  from assms(1) have "prefix (up_sunk h) (up_sunk h') \<and> prefix (down_sunk h) (down_sunk h')"
    by cases (use hstep_sunk assms(2) in auto)
  then show "prefix (up_sunk h) (up_sunk h')" and "prefix (down_sunk h) (down_sunk h')" by simp_all
qed

lemma skip_grown:
  assumes "net_inv n"
  shows "grown n (skip e n)"
proof -
  have "moved (n_a n) (n_a (skip e n))" "moved (n_b n) (n_b (skip e n))"
    using net_at_moved [of "\<lambda>_. e" n 0] by simp_all
  with assms moved_sunk have "prefix (up_sunk (n_a n)) (up_sunk (n_a (skip e n)))"
      "prefix (down_sunk (n_b n)) (down_sunk (n_b (skip e n)))"
    unfolding net_inv_def by blast+
  moreover have "prefix (n_client n) (n_client (skip e n)) \<and> prefix (n_target n) (n_target (skip e n)) \<and>
      n_forward n \<le> n_forward (skip e n) \<and> n_backward n \<le> n_backward (skip e n)"
    by (cases e) (auto simp: skip_def Let_def split: outcome.splits option.splits)
  ultimately show ?thesis by (simp add: grown_def)
qed

lemma net_at_grown:
  assumes "net_inv n" and "t \<le> t'"
  shows "grown (net_at \<sigma> n t) (net_at \<sigma> n t')"
  using assms(2)
proof (induction t' rule: dec_induct)
  case (step m)
  with skip_grown [OF net_at_inv [OF assms(1)], of \<sigma> m "\<sigma> m"] show ?case
    by (auto simp: grown_def intro: prefix_order.trans)
qed (simp add: grown_def)

text \<open>The tunnel carries what has been written into it.\<close>

lemma tunnel_forward:
  assumes inv: "net_inv n" and fair: "fair \<sigma>" and L: "L \<le> length (up_sunk (n_a (net_at \<sigma> n s)))"
  shows "\<exists>t \<ge> s. L \<le> n_forward (net_at \<sigma> n t)"
proof (rule reached_by_measure [where \<mu> = "\<lambda>t. L - n_forward (net_at \<sigma> n t)"])
  fix t
  assume t: "s \<le> t"
  show "L - n_forward (net_at \<sigma> n (Suc t)) \<le> L - n_forward (net_at \<sigma> n t)"
    using net_at_grown [OF inv, of t "Suc t" \<sigma>] by (simp only: grown_def) linarith
  from fair obtain t' k where t': "t \<le> t'" "0 < k" "\<sigma> t' = Forward k" unfolding fair_def by blast
  from net_at_grown [OF inv, of s t' \<sigma>] t t' L
  have "L \<le> length (up_sunk (n_a (net_at \<sigma> n t')))" by (auto simp: grown_def dest: prefix_length_le)
  with t' show "\<exists>t' \<ge> t. \<not> L \<le> n_forward (net_at \<sigma> n t') \<longrightarrow>
      L - n_forward (net_at \<sigma> n (Suc t')) < L - n_forward (net_at \<sigma> n t')"
    by (intro exI [of _ t']) (auto simp: skip_def Let_def)
qed

lemma tunnel_backward:
  assumes inv: "net_inv n" and fair: "fair \<sigma>" and L: "L \<le> length (down_sunk (n_b (net_at \<sigma> n s)))"
    and up: "\<And>t. h_up (n_a (net_at \<sigma> n t)) \<noteq> None"
  shows "\<exists>t \<ge> s. L \<le> n_backward (net_at \<sigma> n t)"
proof (rule reached_by_measure [where \<mu> = "\<lambda>t. L - n_backward (net_at \<sigma> n t)"])
  fix t
  assume t: "s \<le> t"
  show "L - n_backward (net_at \<sigma> n (Suc t)) \<le> L - n_backward (net_at \<sigma> n t)"
    using net_at_grown [OF inv, of t "Suc t" \<sigma>] by (simp only: grown_def) linarith
  from fair obtain t' k where t': "t \<le> t'" "0 < k" "\<sigma> t' = Backward k" unfolding fair_def by blast
  from net_at_grown [OF inv, of s t' \<sigma>] t t' L
  have "L \<le> length (down_sunk (n_b (net_at \<sigma> n t')))" by (auto simp: grown_def dest: prefix_length_le)
  with t' up [of t'] show "\<exists>t' \<ge> t. \<not> L \<le> n_backward (net_at \<sigma> n t') \<longrightarrow>
      L - n_backward (net_at \<sigma> n (Suc t')) < L - n_backward (net_at \<sigma> n t')"
    by (intro exI [of _ t']) (auto simp: skip_def Let_def)
qed

subsection \<open>Delivery\<close>

text \<open>The parts of a direction of a handler that is alive make up what it was fed.\<close>

lemma hflow_reach:
  "hflow h TD TU \<Longrightarrow> runs_up h \<Longrightarrow> L \<le> length TD \<Longrightarrow> in_reach L (h_du h) (h_down h) (up_sunk h)"
  "hflow h TD TU \<Longrightarrow> runs_down h \<Longrightarrow> L \<le> length TU \<Longrightarrow> in_reach L (h_ud h) (up_stream h) (down_sunk h)"
proof -
  show "hflow h TD TU \<Longrightarrow> runs_up h \<Longrightarrow> L \<le> length TD \<Longrightarrow> in_reach L (h_du h) (h_down h) (up_sunk h)"
    using hflow_live(1) by (fastforce simp: runs_up_def in_reach_def)
  show "hflow h TD TU \<Longrightarrow> runs_down h \<Longrightarrow> L \<le> length TU \<Longrightarrow> in_reach L (h_ud h) (up_stream h) (down_sunk h)"
    using hflow_live(2) by (fastforce simp: runs_down_def up_stream_def up_live_def up_rest_def in_reach_def)
qed

definition forward_runs :: "net \<Rightarrow> bool" where
  "forward_runs n \<longleftrightarrow> runs_up (n_a n) \<and> runs_up (n_b n)"

definition backward_runs :: "net \<Rightarrow> bool" where
  "backward_runs n \<longleftrightarrow> runs_down (n_a n) \<and> runs_down (n_b n)"

lemma forward_delivered:
  assumes inv: "net_inv n" and fair: "fair \<sigma>" and runs: "\<And>t. forward_runs (net_at \<sigma> n t)"
  shows "\<exists>t. prefix (n_client n) (up_sunk (n_b (net_at \<sigma> n t)))"
proof -
  let ?N = "net_at \<sigma> n" and ?L = "length (n_client n)"
  have A: "hflow (n_a (?N t)) (n_client (?N t)) (take (n_backward (?N t)) (down_sunk (n_b (?N t))))"
    and B: "hflow (n_b (?N t)) (take (n_forward (?N t)) (up_sunk (n_a (?N t)))) (n_target (?N t))"
    and le: "n_forward (?N t) \<le> length (up_sunk (n_a (?N t)))" for t
    using net_at_inv [OF inv, of \<sigma> t] by (simp_all add: net_inv_def)
  have r: "runs_up (n_a (?N t))" "runs_up (n_b (?N t))" for t using runs [of t] by (simp_all add: forward_runs_def)
  have sent: "prefix (n_client n) (n_client (?N t))" for t
    using net_at_grown [OF inv, of 0 t \<sigma>] by (simp add: grown_def)
  obtain t1 where t1: "?L \<le> length (up_sunk (n_a (?N t1)))"
    using upward.handed_over [where H = "\<lambda>t. n_a (?N t)" and L = ?L and since = 0, OF net_at_moved(1) r(1)
        hflow_reach(1) [OF A r(1) prefix_length_le [OF sent]] fair_turns(1) [OF fair]] by blast
  obtain t2 where t2: "?L \<le> n_forward (?N t2)" using tunnel_forward [OF inv fair t1] by blast
  have "?L \<le> length (take (n_forward (?N t)) (up_sunk (n_a (?N t))))" if "t2 \<le> t" for t
    using t2 net_at_grown [OF inv that, of \<sigma>] le [of t] by (simp add: grown_def)
  from upward.handed_over [where H = "\<lambda>t. n_b (?N t)" and L = ?L and since = t2, OF net_at_moved(2) r(2)
      hflow_reach(1) [OF B r(2) this] fair_turns(2) [OF fair]]
  obtain t3 where t3: "?L \<le> length (up_sunk (n_b (?N t3)))" by blast
  have "prefix (up_sunk (n_b (?N t3))) (n_client (?N t3))"
    using hflow_fronts(1) [OF A] hflow_fronts(1) [OF B] take_is_prefix by (blast intro: prefix_order.trans)
  with sent t3 show ?thesis by (blast intro: prefix_length_prefix)
qed

lemma backward_delivered:
  assumes inv: "net_inv n" and fair: "fair \<sigma>" and runs: "\<And>t. backward_runs (net_at \<sigma> n t)"
  shows "\<exists>t. prefix (n_target n) (down_sunk (n_a (net_at \<sigma> n t)))"
proof -
  let ?N = "net_at \<sigma> n" and ?L = "length (n_target n)"
  have A: "hflow (n_a (?N t)) (n_client (?N t)) (take (n_backward (?N t)) (down_sunk (n_b (?N t))))"
    and B: "hflow (n_b (?N t)) (take (n_forward (?N t)) (up_sunk (n_a (?N t)))) (n_target (?N t))"
    and le: "n_backward (?N t) \<le> length (down_sunk (n_b (?N t)))" for t
    using net_at_inv [OF inv, of \<sigma> t] by (simp_all add: net_inv_def)
  have r: "runs_down (n_a (?N t))" "runs_down (n_b (?N t))" for t using runs [of t] by (simp_all add: backward_runs_def)
  then have up: "h_up (n_a (?N t)) \<noteq> None" for t by (simp add: runs_down_def)
  have sent: "prefix (n_target n) (n_target (?N t))" for t
    using net_at_grown [OF inv, of 0 t \<sigma>] by (simp add: grown_def)
  obtain t1 where t1: "?L \<le> length (down_sunk (n_b (?N t1)))"
    using downward.handed_over [where H = "\<lambda>t. n_b (?N t)" and L = ?L and since = 0, OF net_at_moved(2) r(2)
        hflow_reach(2) [OF B r(2) prefix_length_le [OF sent]] fair_turns(2) [OF fair]] by blast
  obtain t2 where t2: "?L \<le> n_backward (?N t2)" using tunnel_backward [OF inv fair t1 up] by blast
  have "?L \<le> length (take (n_backward (?N t)) (down_sunk (n_b (?N t))))" if "t2 \<le> t" for t
    using t2 net_at_grown [OF inv that, of \<sigma>] le [of t] by (simp add: grown_def)
  from downward.handed_over [where H = "\<lambda>t. n_a (?N t)" and L = ?L and since = t2, OF net_at_moved(1) r(1)
      hflow_reach(2) [OF A r(1) this] fair_turns(1) [OF fair]]
  obtain t3 where t3: "?L \<le> length (down_sunk (n_a (?N t3)))" by blast
  have "prefix (down_sunk (n_a (?N t3))) (n_target (?N t3))"
    using hflow_fronts(2) [OF A] hflow_fronts(2) [OF B] take_is_prefix by (blast intro: prefix_order.trans)
  with sent t3 show ?thesis by (blast intro: prefix_length_prefix)
qed

subsection \<open>Property\<close>

text \<open>
  C4. Under every fair schedule, from any moment of any run of two proxies in a row, whatever else
  happens and whatever is sent meanwhile: everything the client has sent arrives at the target, if
  the two copies towards it and their streams stay alive and the writes they make are answered; and
  everything the target has sent arrives at the client, if that is so of the copies back.
\<close>

theorem two_proxies_deliver:
  assumes "net_run es (net_start a b) = Some n" and "fresh_handler a" and "fresh_handler b" and "fair \<sigma>"
  shows "((\<forall>t. forward_runs (net_at \<sigma> n t)) \<longrightarrow> (\<exists>t. prefix (n_client n) (up_sunk (n_b (net_at \<sigma> n t))))) \<and>
    ((\<forall>t. backward_runs (net_at \<sigma> n t)) \<longrightarrow> (\<exists>t. prefix (n_target n) (down_sunk (n_a (net_at \<sigma> n t)))))"
  using forward_delivered [OF _ assms(4)] backward_delivered [OF _ assms(4)] net_reached [OF assms(1-3)] by blast

text \<open>
  The witness: a byte in each direction, both in the hands of the second goroutine that must write
  it; from there everybody takes turns, round robin, and after the first round every round ends in
  the state it began in.
\<close>

definition turns :: "net_event list" where
  "turns = [StepB SpawnedG, StepA SpawnedG, Forward 1, StepB MainG, StepA MainG, Backward 1]"

definition round_robin :: "nat \<Rightarrow> net_event" where
  "round_robin t = turns ! (t mod 6)"

fun always :: "(net \<Rightarrow> bool) \<Rightarrow> net_event list \<Rightarrow> net \<Rightarrow> bool" where
  "always P [] n = P n"
| "always P (e # es) n = (P n \<and> always P es (skip e n))"

definition after :: "net_event list \<Rightarrow> net \<Rightarrow> net" where
  "after es n = fold skip es n"

lemma always_take: "always P es n \<Longrightarrow> t \<le> length es \<Longrightarrow> P (after (take t es) n)"
proof (induction es arbitrary: n t)
  case (Cons e es)
  then show ?case by (cases t) (simp_all add: after_def)
qed (simp add: after_def)

lemma round_robin_fair: "fair round_robin"
proof -
  have at: "round_robin (6 * t + k) = turns ! k" if "k < 6" for t k :: nat
    using that by (simp add: round_robin_def)
  have later: "\<exists>t' \<ge> t. round_robin t' = e" if "e \<in> set turns" for t e
  proof -
    from that obtain k where k: "k < length turns" "turns ! k = e" by (auto simp: in_set_conv_nth)
    with at [of k t] have "round_robin (6 * t + k) = e" by (simp add: turns_def)
    moreover have "t \<le> 6 * t + k" by simp
    ultimately show ?thesis by blast
  qed
  have "StepA g \<in> set turns \<and> StepB g \<in> set turns" for g by (cases g) (simp_all add: turns_def)
  moreover have "Forward 1 \<in> set turns" "Backward 1 \<in> set turns" by (simp_all add: turns_def)
  ultimately show ?thesis unfolding fair_def using later zero_less_one by metis
qed

lemma net_at_rounds: "k \<le> 6 \<Longrightarrow> net_at round_robin n (6 * j + k) = after (take k turns) (net_at round_robin n (6 * j))"
proof (induction k)
  case (Suc k)
  then have "round_robin (6 * j + k) = turns ! k" "k < length turns"
    by (simp_all add: round_robin_def turns_def)
  with Suc show ?case by (simp add: after_def take_Suc_conv_app_nth)
qed (simp add: after_def)

lemma net_at_always:
  assumes first: "always P turns n" "after turns n = s" and again: "always P turns s" "after turns s = s"
  shows "P (net_at round_robin n t)"
proof -
  have round: "net_at round_robin n (6 * j) \<in> {n, s}" for j
  proof (induction j)
    case (Suc j)
    have "length turns = 6" by (simp add: turns_def)
    with net_at_rounds [of 6 n j] have "net_at round_robin n (6 * Suc j) = after turns (net_at round_robin n (6 * j))"
      by (simp add: add.commute)
    with Suc first(2) again(2) show ?case by auto
  qed simp
  define j k where "j = t div 6" and "k = t mod 6"
  then have t: "t = 6 * j + k" and k: "k \<le> 6" by simp_all
  have "P (after (take k turns) m)" if "m \<in> {n, s}" for m
    using that first(1) again(1) always_take [of P turns m k] k by (auto simp: turns_def)
  with round [of j] net_at_rounds [OF k] t show ?thesis by simp
qed

text \<open>One turn at a time, so that the simplifier evaluates one event on one state.\<close>

definition goes :: "(net \<Rightarrow> bool) \<Rightarrow> net_event list \<Rightarrow> net \<Rightarrow> net \<Rightarrow> bool" where
  "goes P es n s \<longleftrightarrow> always P es n \<and> after es n = s"

lemma goes_step: "skip e n = n1 \<Longrightarrow> P n \<Longrightarrow> goes P es n1 s \<Longrightarrow> goes P (e # es) n s"
  by (simp add: goes_def after_def)

lemma goes_end: "P s \<Longrightarrow> goes P [] s s"
  by (simp add: goes_def after_def)

lemma round_ex: "goes P es n s \<Longrightarrow> goes P es s s \<Longrightarrow> \<exists>s. goes P es n s \<and> goes P es s s"
  by blast

definition both_run :: "net \<Rightarrow> bool" where
  "both_run n \<longleftrightarrow> forward_runs n \<and> backward_runs n"

lemmas turn_eval = net_eval Let_def skip_def feed_up_def down_sunk_def
lemmas run_states = both_run_def forward_runs_def backward_runs_def runs_up_def runs_down_def up_stream_def live_def

lemma net_round:
  "\<exists>n. net_run [ClientSends [5], StepA MainG, StepB MainG, StepA SpawnedG, StepA SpawnedG, Forward 1, StepB SpawnedG,
       TargetSends [7], StepB MainG, StepB MainG, Backward 1, StepA MainG]
      (net_start (handler_start net_conn (Inr net_grpc_client)) (handler_start net_grpc_server (Inr net_conn))) =
      Some n \<and>
    (n_client n = [5] \<and> n_target n = [7] \<and> (\<exists>s. goes both_run turns n s \<and> goes both_run turns s s))"
  apply (rule net_ex_step, (simp add: turn_eval; fail))+
  apply (rule net_ex_end)
  apply (intro conjI)
    apply simp
   apply simp
  unfolding turns_def
  apply (rule round_ex)
   apply (rule goes_step, (simp add: turn_eval; fail), (simp add: run_states; fail))+
   apply (rule goes_end, (simp add: run_states; fail))
  apply (rule goes_step, (simp add: turn_eval; fail), (simp add: run_states; fail))+
  apply (rule goes_end, simp add: run_states)
  done

theorem two_proxies_deliver_witness:
  "\<exists>n t t'. n_client n = [5] \<and> n_target n = [7] \<and> prefix [5] (up_sunk (n_b (net_at round_robin n t))) \<and>
     prefix [7] (down_sunk (n_a (net_at round_robin n t')))"
proof -
  from net_round obtain es n s where r:
      "net_run es (net_start (handler_start net_conn (Inr net_grpc_client))
        (handler_start net_grpc_server (Inr net_conn))) = Some n"
      "n_client n = [5]" "n_target n = [7]"
      "goes both_run turns n s" "goes both_run turns s s"
    by blast
  have "forward_runs (net_at round_robin n t) \<and> backward_runs (net_at round_robin n t)" for t
    using net_at_always [of both_run n s t] r(4,5) by (simp add: goes_def both_run_def)
  with two_proxies_deliver [OF r(1) net_fresh round_robin_fair] r(2,3) show ?thesis by metis
qed

end
