(* ===== verification/Acks.thy ===== *)
theory Acks
  imports WellFormed
begin

text \<open>
  What a peer of a Cap'n Proto stream learns from the replies to its calls, for both transports. A
  Write that returned without an error has been read to its last byte; one that was cut off by the
  end of the stream returned io.ErrClosedPipe; End closes the pipe before it returns; replies come
  in the order of the calls, one for each.
\<close>

subsection \<open>The calls of a peer, and the receiving object\<close>

text \<open>
  A call as the receiving object sees it, after its checks: bytes to write, a call that fails at once
  with an error (bad arguments, an unknown interface or method), or the end.
\<close>

datatype peer_call = PWrite bytes | PFail err | PEnd

fun bs_peer_call :: "bs_call \<Rightarrow> peer_call" where
  "bs_peer_call (CallWrite (Inr bs)) = PWrite bs"
| "bs_peer_call (CallWrite (Inl e)) = PFail e"
| "bs_peer_call CallEnd = PEnd"

definition md_peer_call :: "(err + bytes) md_call \<Rightarrow> peer_call" where
  "md_peer_call cc =
     (if mc_iid cc \<noteq> ByteStream_InterfaceId then PFail (Errorf ''unkown interface'')
      else if mc_mid cc = ByteStream_Write_MethodId then (case mc_params cc of Inl e \<Rightarrow> PFail e | Inr bs \<Rightarrow> PWrite bs)
      else if mc_mid cc = ByteStream_End_MethodId then PEnd
      else PFail (Errorf ''unknown method''))"

text \<open>Of an interface value: the calls not yet run, the replies given so far, the pipe between.\<close>

fun peer_calls :: "stream \<Rightarrow> peer_call list" where
  "peer_calls (CapnpS s) = map bs_peer_call (cs_calls s)"
| "peer_calls (MdS s) = map md_peer_call (ms_calls s)"
| "peer_calls _ = []"

fun peer_replies :: "stream \<Rightarrow> err option list" where
  "peer_replies (CapnpS s) = bsr_replies (cs_reader s)"
| "peer_replies (MdS s) = bs_replies (ms_server s)"
| "peer_replies _ = []"

fun peer_pipe :: "stream \<Rightarrow> pipe" where
  "peer_pipe (CapnpS s) = bsr_pipe (cs_reader s)"
| "peer_pipe (MdS s) = bs_pipe (ms_server s)"
| "peer_pipe _ = new_pipe"

text \<open>A stream on which no call of the peer has run, as the constructors make it.\<close>

fun receives :: "stream \<Rightarrow> bool" where
  "receives (CapnpS s) = True"
| "receives (MdS s) = True"
| "receives _ = False"

definition new_receiver :: "stream \<Rightarrow> bool" where
  "new_receiver s \<longleftrightarrow> receives s \<and> peer_pipe s = new_pipe \<and> peer_replies s = []"

lemma new_streams_receive:
  "new_receiver (CapnpS (newCapnpStream newByteStreamReader calls wres endres))"
  "new_receiver (CapnpS (newCapnpStream (newByteStreamReader\<lparr>bsr_release := Some 0\<rparr>) calls wres endres))"
  "new_receiver (MdS (newStreamImpl newByteStreamServer mcalls mwres endress))"
  by (simp_all add: new_receiver_def newCapnpStream_def newByteStreamReader_def newStreamImpl_def
      newByteStreamServer_def)

subsection \<open>Any sequence of method calls on a stream\<close>

datatype method_call = DoRead nat | DoWrite bytes | DoCloseRead | DoCloseWrite | DoClose

text \<open>The bytes the reads return, and the stream after the calls.\<close>

fun call_method :: "method_call \<Rightarrow> stream \<Rightarrow> (bytes \<times> stream) outcome" where
  "call_method (DoRead n) s = then_do (stream_Read n s) (\<lambda>((bs, er), s'). Ret (bs, s'))"
| "call_method (DoWrite b) s = then_do (stream_Write b s) (\<lambda>(r, s'). Ret ([], s'))"
| "call_method DoCloseRead s = then_do (stream_CloseRead s) (\<lambda>(e, s'). Ret ([], s'))"
| "call_method DoCloseWrite s = then_do (stream_CloseWrite s) (\<lambda>(e, s'). Ret ([], s'))"
| "call_method DoClose s = then_do (stream_Close s) (\<lambda>(e, s'). Ret ([], s'))"

fun call_methods :: "method_call list \<Rightarrow> stream \<Rightarrow> (bytes \<times> stream) outcome" where
  "call_methods [] s = Ret ([], s)"
| "call_methods (m # ms) s =
     then_do (call_method m s) (\<lambda>(bs, s1).
     then_do (call_methods ms s1) (\<lambda>(bs', s2). Ret (bs @ bs', s2)))"

text \<open>An invariant that also speaks of the bytes read so far.\<close>

lemma call_methods_inv:
  assumes step: "\<And>bs s m bs1 s1. P bs s \<Longrightarrow> call_method m s = Ret (bs1, s1) \<Longrightarrow> P (bs @ bs1) s1"
  shows "P bs0 s \<Longrightarrow> call_methods ms s = Ret (bs, s') \<Longrightarrow> P (bs0 @ bs) s'"
proof (induction ms arbitrary: bs0 s bs)
  case (Cons m ms)
  from Cons.prems(2) obtain bs1 s1 bs2 where m: "call_method m s = Ret (bs1, s1)"
      "call_methods ms s1 = Ret (bs2, s')" "bs = bs1 @ bs2"
    by (auto simp: then_do_Ret_iff)
  from Cons.IH [OF step [OF Cons.prems(1) m(1)] m(2)] m(3) show ?case by simp
qed simp

subsection \<open>What a reply says\<close>

definition reply_fits :: "bool \<Rightarrow> peer_call \<Rightarrow> err option \<Rightarrow> bool" where
  "reply_fits closed c r \<longleftrightarrow>
     (case c of
        PWrite bs \<Rightarrow> r = None \<or> r = Some ErrClosedPipe \<and> closed
      | PFail e \<Rightarrow> r = Some e
      | PEnd \<Rightarrow> r = None \<and> closed)"

text \<open>The bytes of the writes that were answered without an error.\<close>

fun acked :: "peer_call list \<Rightarrow> err option list \<Rightarrow> bytes" where
  "acked (PWrite bs # cs) (r # rs) = (if r = None then bs else []) @ acked cs rs"
| "acked (c # cs) (r # rs) = acked cs rs"
| "acked _ _ = []"

lemma acked_append:
  "length cs = length rs \<Longrightarrow> acked (cs @ cs') (rs @ rs') = acked cs rs @ acked cs' rs'"
  by (induction cs rs rule: acked.induct) auto

lemma acked_Nil [simp]: "acked cs [] = []"
  by (cases cs rule: remdups_adj.cases) auto

lemma reply_fits_closed: "list_all2 (reply_fits b) cs rs \<Longrightarrow> list_all2 (reply_fits True) cs rs"
  by (erule list_all2_mono) (auto simp: reply_fits_def split: peer_call.splits)

subsection \<open>The invariant of calls, replies and bytes read\<close>

text \<open>
  The calls are those answered, the Write that waits in the pipe, if any, and those not yet run. The
  bytes read are those of the answered writes and a part of one more: of the one that waits, whose
  rest is in the pipe, or of one that was cut off.
\<close>

definition cut_off :: "bytes \<Rightarrow> peer_call list \<Rightarrow> err option list \<Rightarrow> bool" where
  "cut_off t cs rs \<longleftrightarrow> (\<exists>i bs. i < length rs \<and> i < length cs \<and> cs ! i = PWrite bs \<and> rs ! i = Some ErrClosedPipe \<and> prefix t bs)"

definition ack_inv :: "peer_call list \<Rightarrow> bytes \<Rightarrow> pipe \<Rightarrow> err option list \<Rightarrow> peer_call list \<Rightarrow> bool" where
  "ack_inv calls D p reps cs \<longleftrightarrow>
     p_rerr p \<in> {None, Some ErrClosedPipe} \<and>
     (\<exists>ans w t. calls = ans @ w @ cs \<and> list_all2 (reply_fits (p_done p)) ans reps \<and> D = acked ans reps @ t \<and>
        (case p_pend p of
           None \<Rightarrow> w = [] \<and> (t = [] \<or> p_done p \<and> cut_off t ans reps)
         | Some rest \<Rightarrow> w = [PWrite (t @ rest)] \<and> \<not> p_done p))"

lemma cut_off_append: "cut_off t cs rs \<Longrightarrow> cut_off t (cs @ cs') (rs @ rs')"
  unfolding cut_off_def by (metis length_append nth_append trans_less_add1)

lemma cut_off_last: "length cs = length rs \<Longrightarrow> prefix t bs \<Longrightarrow> cut_off t (cs @ [PWrite bs]) (rs @ [Some ErrClosedPipe])"
  unfolding cut_off_def by (intro exI [of _ "length rs"] exI [of _ bs]) (simp add: nth_append)

lemma ack_inv_new: "ack_inv cs [] new_pipe [] cs"
  by (simp add: ack_inv_def new_pipe_def)

text \<open>The two shapes of the invariant: the pipe is empty or closed, or a Write waits in it.\<close>

lemma ack_inv_emptyI:
  assumes "calls = ans @ cs" and "list_all2 (reply_fits (p_done p)) ans reps" and "D = acked ans reps @ t"
    and "t = [] \<or> p_done p \<and> cut_off t ans reps" and "p_pend p = None" and "p_rerr p \<in> {None, Some ErrClosedPipe}"
  shows "ack_inv calls D p reps cs"
  unfolding ack_inv_def using assms by (intro conjI exI [of _ ans] exI [of _ "[]"] exI [of _ t]) simp_all

lemma ack_inv_waitsI:
  assumes "calls = ans @ PWrite (t @ rest) # cs" and "list_all2 (reply_fits False) ans reps" and "D = acked ans reps @ t"
    and "p_pend p = Some rest" and "\<not> p_done p" and "p_rerr p \<in> {None, Some ErrClosedPipe}"
  shows "ack_inv calls D p reps cs"
  unfolding ack_inv_def using assms
  by (intro conjI exI [of _ ans] exI [of _ "[PWrite (t @ rest)]"] exI [of _ t]) simp_all

lemma ack_inv_cases:
  assumes "ack_inv calls D p reps cs"
  obtains (empty) ans t where "calls = ans @ cs" "list_all2 (reply_fits (p_done p)) ans reps" "D = acked ans reps @ t"
      "t = [] \<or> p_done p \<and> cut_off t ans reps" "p_pend p = None" "p_rerr p \<in> {None, Some ErrClosedPipe}"
    | (waits) ans t rest where "calls = ans @ PWrite (t @ rest) # cs" "list_all2 (reply_fits False) ans reps"
      "D = acked ans reps @ t" "p_pend p = Some rest" "\<not> p_done p" "p_rerr p \<in> {None, Some ErrClosedPipe}"
  using assms unfolding ack_inv_def by (cases "p_pend p") auto

text \<open>One call that is answered at once, or that waits.\<close>

lemma ack_inv_open:
  assumes "ack_inv calls D p reps (c # cs)" and "p_pend p = None" and "\<not> p_done p"
  obtains ans where "calls = (ans @ [c]) @ cs" "list_all2 (reply_fits False) ans reps" "D = acked ans reps"
    "p_rerr p \<in> {None, Some ErrClosedPipe}" "length ans = length reps"
  using assms(1) by (cases rule: ack_inv_cases) (use assms(2,3) that list_all2_lengthD in auto)

lemma ack_inv_write:
  assumes "ack_inv calls D p reps (PWrite bs # cs)" and "p_pend p = None" and "\<not> p_done p"
  shows "ack_inv calls D (p\<lparr>p_pend := Some bs\<rparr>) reps cs"
  using assms by (rule ack_inv_open) (rule ack_inv_waitsI [where t = "[]"], use assms(3) in simp_all)

lemma ack_inv_fail:
  assumes "ack_inv calls D p reps (PFail e # cs)" and "p_pend p = None" and "\<not> p_done p"
  shows "ack_inv calls D p (reps @ [Some e]) cs"
  using assms
proof (rule ack_inv_open)
  fix ans
  assume a: "calls = (ans @ [PFail e]) @ cs" "list_all2 (reply_fits False) ans reps" "D = acked ans reps"
      "p_rerr p \<in> {None, Some ErrClosedPipe}" "length ans = length reps"
  then have "list_all2 (reply_fits (p_done p)) (ans @ [PFail e]) (reps @ [Some e])"
    using assms(3) by (intro list_all2_appendI) (simp_all add: reply_fits_def)
  from ack_inv_emptyI [OF a(1) this, of D "[]"] a assms(2) show ?thesis by (simp add: acked_append)
qed

lemma ack_inv_end:
  assumes "ack_inv calls D p reps (PEnd # cs)" and "p_pend p = None" and "\<not> p_done p"
  shows "ack_inv calls D (pipe_close_writer p) (reps @ [None]) cs"
  using assms
proof (rule ack_inv_open)
  fix ans
  assume a: "calls = (ans @ [PEnd]) @ cs" "list_all2 (reply_fits False) ans reps" "D = acked ans reps"
      "p_rerr p \<in> {None, Some ErrClosedPipe}" "length ans = length reps"
  have "list_all2 (reply_fits (p_done (pipe_close_writer p))) (ans @ [PEnd]) (reps @ [None])"
    using reply_fits_closed [OF a(2)] by (intro list_all2_appendI) (simp_all add: reply_fits_def)
  from ack_inv_emptyI [OF a(1) this, of D "[]"] a show ?thesis by (simp add: acked_append pipe_errs)
qed

lemma ack_inv_read:
  assumes inv: "ack_inv calls D p reps cs" and rd: "pipe_read n p = Ret ((bs, er), p')"
  shows "ack_inv calls (D @ bs) p' (reps @ reply_of_waiting p p') cs"
proof (cases er)
  case (Some e)
  with pipe_read_err rd have "bs = []" "p' = p" by blast+
  with inv show ?thesis by (auto simp: reply_of_waiting_def)
next
  case None
  with pipe_read_ok rd obtain bw where open_pipe: "\<not> p_done p" and bw: "p_pend p = Some bw" "bs = take n bw"
      and p': "p' = p\<lparr>p_pend := (if length bw \<le> n then None else Some (drop n bw))\<rparr>"
    by blast
  from inv bw obtain ans t where a: "calls = ans @ PWrite (t @ bw) # cs" "list_all2 (reply_fits False) ans reps"
      "D = acked ans reps @ t" "p_rerr p \<in> {None, Some ErrClosedPipe}"
    by (cases rule: ack_inv_cases) auto
  show ?thesis
  proof (cases "length bw \<le> n")
    case True
    have "list_all2 (reply_fits (p_done p')) (ans @ [PWrite (t @ bw)]) (reps @ [None])"
      using a(2) open_pipe p' by (intro list_all2_appendI) (simp_all add: reply_fits_def)
    moreover have "reply_of_waiting p p' = [None]" using True bw open_pipe p' by (simp add: reply_of_waiting_def)
    moreover have "D @ bs = acked (ans @ [PWrite (t @ bw)]) (reps @ [None]) @ []"
      using a(3) bw(2) True list_all2_lengthD [OF a(2)] by (simp add: acked_append)
    ultimately show ?thesis
      using a(1,4) True p' by (intro ack_inv_emptyI [where ans = "ans @ [PWrite (t @ bw)]" and t = "[]"]) simp_all
  next
    case False
    with bw p' have "reply_of_waiting p p' = []" by (simp add: reply_of_waiting_def)
    with a bw(2) False open_pipe p' show ?thesis
      by (intro ack_inv_waitsI [where ans = ans and t = "t @ take n bw" and rest = "drop n bw"]) simp_all
  qed
qed

text \<open>Closing either end cuts off the Write that waits.\<close>

lemma ack_inv_close:
  assumes inv: "ack_inv calls D p reps cs" and p': "p' = pipe_close_writer p \<or> p' = pipe_close_reader p"
  shows "ack_inv calls D p' (reps @ reply_of_waiting p p') cs"
proof -
  have p'_done: "p_done p'" "p_pend p' = None" using p' by auto
  from inv have "p_rerr p \<in> {None, Some ErrClosedPipe}" by (simp add: ack_inv_def)
  with p' have rerr: "p_rerr p' \<in> {None, Some ErrClosedPipe}" by (auto simp: pipe_errs)
  have err: "writeCloseError p' = ErrClosedPipe"
    using p' rerr by (auto simp: writeCloseError_def pipe_errs split: option.splits)
  from inv show ?thesis
  proof (cases rule: ack_inv_cases)
    case (empty ans t)
    then have "reply_of_waiting p p' = []" by (simp add: reply_of_waiting_def)
    moreover have "ack_inv calls D p' reps cs"
      by (rule ack_inv_emptyI [OF empty(1) _ empty(3)])
        (use empty(4) p'_done rerr reply_fits_closed [OF empty(2)] in auto)
    ultimately show ?thesis by simp
  next
    case (waits ans t rest)
    let ?ans = "ans @ [PWrite (t @ rest)]" and ?reps = "reps @ [Some ErrClosedPipe]"
    note len = list_all2_lengthD [OF waits(2)]
    have "list_all2 (reply_fits (p_done p')) ?ans ?reps"
      using reply_fits_closed [OF waits(2)] p'_done by (intro list_all2_appendI) (simp_all add: reply_fits_def)
    moreover have "cut_off t ?ans ?reps" by (rule cut_off_last [OF len]) simp
    moreover have "reply_of_waiting p p' = [Some ErrClosedPipe]"
      using waits(4) p'_done err by (simp add: reply_of_waiting_def)
    ultimately show ?thesis
      using waits(1,3) len p'_done rerr by (intro ack_inv_emptyI [where ans = ?ans and t = t]) (simp_all add: acked_append)
  qed
qed

subsection \<open>Every method keeps it\<close>

lemma serve_call_acks:
  assumes "ack_inv calls D (bsr_pipe s) (bsr_replies s) (bs_peer_call c # cs)"
    and "pipe_idle (bsr_pipe s)" and "\<not> p_done (bsr_pipe s)"
  shows "ack_inv calls D (bsr_pipe (serve_call c s)) (bsr_replies (serve_call c s)) cs"
proof -
  have idle: "p_pend (bsr_pipe s) = None" using assms(2) by (simp add: pipe_idle_def)
  show ?thesis
  proof (cases c rule: bs_peer_call.cases)
    case (1 bs)
    with ack_inv_write [OF _ idle assms(3)] assms(1,3) show ?thesis by (simp add: bsr_Write_def pipe_write_def)
  next
    case (2 e)
    with ack_inv_fail [OF _ idle assms(3)] assms(1) show ?thesis by (simp add: bsr_Write_def)
  next
    case 3
    with ack_inv_end [OF _ idle assms(3)] assms(1) idle show ?thesis
      by (simp add: bsr_End_def reply_of_waiting_def Let_def)
  qed
qed

lemma run_calls_acks:
  "run_calls s cs = (s', cs') \<Longrightarrow> ack_inv calls D (bsr_pipe s) (bsr_replies s) (map bs_peer_call cs) \<Longrightarrow>
   ack_inv calls D (bsr_pipe s') (bsr_replies s') (map bs_peer_call cs')"
  by (induction s cs rule: run_calls.induct) (auto simp: serve_call_acks split: if_splits)

lemma bss_Call_acks:
  assumes "ack_inv calls D (bs_pipe b) (bs_replies b) (md_peer_call c # cs)"
    and "pipe_idle (bs_pipe b)" and "\<not> p_done (bs_pipe b)"
  shows "ack_inv calls D (bs_pipe (bss_Call c b)) (bs_replies (bss_Call c b)) cs"
proof -
  note upd = bss_reply_def bss_replies_def
  have idle: "p_pend (bs_pipe b) = None" using assms(2) by (simp add: pipe_idle_def)
  show ?thesis
  proof (cases "md_peer_call c")
    case (PWrite bs)
    then have "bss_Call c b = b\<lparr>bs_pipe := (bs_pipe b)\<lparr>p_pend := Some bs\<rparr>\<rparr>"
      using assms(3) by (auto simp: md_peer_call_def bss_Call_def pipe_write_def split: if_splits sum.splits)
    with ack_inv_write [OF _ idle assms(3)] assms(1) PWrite show ?thesis by simp
  next
    case (PFail e)
    then have "bss_Call c b = bss_reply (Some e) b"
      by (auto simp: md_peer_call_def bss_Call_def split: if_splits sum.splits)
    with ack_inv_fail [OF _ idle assms(3)] assms(1) PFail show ?thesis by (simp add: upd)
  next
    case PEnd
    then have "bss_Call c b = bss_reply None (b\<lparr>bs_pipe := pipe_close_writer (bs_pipe b)\<rparr>)"
      using idle by (auto simp: md_peer_call_def bss_Call_def upd reply_of_waiting_def Let_def split: if_splits sum.splits)
    with ack_inv_end [OF _ idle assms(3)] assms(1) PEnd show ?thesis by (simp add: upd)
  qed
qed

lemma md_run_calls_acks:
  "md_run_calls b cs = (b', cs') \<Longrightarrow> ack_inv calls D (bs_pipe b) (bs_replies b) (map md_peer_call cs) \<Longrightarrow>
   ack_inv calls D (bs_pipe b') (bs_replies b') (map md_peer_call cs')"
  by (induction b cs rule: md_run_calls.induct) (auto simp: bss_Call_acks split: if_splits)

definition acks :: "peer_call list \<Rightarrow> bytes \<Rightarrow> stream \<Rightarrow> bool" where
  "acks calls D s \<longleftrightarrow> receives s \<and> ack_inv calls D (peer_pipe s) (peer_replies s) (peer_calls s)"

lemma acks_Read:
  assumes "acks calls D s" and "stream_Read n s = Ret ((bs, er), s')"
  shows "acks calls (D @ bs) s'"
proof (cases s)
  case (CapnpS x)
  with assms(2) obtain x' where rd: "capnp_Read n x = Ret ((bs, er), x')" and s': "s' = CapnpS x'"
    by (auto simp: lift_Ret_iff)
  from rd obtain r1 where run: "run_calls (cs_reader x) (cs_calls x) = (r1, cs_calls x')"
      and r: "bsr_Read n r1 = Ret ((bs, er), cs_reader x')"
    by (rule capnp_Read_split)
  from r have "bsr_replies (cs_reader x') = bsr_replies r1 @ reply_of_waiting (bsr_pipe r1) (bsr_pipe (cs_reader x'))"
    by (auto simp: bsr_Read_def then_do_Ret_iff dest!: sym [where t = "cs_reader x'"])
  with run_calls_acks [OF run, of calls D] ack_inv_read [OF _ bsr_Read_pipe [OF r]] assms(1) CapnpS s' show ?thesis
    by (simp add: acks_def)
next
  case (MdS x)
  with assms(2) obtain x' where rd: "md_Read n x = Ret ((bs, er), x')" and s': "s' = MdS x'"
    by (auto simp: lift_Ret_iff)
  from rd obtain b cs p where run: "md_run_calls (ms_server x) (ms_calls x) = (b, cs)"
      and r: "pipe_read n (bs_pipe b) = Ret ((bs, er), p)"
      and x': "x' = x\<lparr>ms_server := bss_replies (reply_of_waiting (bs_pipe b) p) (b\<lparr>bs_pipe := p\<rparr>), ms_calls := cs\<rparr>"
    by (auto simp: md_Read_def then_do_Ret_iff Let_def split: prod.splits)
  with md_run_calls_acks [OF run, of calls D] ack_inv_read [OF _ r] assms(1) MdS s' show ?thesis
    by (simp add: acks_def bss_replies_def)
qed (use assms(1) in \<open>simp_all add: acks_def\<close>)

text \<open>Writes and CloseWrite do not touch the receiving side; closing the receiving side cuts it off.\<close>

definition same_receiver :: "stream \<Rightarrow> stream \<Rightarrow> bool" where
  "same_receiver s s' \<longleftrightarrow> (receives s \<longrightarrow> receives s') \<and>
     peer_pipe s' = peer_pipe s \<and> peer_replies s' = peer_replies s \<and> peer_calls s' = peer_calls s"

lemma acks_same: "acks calls D s \<Longrightarrow> same_receiver s s' \<Longrightarrow> acks calls D s'"
  by (simp add: acks_def same_receiver_def)

lemma stream_Write_same: "stream_Write b s = Ret (q, s') \<Longrightarrow> same_receiver s s'"
  by (cases s) (auto simp: lift_Ret_iff same_receiver_def md_Write_def dest: capnp_writes_reader(1) split: list.splits)

lemma stream_CloseWrite_same: "stream_CloseWrite s = Ret (e, s') \<Longrightarrow> same_receiver s s'"
  by (cases s) (auto simp: lift_Ret_iff same_receiver_def md_CloseWrite_def dest: capnp_writes_reader(2))

definition closes_pipe :: "stream \<Rightarrow> stream \<Rightarrow> bool" where
  "closes_pipe s s' \<longleftrightarrow> receives s' \<and> peer_calls s' = peer_calls s \<and>
     (peer_pipe s' = pipe_close_writer (peer_pipe s) \<or> peer_pipe s' = pipe_close_reader (peer_pipe s)) \<and>
     peer_replies s' = peer_replies s @ reply_of_waiting (peer_pipe s) (peer_pipe s')"

lemma acks_closes: "acks calls D s \<Longrightarrow> closes_pipe s s' \<Longrightarrow> acks calls D s'"
  unfolding acks_def closes_pipe_def using ack_inv_close by fastforce

lemma capnp_CloseRead_closes: "capnp_CloseRead x = Ret (e, x') \<Longrightarrow> closes_pipe (CapnpS x) (CapnpS x')"
  by (auto simp: capnp_CloseRead_def bsr_Close_def then_do_Ret_iff Let_def closes_pipe_def)

lemma stream_Close_closes:
  assumes "stream_Close s = Ret (e, s')" and "receives s"
  shows "closes_pipe s s'"
proof (cases s)
  case (CapnpS x)
  with assms(1) obtain x' where cl: "capnp_Close x = Ret (e, x')" and s': "s' = CapnpS x'" by (auto simp: lift_Ret_iff)
  from cl obtain e1 x1 e2 x2 where c: "capnp_CloseWrite x = Ret (e1, x1)" "capnp_CloseRead x1 = Ret (e2, x2)"
      and x': "x' = x2\<lparr>cs_released := True\<rparr>"
    by (auto simp: capnp_Close_def then_do_Ret_iff split: if_splits)
  from capnp_CloseRead_closes [OF c(2)] capnp_writes_reader(2) [OF c(1)] CapnpS s' x' show ?thesis
    by (simp add: closes_pipe_def)
next
  case (MdS x)
  with assms(1) show ?thesis
    by (auto simp: lift_Ret_iff md_Close_def Let_def closes_pipe_def bss_replies_def split: list.splits)
qed (use assms(2) in simp_all)

lemma acks_Close: "acks calls D s \<Longrightarrow> stream_Close s = Ret (e, s') \<Longrightarrow> acks calls D s'"
  using acks_closes stream_Close_closes unfolding acks_def by blast

lemma acks_CloseRead:
  assumes "acks calls D s" and "stream_CloseRead s = Ret (e, s')"
  shows "acks calls D s'"
proof (cases s)
  case (CapnpS x)
  with assms show ?thesis by (auto simp: lift_Ret_iff intro: acks_closes capnp_CloseRead_closes)
next
  case (MdS x)
  with assms show ?thesis by (auto simp: lift_Ret_iff md_CloseRead_def)
qed (use assms(1) in \<open>simp_all add: acks_def\<close>)

lemma call_method_acks:
  assumes "acks calls D s" and "call_method m s = Ret (bs, s')"
  shows "acks calls (D @ bs) s'"
proof (cases m)
  case (DoRead n)
  with assms acks_Read show ?thesis by (auto simp: then_do_Ret_iff)
next
  case (DoWrite b)
  with assms(2) obtain q where "stream_Write b s = Ret (q, s')" "bs = []" by (auto simp: then_do_Ret_iff)
  with acks_same [OF assms(1)] stream_Write_same show ?thesis by simp
next
  case DoCloseRead
  with assms(2) obtain e where "stream_CloseRead s = Ret (e, s')" "bs = []" by (auto simp: then_do_Ret_iff)
  with acks_CloseRead [OF assms(1)] show ?thesis by simp
next
  case DoCloseWrite
  with assms(2) obtain e where "stream_CloseWrite s = Ret (e, s')" "bs = []" by (auto simp: then_do_Ret_iff)
  with acks_same [OF assms(1)] stream_CloseWrite_same show ?thesis by simp
next
  case DoClose
  with assms(2) obtain e where "stream_Close s = Ret (e, s')" "bs = []" by (auto simp: then_do_Ret_iff)
  with acks_Close [OF assms(1)] show ?thesis by simp
qed

lemma call_methods_acks:
  assumes "new_receiver s" and "call_methods ms s = Ret (D, s')"
  shows "acks (peer_calls s) D s'"
proof -
  have "acks (peer_calls s) [] s" using assms(1) ack_inv_new by (simp add: new_receiver_def acks_def)
  from call_methods_inv [where P = "acks (peer_calls s)", OF call_method_acks this assms(2)] show ?thesis by simp
qed

text \<open>A closed pipe stays closed.\<close>

lemma Close_done: "stream_Close s = Ret (e, s') \<Longrightarrow> receives s \<Longrightarrow> p_done (peer_pipe s')"
  by (auto dest!: stream_Close_closes simp: closes_pipe_def)

lemma call_method_receives: "call_method m s = Ret (bs, s') \<Longrightarrow> receives s \<Longrightarrow> receives s'"
  by (cases m; cases s) (auto simp: then_do_Ret_iff lift_Ret_iff)

lemma run_calls_done: "p_done (bsr_pipe s) \<Longrightarrow> run_calls s cs = (s, cs)"
  by (cases cs) auto

lemma md_run_calls_done: "p_done (bs_pipe b) \<Longrightarrow> md_run_calls b cs = (b, cs)"
  by (cases cs) auto

lemma Read_done:
  assumes "stream_Read n s = Ret (r, s')" and "receives s" and "p_done (peer_pipe s)"
  shows "p_done (peer_pipe s')"
proof (cases s)
  case (CapnpS x)
  with assms show ?thesis
    by (auto simp: lift_Ret_iff run_calls_done dest: pipe_read_done dest!: bsr_Read_pipe elim!: capnp_Read_split)
next
  case (MdS x)
  with assms show ?thesis
    by (auto simp: lift_Ret_iff md_run_calls_done dest: pipe_read_done elim!: md_Read_split)
qed (use assms in simp_all)

lemma CloseRead_done: "stream_CloseRead s = Ret (e, s') \<Longrightarrow> p_done (peer_pipe s) \<Longrightarrow> receives s \<Longrightarrow> p_done (peer_pipe s')"
  by (cases s) (auto simp: lift_Ret_iff md_CloseRead_def dest: capnp_CloseRead_Ret)

lemma call_method_done:
  assumes "call_method m s = Ret (bs, s')" and "receives s" and "m = DoClose \<or> p_done (peer_pipe s)"
  shows "p_done (peer_pipe s')"
  using assms
  by (cases m) (auto simp: then_do_Ret_iff dest: Close_done Read_done CloseRead_done
      dest!: stream_Write_same stream_CloseWrite_same simp: same_receiver_def)

lemma call_methods_done:
  "call_methods ms s = Ret (D, s') \<Longrightarrow> receives s \<Longrightarrow> DoClose \<in> set ms \<or> p_done (peer_pipe s) \<Longrightarrow> p_done (peer_pipe s')"
proof (induction ms arbitrary: s D)
  case (Cons m ms)
  from Cons.prems(1) obtain bs1 s1 bs2 where m: "call_method m s = Ret (bs1, s1)" "call_methods ms s1 = Ret (bs2, s')"
    by (auto simp: then_do_Ret_iff)
  from Cons.IH [OF m(2) call_method_receives [OF m(1) Cons.prems(2)]] call_method_done [OF m(1) Cons.prems(2)] Cons.prems(3)
  show ?case by auto
qed simp

subsection \<open>What the invariant says of the calls\<close>

lemma ack_inv_replies:
  assumes "ack_inv calls D p reps cs"
  shows "length reps \<le> length calls" and "i < length reps \<Longrightarrow> reply_fits (p_done p) (calls ! i) (reps ! i)"
    and "\<exists>t. D = acked calls reps @ t \<and>
      (t = [] \<or> cut_off t calls reps \<or> (\<exists>bs. calls ! length reps = PWrite bs \<and> prefix t bs \<and> length reps < length calls))"
    and "p_done p \<Longrightarrow> length reps + length cs = length calls"
proof -
  have ans: "acked (xs @ ys) reps = acked xs reps" if "length xs = length reps" for xs ys
    using acked_append [OF that, of ys "[]"] by simp
  have fits: "i < length reps \<Longrightarrow> reply_fits b ((xs @ ys) ! i) (reps ! i)" if "list_all2 (reply_fits b) xs reps" for b xs ys
    using that by (simp add: list_all2_conv_all_nth nth_append)
  from assms have "length reps \<le> length calls \<and> (i < length reps \<longrightarrow> reply_fits (p_done p) (calls ! i) (reps ! i)) \<and>
    (\<exists>t. D = acked calls reps @ t \<and>
      (t = [] \<or> cut_off t calls reps \<or> (\<exists>bs. calls ! length reps = PWrite bs \<and> prefix t bs \<and> length reps < length calls))) \<and>
    (p_done p \<longrightarrow> length reps + length cs = length calls)"
  proof (cases rule: ack_inv_cases)
    case (empty a t)
    note len = list_all2_lengthD [OF empty(2)]
    have "t = [] \<or> cut_off t calls reps" using empty(1,4) cut_off_append [of t a reps cs "[]"] by auto
    with len ans [OF len] fits [OF empty(2)] empty(1,3) show ?thesis by auto
  next
    case (waits a t rest)
    note len = list_all2_lengthD [OF waits(2)]
    have "calls ! length reps = PWrite (t @ rest)" using waits(1) len by (metis nth_append_length)
    moreover have "prefix t (t @ rest)" by simp
    ultimately show ?thesis using len ans [OF len] fits [OF waits(2)] waits(1,3,5) by auto
  qed
  then show "length reps \<le> length calls" and "i < length reps \<Longrightarrow> reply_fits (p_done p) (calls ! i) (reps ! i)"
    and "\<exists>t. D = acked calls reps @ t \<and>
      (t = [] \<or> cut_off t calls reps \<or> (\<exists>bs. calls ! length reps = PWrite bs \<and> prefix t bs \<and> length reps < length calls))"
    and "p_done p \<Longrightarrow> length reps + length cs = length calls"
    by blast+
qed

subsection \<open>handleStream\<close>

text \<open>
  The copy from the upstream: what it has read is what the downstream was given and what it holds in
  its hands, until it meets an error.
\<close>

fun in_hand :: "copier \<Rightarrow> bytes" where
  "in_hand c = (case ck_pc c of AtWrite bs er \<Rightarrow> bs | _ \<Rightarrow> [])"

definition relays :: "peer_call list \<Rightarrow> bytes \<Rightarrow> copier \<Rightarrow> stream \<Rightarrow> stream \<Rightarrow> bool" where
  "relays calls given c src dst \<longleftrightarrow>
     (ck_pc c \<in> {AtCloseRead, AtCloseWrite, AtEnd} \<or> ck_err c = None) \<and>
     (\<exists>D x. acks calls D src \<and> stream_sunk dst = given @ x \<and> (ck_err c = None \<longrightarrow> D = x @ in_hand c))"

lemma copier_step_relays:
  assumes "copier_step c src dst = Ret (c', src', dst')" and "relays calls given c src dst"
  shows "relays calls given c' src' dst'"
proof -
  from assms(2) obtain D x where inv: "acks calls D src" "stream_sunk dst = given @ x"
      "ck_err c = None \<longrightarrow> D = x @ in_hand c" and loop: "ck_pc c \<in> {AtCloseRead, AtCloseWrite, AtEnd} \<or> ck_err c = None"
    by (auto simp: relays_def)
  from assms(1) show ?thesis
  proof (cases rule: copier_step_cases)
    case (reading bs er)
    with acks_Read [OF inv(1)] have "acks calls (D @ bs) src'" by blast
    with reading inv loop show ?thesis
      by (auto simp: relays_def after_round_def split: option.splits)
  next
    case (writing bs er r)
    with loop inv have D: "D = x @ bs" "ck_err c = None" by auto
    from writing(2) show ?thesis
    proof (cases rule: after_write_cases [where er = er and c = c])
      case all
      with writing inv D show ?thesis
        by (auto simp: relays_def after_round_def split: option.splits intro!: exI [of _ D])
    next
      case (failed k n e)
      with writing inv D show ?thesis by (auto simp: relays_def)
    qed
  next
    case (closing_read e)
    with acks_CloseRead [OF inv(1)] inv show ?thesis by (auto simp: relays_def)
  next
    case (closing_write e)
    with netx.close_sunk(2) inv show ?thesis by (auto simp: relays_def)
  qed
qed

text \<open>The other goroutine only writes to the upstream, and only reads from the downstream.\<close>

lemma copier_step_other:
  assumes "copier_step c src dst = Ret (c', src', dst')"
  shows "same_receiver dst dst'" and "stream_sunk src' = stream_sunk src"
proof -
  have "same_receiver dst dst' \<and> stream_sunk src' = stream_sunk src"
    using assms
  proof (cases rule: copier_step_cases)
    case (reading bs er)
    with stream_Read_contract [OF reading(2)] show ?thesis by (simp add: same_receiver_def)
  next
    case (writing bs er r)
    with stream_Write_same show ?thesis by simp
  next
    case (closing_read e)
    with netx.close_sunk(1) show ?thesis by (simp add: same_receiver_def)
  next
    case (closing_write e)
    with stream_CloseWrite_same show ?thesis by simp
  qed
  then show "same_receiver dst dst'" and "stream_sunk src' = stream_sunk src" by simp_all
qed

definition relay_inv :: "peer_call list \<Rightarrow> bytes \<Rightarrow> handler \<Rightarrow> bool" where
  "relay_inv calls given h \<longleftrightarrow>
     (h_main h = MOpen \<longrightarrow> h_up h = None \<and> h_ud h = copier_start \<and> stream_sunk (h_down h) = given \<and>
        (\<exists>up. h_open h = Inr up \<and> acks calls [] up)) \<and>
     (h_main h \<noteq> MOpen \<longrightarrow> (\<exists>up. h_up h = Some up \<and> relays calls given (h_ud h) up (h_down h)))"

lemma relays_frame:
  assumes "relays calls given c src dst" and "\<And>D. acks calls D src \<Longrightarrow> acks calls D src'"
    and "stream_sunk dst' = stream_sunk dst"
  shows "relays calls given c src' dst'"
  using assms unfolding relays_def by metis

lemma relay_inv_step:
  assumes "hstep g h = Ret h'" and inv: "relay_inv calls given h"
  shows "relay_inv calls given h'"
proof (cases g)
  case MainG
  with assms(1) have "main_step h = Ret h'" by simp
  then show ?thesis
  proof (cases rule: main_step_cases)
    case (copying up c up' down')
    with copier_step_relays [OF copying(3)] inv show ?thesis by (auto simp: relay_inv_def)
  next
    case (close_up up e up')
    with inv have "relays calls given (h_ud h) up (h_down h)" by (simp add: relay_inv_def)
    then have "relays calls given (h_ud h) up' (h_down h)"
      by (rule relays_frame [OF _ acks_Close [OF _ close_up(3)]]) simp_all
    with close_up show ?thesis by (simp add: relay_inv_def)
  next
    case (close_down e down')
    with inv obtain up where "h_up h = Some up" "relays calls given (h_ud h) up (h_down h)" by (auto simp: relay_inv_def)
    moreover from this(2) have "relays calls given (h_ud h) up down'"
      by (rule relays_frame) (use netx.close_sunk(3) [OF close_down(2)] in simp_all)
    ultimately show ?thesis using close_down by (simp add: relay_inv_def)
  qed (use inv in \<open>auto simp: relay_inv_def relays_def copier_start_def\<close>)
next
  case SpawnedG
  with assms(1) have "spawned_step h = Ret h'" by simp
  then obtain up c down' up' where up: "h_up h = Some up"
      and st: "copier_step (h_du h) (h_down h) up = Ret (c, down', up')"
      and h': "h' = h\<lparr>h_du := c, h_down := down', h_up := Some up'\<rparr>"
    by (rule spawned_step_cases)
  with inv have "h_main h \<noteq> MOpen" "relays calls given (h_ud h) up (h_down h)" by (auto simp: relay_inv_def)
  with relays_frame [OF this(2) acks_same [OF _ copier_step_other(1) [OF st]] copier_step_other(2) [OF st]] h'
  show ?thesis by (simp add: relay_inv_def)
qed

lemma relay_inv_reaches:
  assumes "reaches (handler_start down (Inr up0)) h" and "new_receiver up0"
  shows "relay_inv (peer_calls up0) (stream_sunk down) h"
  using assms(1)
proof (induction rule: reaches.induct)
  case reaches_start
  have "acks (peer_calls up0) [] up0" using assms(2) ack_inv_new by (simp add: new_receiver_def acks_def)
  then show ?case by (simp add: relay_inv_def handler_start_def)
next
  case (reaches_step h g h')
  with relay_inv_step show ?case by blast
qed

subsection \<open>Properties\<close>

text \<open>
  C24. What the peer of a Cap'n Proto stream is told is true, on both transports, whatever methods are
  called on the stream in whatever order. Its calls are answered in order. A Write is answered without
  an error only when all its bytes have been returned by Reads, and otherwise with io.ErrClosedPipe on
  a closed pipe; a bad call with its error; End without an error when the pipe is closed. The bytes read
  are those of the Writes answered without an error, in order, and at most a part of one more, which
  waits or was cut off. Once Close has been called no call is left waiting for its answer.
\<close>

theorem replies_tell_the_truth:
  assumes "new_receiver s0" and "call_methods ms s0 = Ret (D, s)"
  shows "length (peer_replies s) \<le> length (peer_calls s0) \<and>
    (\<forall>i < length (peer_replies s). reply_fits (p_done (peer_pipe s)) (peer_calls s0 ! i) (peer_replies s ! i)) \<and>
    (\<exists>t. D = acked (peer_calls s0) (peer_replies s) @ t \<and>
      (t = [] \<or> cut_off t (peer_calls s0) (peer_replies s) \<or>
       (\<exists>bs. peer_calls s0 ! length (peer_replies s) = PWrite bs \<and> prefix t bs \<and>
          length (peer_replies s) < length (peer_calls s0)))) \<and>
    (DoClose \<in> set ms \<longrightarrow> length (peer_replies s) + length (peer_calls s) = length (peer_calls s0))"
proof -
  have "ack_inv (peer_calls s0) D (peer_pipe s) (peer_replies s) (peer_calls s)"
    using call_methods_acks [OF assms] by (simp add: acks_def)
  note facts = ack_inv_replies [OF this]
  have "p_done (peer_pipe s)" if "DoClose \<in> set ms"
    using call_methods_done [OF assms(2)] assms(1) that by (simp add: new_receiver_def)
  with facts show ?thesis by blast
qed

text \<open>
  C23. Under every schedule of handleStream with a Cap'n Proto upstream: every call of the upstream's
  peer is answered as above, and while the copy from it has met no error, the bytes of every Write that
  was answered without an error have been handed to the downstream or are in the hands of the copy.
  So flow control reaches from the peer through the proxy: it has at most one buffer in hand.
\<close>

theorem handleStream_acks_what_it_relays:
  assumes "reaches (handler_start down (Inr up0)) h" and "new_receiver up0" and "h_up h = Some up"
  shows "(\<forall>i < length (peer_replies up). reply_fits (p_done (peer_pipe up)) (peer_calls up0 ! i) (peer_replies up ! i)) \<and>
    (\<exists>x. stream_sunk (h_down h) = stream_sunk down @ x \<and>
      (ck_err (h_ud h) = None \<longrightarrow> prefix (acked (peer_calls up0) (peer_replies up)) (x @ in_hand (h_ud h))))"
proof -
  from relay_inv_reaches [OF assms(1,2)] assms(3)
  obtain D x where inv: "acks (peer_calls up0) D up" and sunk: "stream_sunk (h_down h) = stream_sunk down @ x"
      and D: "ck_err (h_ud h) = None \<longrightarrow> D = x @ in_hand (h_ud h)"
    by (cases "h_main h = MOpen") (auto simp: relay_inv_def relays_def)
  from inv have "ack_inv (peer_calls up0) D (peer_pipe up) (peer_replies up) (peer_calls up)" by (simp add: acks_def)
  note facts = ack_inv_replies [OF this]
  from facts(3) have "prefix (acked (peer_calls up0) (peer_replies up)) D" by auto
  with facts(2) sunk D show ?thesis by auto
qed

text \<open>For the witnesses: one Write read to its end, a second one cut off in its middle by Close.\<close>

definition cut_sample :: stream where
  "cut_sample = CapnpS (newCapnpStream newByteStreamReader [CallWrite (Inr [1, 2]), CallWrite (Inr [3, 4]), CallEnd] [] None)"

lemma cut_sample_run:
  "\<exists>s. call_methods [DoRead 2, DoRead 1, DoClose] cut_sample = Ret ([1, 2, 3], s) \<and>
     peer_replies s = [None, Some ErrClosedPipe] \<and> length (peer_calls s) = 1"
  by (simp add: cut_sample_def capnp_eval lift_def capnp_Close_def capnp_CloseWrite_def capnp_CloseRead_def
      bsr_Close_def pipe_close_writer_def writeCloseError_def Let_def)

theorem replies_tell_the_truth_witness:
  "\<exists>s t. call_methods [DoRead 2, DoRead 1, DoClose] cut_sample = Ret ([1, 2, 3], s) \<and>
     [1, 2, 3] = acked (peer_calls cut_sample) [None, Some ErrClosedPipe] @ t"
proof -
  obtain s where r: "call_methods [DoRead 2, DoRead 1, DoClose] cut_sample = Ret ([1, 2, 3], s)"
      "peer_replies s = [None, Some ErrClosedPipe]"
    using cut_sample_run by blast
  have "new_receiver cut_sample" unfolding cut_sample_def by (rule new_streams_receive)
  from replies_tell_the_truth [OF this r(1)] r show ?thesis by auto
qed

theorem handleStream_acks_what_it_relays_witness:
  "\<exists>h up x. reaches (handler_start run_down (Inr (capnp_up [CallEnd]))) h \<and> h_up h = Some up \<and>
     stream_sunk (h_down h) = stream_sunk run_down @ x"
proof -
  obtain h up where r: "reaches (handler_start run_down (Inr (capnp_up [CallEnd]))) h" "h_up h = Some up"
    by (rule reaches_capnp_copying) blast
  have "new_receiver (capnp_up [CallEnd])" unfolding capnp_up_def by (rule new_streams_receive)
  from handleStream_acks_what_it_relays [OF r(1) this r(2)] r show ?thesis by blast
qed

end
