(* ===== verification/GrpcProgram.thy ===== *)
theory GrpcProgram
  imports Program
begin

text \<open>
  The program with a gRPC listener, its session and its handlers together. A stream the session hands
  out carries the callback OpenStream gave it, which closes the done channel the RPC handler waits
  for; in the session alone that is an event of its own, here it is the Close handleStream
  calls. So the life of an RPC is the life of the handleStream that serves it.
\<close>

subsection \<open>The callback\<close>

fun callback :: "stream \<Rightarrow> sigchan option" where
  "callback (GrpcS s) = g_closeCallback s"
| "callback _ = None"

lemma callback_Read: "stream_Read n s = Ret (r, s') \<Longrightarrow> callback s' = callback s"
proof (cases s)
  case (GrpcS g)
  assume "stream_Read n s = Ret (r, s')"
  with GrpcS obtain g' where "grpc_Read n g = Ret ((fst r, snd r), g')" "s' = GrpcS g'" by (auto simp: lift_Ret_iff)
  then show ?thesis using GrpcS by (cases rule: grpc_Read_cases) auto
qed (auto simp: lift_Ret_iff)

lemma callback_others:
  "stream_Write b s = Ret (q, s') \<Longrightarrow> callback s' = callback s"
  "stream_CloseRead s = Ret (e, s') \<Longrightarrow> callback s' = callback s"
  "stream_CloseWrite s = Ret (e, s') \<Longrightarrow> callback s' = callback s"
  by (cases s; auto simp: lift_Ret_iff grpc_Write_def grpc_CloseRead_def grpc_CloseWrite_def Let_def
      split: if_splits list.splits option.splits)+

lemma callback_Close:
  "stream_Close s = Ret (e, s') \<Longrightarrow> callback s = Some OpenChan \<Longrightarrow> callback s' = Some ClosedChan"
  by (cases s) (auto simp: lift_Ret_iff grpc_Close_def grpc_CloseRead_def grpc_CloseWrite_def then_do_Ret_iff Let_def
      split: if_splits)

lemma copier_step_callback:
  assumes "copier_step c src dst = Ret (c', src', dst')"
  shows "callback src' = callback src" and "callback dst' = callback dst"
proof -
  have "callback src' = callback src \<and> callback dst' = callback dst"
    using assms by (cases rule: copier_step_cases) (auto dest: callback_Read callback_others)
  then show "callback src' = callback src" and "callback dst' = callback dst" by simp_all
qed

text \<open>handleStream closes its downstream in its last step, and only there.\<close>

definition over :: "handler \<Rightarrow> bool" where
  "over h \<longleftrightarrow> h_main h = MDone"

definition chan_of :: "bool \<Rightarrow> sigchan" where
  "chan_of closed = (if closed then ClosedChan else OpenChan)"

lemma hstep_callback:
  assumes "hstep g h = Ret h'" and "callback (h_down h) = Some (chan_of (over h))"
  shows "callback (h_down h') = Some (chan_of (over h'))"
proof (cases g)
  case MainG
  with assms(1) have "main_step h = Ret h'" by simp
  then show ?thesis
  proof (cases rule: main_step_cases)
    case (copying up c up' down')
    with assms(2) copier_step_callback(2) [OF copying(3)] show ?thesis by (simp add: over_def)
  next
    case (close_down e down')
    with assms(2) callback_Close [OF close_down(2)] show ?thesis by (simp add: over_def chan_of_def)
  qed (use assms(2) in \<open>simp_all add: over_def\<close>)
next
  case SpawnedG
  with assms(1) have "spawned_step h = Ret h'" by simp
  then obtain up c down' up' where
      "copier_step (h_du h) (h_down h) up = Ret (c, down', up')" "h' = h\<lparr>h_du := c, h_down := down', h_up := Some up'\<rparr>"
    by (rule spawned_step_cases)
  with assms(2) copier_step_callback(1) show ?thesis by (fastforce simp: over_def)
qed

subsection \<open>Session and handlers linked\<close>

fun task_down :: "task \<Rightarrow> stream" where
  "task_down (Starting down) = down"
| "task_down (Running h) = h_down h"

fun task_over :: "task \<Rightarrow> bool" where
  "task_over (Starting down) = False"
| "task_over (Running h) = over h"

type_synonym grpc_program = "(grpc_server, client_session) program"

text \<open>
  The streams are served in the order AcceptStream returned them, so task \<open>k\<close> has the stream of
  handler \<open>gs_taken ! k\<close>. A step of a goroutine that makes the callback run closes the done channel
  of that handler; it is closed in no other way.
\<close>

definition done_of :: "nat \<Rightarrow> grpc_server \<Rightarrow> nat" where
  "done_of k s = gs_taken s ! k"

fun linked_do :: "env \<Rightarrow> (grpc_event, open_lib) prog_event \<Rightarrow> grpc_program \<Rightarrow> grpc_program outcome" where
  "linked_do env (RunEvent k g) p =
     then_do (prog_do (grpc_server_do env) (session_open env) (RunEvent k g) p) (\<lambda>p'.
       if callback (task_down (pr_tasks p ! k)) = Some OpenChan \<and>
          callback (task_down (pr_tasks p' ! k)) = Some ClosedChan
       then then_do (grpc_server_do env (GDone (done_of k (pr_server p'))) (pr_server p')) (\<lambda>(_, s).
              Ret (p'\<lparr>pr_server := s\<rparr>))
       else Ret p')"
| "linked_do env (ServerEvent (GDone i)) p = Blocked"
| "linked_do env ev p = prog_do (grpc_server_do env) (session_open env) ev p"

fun linked_run :: "env \<Rightarrow> (grpc_event, open_lib) prog_event list \<Rightarrow> grpc_program \<Rightarrow> grpc_program outcome" where
  "linked_run env [] p = Ret p"
| "linked_run env (ev # evs) p = then_do (linked_do env ev p) (linked_run env evs)"

interpretation grpc_prog: proxy_program "grpc_server_do env" grpc_server_inv "session_open env" client_inv for env
  by unfold_locales

text \<open>The done channel of a stream's RPC is closed exactly when its handleStream is over.\<close>

definition task_linked :: "grpc_server \<Rightarrow> nat \<Rightarrow> task \<Rightarrow> bool" where
  "task_linked s i t \<longleftrightarrow>
     callback (task_down t) = Some (chan_of (task_over t)) \<and> rh_done (gs_handlers s ! i) = chan_of (task_over t)"

definition handlers_new :: "grpc_server \<Rightarrow> bool" where
  "handlers_new s \<longleftrightarrow>
     (\<forall>i < length (gs_handlers s). callback (taken_stream s i) = Some OpenChan \<and>
        (i \<notin> set (gs_taken s) \<longrightarrow> rh_done (gs_handlers s ! i) = OpenChan))"

definition linked_inv :: "grpc_program \<Rightarrow> bool" where
  "linked_inv p \<longleftrightarrow>
     grpc_prog.program_ok p \<and> handlers_new (pr_server p) \<and>
     length (pr_tasks p) = length (gs_taken (pr_server p)) \<and>
     (\<forall>k < length (pr_tasks p). task_linked (pr_server p) (done_of k (pr_server p)) (pr_tasks p ! k))"

subsection \<open>What the events keep\<close>

text \<open>Any other event leaves the handlers, moves one of them on, or adds the handler of a new RPC.\<close>

lemma grpc_event_handlers:
  assumes "grpc_server_do env ev s = Ret (r, s')" and "\<forall>i. ev \<noteq> GDone i"
  obtains (same) "gs_handlers s' = gs_handlers s"
    | (moved) j pc where "gs_handlers s' = (gs_handlers s)[j := rh_pc_update pc (gs_handlers s ! j)]"
    | (called) recv send where "gs_handlers s' = gs_handlers s @
        [\<lparr>rh_stream = newGrpcStream recv send False None (Some OpenChan), rh_done = OpenChan, rh_pc = Offering\<rparr>]"
  using assms
  by (cases ev) (auto simp: go_simps grpc_server_bootstrap_def grpc_server_Close_def split: if_splits sum.splits)

lemma grpc_event_frame:
  assumes "grpc_server_do env ev s = Ret (r, s')" and "\<forall>i. ev \<noteq> GDone i"
  shows "i < length (gs_handlers s) \<Longrightarrow> rh_done (gs_handlers s' ! i) = rh_done (gs_handlers s ! i)"
    and "length (gs_handlers s) \<le> i \<Longrightarrow> i < length (gs_handlers s') \<Longrightarrow>
      rh_done (gs_handlers s' ! i) = OpenChan \<and> callback (taken_stream s' i) = Some OpenChan"
proof -
  from assms have "(i < length (gs_handlers s) \<longrightarrow> rh_done (gs_handlers s' ! i) = rh_done (gs_handlers s ! i)) \<and>
      (length (gs_handlers s) \<le> i \<longrightarrow> i < length (gs_handlers s') \<longrightarrow>
        rh_done (gs_handlers s' ! i) = OpenChan \<and> callback (taken_stream s' i) = Some OpenChan)"
  proof (cases rule: grpc_event_handlers)
    case (moved j pc)
    then show ?thesis by (cases "i = j") auto
  next
    case (called recv send)
    then show ?thesis by (auto simp: nth_append taken_stream_def newGrpcStream_def)
  qed simp
  then show "i < length (gs_handlers s) \<Longrightarrow> rh_done (gs_handlers s' ! i) = rh_done (gs_handlers s ! i)"
    and "length (gs_handlers s) \<le> i \<Longrightarrow> i < length (gs_handlers s') \<Longrightarrow>
      rh_done (gs_handlers s' ! i) = OpenChan \<and> callback (taken_stream s' i) = Some OpenChan"
    by blast+
qed

lemma grpc_event_new:
  assumes step: "grpc_server_do env ev s = Ret (r, s')" and nd: "\<forall>i. ev \<noteq> GDone i" and new: "handlers_new s"
  shows "handlers_new s'"
  unfolding handlers_new_def
proof (intro allI impI)
  fix i
  assume i: "i < length (gs_handlers s')"
  show "callback (taken_stream s' i) = Some OpenChan \<and>
      (i \<notin> set (gs_taken s') \<longrightarrow> rh_done (gs_handlers s' ! i) = OpenChan)"
  proof (cases "i < length (gs_handlers s)")
    case True
    have "set (gs_taken s) \<subseteq> set (gs_taken s')" using step by (rule grpc_server_do_taken) auto
    with True new grpc_event_frame(1) [OF step nd True] grpc_server_do_streams [OF step True] show ?thesis
      by (auto simp: handlers_new_def)
  next
    case False
    with grpc_event_frame(2) [OF step nd _ i] show ?thesis by simp
  qed
qed

lemma task_linked_frame:
  "task_linked s i t \<Longrightarrow> rh_done (gs_handlers s' ! i) = rh_done (gs_handlers s ! i) \<Longrightarrow> task_linked s' i t"
  by (simp add: task_linked_def)

lemma linked_inv_taken:
  assumes "linked_inv p" and "k < length (pr_tasks p)"
  shows "done_of k (pr_server p) < length (gs_handlers (pr_server p))"
    and "j < length (pr_tasks p) \<Longrightarrow> done_of j (pr_server p) = done_of k (pr_server p) \<longleftrightarrow> j = k"
proof -
  from assms have s: "grpc_server_inv (pr_server p)" "k < length (gs_taken (pr_server p))"
    by (simp_all add: linked_inv_def grpc_prog.program_ok_def)
  then have "done_of k (pr_server p) \<in> set (gs_taken (pr_server p))" by (simp add: done_of_def)
  with s(1) show "done_of k (pr_server p) < length (gs_handlers (pr_server p))"
    by (auto simp: grpc_server_inv_def)
  assume "j < length (pr_tasks p)"
  with assms s show "done_of j (pr_server p) = done_of k (pr_server p) \<longleftrightarrow> j = k"
    by (auto simp: linked_inv_def done_of_def grpc_server_inv_def nth_eq_iff_index_eq)
qed

lemma linked_server_event:
  assumes step: "prog_do (grpc_server_do env) (session_open env) (ServerEvent ev) p = Ret p'"
    and nd: "\<forall>i. ev \<noteq> GDone i" and inv: "linked_inv p"
  shows "linked_inv p'"
proof -
  let ?s = "pr_server p"
  from step obtain r s where rs: "grpc_server_do env ev ?s = Ret (r, s)" by (fastforce simp: go_simps)
  have ok: "grpc_prog.program_ok p'" using grpc_prog.prog_do_ok [OF _ step] inv by (simp add: linked_inv_def)
  have new: "handlers_new s" using grpc_event_new [OF rs nd] inv by (simp add: linked_inv_def)
  have linked: "task_linked s (gs_taken ?s ! k) (pr_tasks p ! k)" if "k < length (pr_tasks p)" for k
    using task_linked_frame [OF _ grpc_event_frame(1) [OF rs nd]] linked_inv_taken(1) [OF inv that] inv that
    by (auto simp: linked_inv_def done_of_def)
  have len: "length (pr_tasks p) = length (gs_taken ?s)" using inv by (simp add: linked_inv_def)
  from rs consider (same) "gs_taken s = gs_taken ?s" "r = None" | (failed) e where "r = Some (Inl e)"
    | (took) i where "i < length (gs_handlers ?s)" "gs_taken s = gs_taken ?s @ [i]" "r = Some (Inr (taken_stream ?s i))"
    by (rule grpc_server_do_taken)
  then show ?thesis
  proof cases
    case same
    with step rs have p': "p' = p\<lparr>pr_server := s\<rparr>" by simp
    with ok new linked len same(1) show ?thesis by (simp add: linked_inv_def done_of_def)
  next
    case (failed e)
    with step rs show ?thesis by simp
  next
    case (took i)
    with step rs have p': "p' = p\<lparr>pr_server := s, pr_tasks := pr_tasks p @ [Starting (taken_stream ?s i)]\<rparr>" by simp
    have "callback (taken_stream ?s i) = Some OpenChan" using inv took(1) by (simp add: linked_inv_def handlers_new_def)
    moreover have "rh_done (gs_handlers s ! i) = OpenChan"
    proof -
      have "grpc_server_inv s" using ok p' by (simp add: grpc_prog.program_ok_def)
      then have "i \<notin> set (gs_taken ?s)" using took(2) by (auto simp: grpc_server_inv_def)
      then show ?thesis using inv took(1) grpc_event_frame(1) [OF rs nd took(1)]
        by (simp add: linked_inv_def handlers_new_def)
    qed
    ultimately have "task_linked s i (Starting (taken_stream ?s i))" by (simp add: task_linked_def chan_of_def)
    with linked len took(2) have "task_linked s (gs_taken s ! k) ((pr_tasks p @ [Starting (taken_stream ?s i)]) ! k)"
      if "k < Suc (length (pr_tasks p))" for k
      using that by (auto simp: nth_append less_Suc_eq)
    with ok new len took(2) p' show ?thesis by (simp add: linked_inv_def done_of_def)
  qed
qed

lemma linked_open_event:
  assumes step: "prog_do (grpc_server_do env) (session_open env) (OpenEvent i a) p = Ret p'" and inv: "linked_inv p"
  shows "linked_inv p'"
proof -
  from step obtain down where i: "i < length (pr_tasks p)" "pr_tasks p ! i = Starting down"
    by (auto split: if_splits task.splits)
  with step obtain opened c where
      p': "p' = p\<lparr>pr_client := c, pr_tasks := (pr_tasks p)[i := Running (handler_start down opened)]\<rparr>"
    by (auto simp: go_simps)
  have ok: "grpc_prog.program_ok p'" using grpc_prog.prog_do_ok [OF _ step] inv by (simp add: linked_inv_def)
  have "task_linked (pr_server p) (done_of i (pr_server p)) (Running (handler_start down opened))"
    using inv i by (force simp: linked_inv_def task_linked_def handler_start_def over_def)
  with inv have "task_linked (pr_server p) (done_of k (pr_server p)) (pr_tasks p' ! k)" if "k < length (pr_tasks p)" for k
    using that p' by (cases "k = i") (simp_all add: linked_inv_def)
  with ok inv p' show ?thesis by (simp add: linked_inv_def)
qed

text \<open>A step of a handler: the link holds again once the callback, if it ran, has closed the channel.\<close>

lemma linked_run_event:
  assumes step: "linked_do env (RunEvent k g) p = Ret p'" and inv: "linked_inv p"
  shows "linked_inv p'"
proof -
  let ?s = "pr_server p" and ?i = "done_of k (pr_server p)"
  from step obtain p1 where p1: "prog_do (grpc_server_do env) (session_open env) (RunEvent k g) p = Ret p1"
    by (auto simp: then_do_Ret_iff)
  then obtain h h' where k: "k < length (pr_tasks p)" "pr_tasks p ! k = Running h" and h: "hstep g h = Ret h'"
      and p1': "p1 = p\<lparr>pr_tasks := (pr_tasks p)[k := Running h']\<rparr>"
    by (auto simp: then_do_Ret_iff split: if_splits task.splits)
  have ok: "grpc_prog.program_ok p1" using grpc_prog.prog_do_ok [OF _ p1] inv by (simp add: linked_inv_def)
  from inv k have link: "callback (h_down h) = Some (chan_of (over h))" "rh_done (gs_handlers ?s ! ?i) = chan_of (over h)"
    by (force simp: linked_inv_def task_linked_def)+
  note cb = hstep_callback [OF h link(1)]
  have i: "?i < length (gs_handlers ?s)" "?i \<in> set (gs_taken ?s)"
    using linked_inv_taken(1) [OF inv k(1)] inv k(1) by (simp_all add: linked_inv_def done_of_def)
  show ?thesis
  proof (cases "over h' \<and> \<not> over h")
    case True
    with link have "rh_done (gs_handlers ?s ! ?i) = OpenChan" by (simp add: chan_of_def)
    with i have gd: "grpc_server_do env (GDone ?i) ?s = Ret (None, upd_handler ?i (rh_done_update (\<lambda>_. ClosedChan)) ?s)"
      by simp
    let ?s' = "upd_handler ?i (rh_done_update (\<lambda>_. ClosedChan)) ?s"
    have p': "p' = p1\<lparr>pr_server := ?s'\<rparr>"
      using step p1 p1' k True cb link(1) gd by (simp add: chan_of_def)
    have "grpc_server_inv ?s'" using grpc_server_do_inv [OF _ gd] inv by (simp add: linked_inv_def grpc_prog.program_ok_def)
    with ok p' p1' have ok': "grpc_prog.program_ok p'" by (simp add: grpc_prog.program_ok_def)
    have new: "handlers_new ?s'" using inv i
      by (auto simp: linked_inv_def handlers_new_def taken_stream_def nth_list_update)
    have "task_linked ?s' (done_of j ?s') ((pr_tasks p)[k := Running h'] ! j)" if j: "j < length (pr_tasks p)" for j
    proof (cases "j = k")
      case True
      with cb \<open>over h' \<and> \<not> over h\<close> i k(1) show ?thesis by (simp add: task_linked_def done_of_def chan_of_def)
    next
      case False
      with inv j linked_inv_taken(2) [OF inv k(1) j] show ?thesis
        by (auto simp: linked_inv_def task_linked_def done_of_def)
    qed
    with ok' new inv p' p1' show ?thesis by (simp add: linked_inv_def)
  next
    case False
    have over: "over h' = over h"
    proof (rule ccontr)
      assume "over h' \<noteq> over h"
      with False have "over h" "\<not> over h'" by auto
      with h show False by (cases g) (auto simp: over_def main_step_def elim: spawned_step_cases)
    qed
    with step p1 p1' k cb link(1) have p': "p' = p1" by (auto simp: chan_of_def split: if_splits)
    have "task_linked ?s ?i (Running h')" using cb link(2) over by (simp add: task_linked_def)
    with inv have "task_linked ?s (done_of j ?s) (pr_tasks p1 ! j)" if "j < length (pr_tasks p)" for j
      using that p1' by (cases "j = k") (simp_all add: linked_inv_def)
    with ok inv p' p1' show ?thesis by (simp add: linked_inv_def)
  qed
qed

lemma linked_do_inv:
  assumes "linked_do env ev p = Ret p'" and "linked_inv p"
  shows "linked_inv p'"
proof (cases ev)
  case (ServerEvent e)
  show ?thesis
  proof (cases e)
    case (GDone i)
    with ServerEvent assms(1) show ?thesis by simp
  qed (use ServerEvent assms linked_server_event [of env e p p'] in \<open>simp_all del: prog_do.simps\<close>)
next
  case (OpenEvent i a)
  with assms linked_open_event show ?thesis by (simp del: prog_do.simps)
next
  case (RunEvent k g)
  with assms linked_run_event show ?thesis by blast
qed

lemma linked_run_inv: "linked_run env evs p = Ret p' \<Longrightarrow> linked_inv p \<Longrightarrow> linked_inv p'"
  by (induction evs arbitrary: p) (auto simp: then_do_Ret_iff dest: linked_do_inv simp del: linked_do.simps)

lemma linked_inv_start:
  "client_inv c \<Longrightarrow> linked_inv (program_start (grpc_NewServerSession network address tlsConfig) c)"
  using grpc_server_inv_new [of network address tlsConfig]
  by (simp add: linked_inv_def grpc_prog.program_ok_def program_start_def handlers_new_def grpc_NewServerSession_def)

text \<open>The callback finds its channel open: it runs once, so closing it cannot panic.\<close>

lemma linked_run_no_panic:
  assumes inv: "linked_inv p"
  shows "linked_do env (RunEvent k g) p \<noteq> Panic m"
proof
  assume panic: "linked_do env (RunEvent k g) p = Panic m"
  let ?i = "done_of k (pr_server p)"
  have k: "k < length (pr_tasks p)" using panic by (simp split: if_splits)
  with panic obtain h where h: "pr_tasks p ! k = Running h" by (cases "pr_tasks p ! k") simp_all
  have "task_ok (Running h)" using inv k h nth_mem by (metis linked_inv_def grpc_prog.program_ok_def)
  then have "hstep g h \<noteq> Panic m" using hstep_no_panic reaches_closing by fastforce
  with panic k h obtain h' where step: "hstep g h = Ret h'" by (cases "hstep g h") simp_all
  from inv k h have "callback (h_down h) = Some (chan_of (over h))"
      and "rh_done (gs_handlers (pr_server p) ! ?i) = chan_of (over h)"
    by (force simp: linked_inv_def task_linked_def)+
  moreover have "?i < length (gs_handlers (pr_server p))" "?i \<in> set (gs_taken (pr_server p))"
    using linked_inv_taken(1) [OF inv k] inv k by (simp_all add: linked_inv_def done_of_def)
  ultimately show False using panic k h step by (auto simp: chan_of_def split: if_splits)
qed

subsection \<open>Property\<close>

text \<open>
  C15. With a gRPC listener, the RPC of a stream lives exactly as long as the handleStream that serves
  it: at every moment of the program the RPC handler's done channel is closed if and only if that
  handleStream is over; the handler returns successfully only then, or when the session was closed;
  once it is over nothing keeps the handler from returning; and the callback never panics.
\<close>

theorem grpc_rpc_lives_with_handleStream:
  assumes "newClientSession main_registries env args = Ret c"
    and "linked_run env evs (program_start (grpc_NewServerSession network address tlsConfig) c) = Ret p"
    and "k < length (pr_tasks p)" and "i = gs_taken (pr_server p) ! k"
  shows "(rh_done (gs_handlers (pr_server p) ! i) = ClosedChan \<longleftrightarrow> task_over (pr_tasks p ! k)) \<and>
    (rh_pc (gs_handlers (pr_server p) ! i) = Returned None \<longrightarrow>
      task_over (pr_tasks p ! k) \<or> gs_closedCh (pr_server p) = ClosedChan) \<and>
    (task_over (pr_tasks p ! k) \<longrightarrow> rh_pc (gs_handlers (pr_server p) ! i) = Serving \<longrightarrow>
      (\<exists>s. grpc_server_do env (GFinish i) (pr_server p) = Ret (None, s))) \<and>
    linked_do env (RunEvent k g) p \<noteq> Panic m"
proof -
  have inv: "linked_inv p"
    using linked_run_inv [OF assms(2)] linked_inv_start newClientSession_inv [OF assms(1)] by blast
  from inv assms(3,4) have "task_linked (pr_server p) i (pr_tasks p ! k)" by (simp add: linked_inv_def done_of_def)
  then have closed: "rh_done (gs_handlers (pr_server p) ! i) = ClosedChan \<longleftrightarrow> task_over (pr_tasks p ! k)"
    by (simp add: task_linked_def chan_of_def)
  have i: "i < length (gs_handlers (pr_server p))"
    using linked_inv_taken(1) [OF inv assms(3)] assms(4) by (simp add: done_of_def)
  have "grpc_server_inv (pr_server p)" using inv by (simp add: linked_inv_def grpc_prog.program_ok_def)
  from grpc_server_inv_handler [OF this i] closed
  have "rh_pc (gs_handlers (pr_server p) ! i) = Returned None \<longrightarrow>
      task_over (pr_tasks p ! k) \<or> gs_closedCh (pr_server p) = ClosedChan"
    by (auto simp: handler_ok_def)
  with closed i linked_run_no_panic [OF inv] show ?thesis by (simp add: recv_ready_iff)
qed

text \<open>A run for the witness: one RPC, whose upstream cannot be dialled, so that it is closed at once.\<close>

definition no_dial_env :: env where
  "no_dial_env = run_env\<lparr>env_Dial := \<lambda>_ _. Inl (ErrExt 3)\<rparr>"

lemma grpc_linked_run:
  "\<exists>c p. newClientSession main_registries no_dial_env run_args = Ret c \<and>
    linked_run no_dial_env
      [ServerEvent GAccept, ServerEvent (GCall [] []), ServerEvent (GTake 0), OpenEvent 0 StdLib,
       RunEvent 0 MainG, RunEvent 0 MainG]
      (program_start (grpc_NewServerSession ''tcp'' ''h:1'' None) c) = Ret p \<and>
    length (pr_tasks p) = 1 \<and> gs_taken (pr_server p) = [0] \<and> task_over (pr_tasks p ! 0)"
proof -
  let ?c = "StdClient \<lparr>sc_network = ''tcp'', sc_address = ''h:2'', sc_tlsConfig = None\<rparr>"
  have "newClientSession main_registries no_dial_env run_args = Ret ?c"
    by (simp add: newClientSession_def main_client_creators std_schemes_def run_addresses netDial_def dial_with_def)
  moreover have "\<exists>p. linked_run no_dial_env
      [ServerEvent GAccept, ServerEvent (GCall [] []), ServerEvent (GTake 0), OpenEvent 0 StdLib,
       RunEvent 0 MainG, RunEvent 0 MainG]
      (program_start (grpc_NewServerSession ''tcp'' ''h:1'' None) ?c) = Ret p \<and>
    length (pr_tasks p) = 1 \<and> gs_taken (pr_server p) = [0] \<and> task_over (pr_tasks p ! 0)"
    by (simp add: program_start_def grpc_NewServerSession_def grpc_server_bootstrap_def no_dial_env_def run_env_def
        upd_handler_def std_client_open_def std_OpenStream_def Let_def handler_start_def main_step_def
        newGrpcStream_def lift_def grpc_Close_def grpc_CloseRead_def grpc_CloseWrite_def done_of_def over_def)
  ultimately show ?thesis by blast
qed

theorem grpc_rpc_lives_with_handleStream_witness:
  "\<exists>evs c p. linked_run no_dial_env evs (program_start (grpc_NewServerSession ''tcp'' ''h:1'' None) c) = Ret p \<and>
    rh_done (gs_handlers (pr_server p) ! 0) = ClosedChan"
proof -
  from grpc_linked_run obtain evs c p where r: "newClientSession main_registries no_dial_env run_args = Ret c"
      "linked_run no_dial_env evs (program_start (grpc_NewServerSession ''tcp'' ''h:1'' None) c) = Ret p"
      "length (pr_tasks p) = 1" "gs_taken (pr_server p) = [0]" "task_over (pr_tasks p ! 0)"
    by blast
  then have "0 < length (pr_tasks p)" "0 = gs_taken (pr_server p) ! 0" by simp_all
  from grpc_rpc_lives_with_handleStream [OF r(1,2) this] r(5) have "rh_done (gs_handlers (pr_server p) ! 0) = ClosedChan"
    by blast
  with r(2) show ?thesis by blast
qed

end
