(* ===== verification/Endings.thy ===== *)
theory Endings
  imports GrpcProgram
begin

text \<open>
  How a running program can end. A Go process ends by log.Fatalf or by a panic of any of its
  goroutines. main never calls Close on its sessions, and the done channel of a gRPC stream is closed
  by that stream's Close and by nothing else; with only the events that are left, nothing panics, and
  an error of AcceptStream is what ends the program.
\<close>

subsection \<open>main and everything it starts\<close>

text \<open>The events of the sessions that main causes or waits for: all but the calls of Close and the callback.\<close>

fun main_waits :: "server_event \<Rightarrow> bool" where
  "main_waits (StdEv e) \<longleftrightarrow> e \<noteq> StdClose"
| "main_waits (GrpcEv e) \<longleftrightarrow> e \<noteq> GClose \<and> (\<forall>i. e \<noteq> GDone i)"
| "main_waits (CapnpEv e) \<longleftrightarrow> e \<noteq> CClose"
| "main_waits (MdEv e) \<longleftrightarrow> e \<noteq> MClose"

type_synonym main_program = "(server_session, client_session) program"

text \<open>The callback of task \<open>k\<close>'s stream runs when a step closes the channel the stream carries.\<close>

definition runs_callback :: "nat \<Rightarrow> main_program \<Rightarrow> main_program \<Rightarrow> bool" where
  "runs_callback k p p' \<longleftrightarrow>
     callback (task_down (pr_tasks p ! k)) = Some OpenChan \<and> callback (task_down (pr_tasks p' ! k)) = Some ClosedChan"

definition do_callback :: "env \<Rightarrow> nat \<Rightarrow> main_program \<Rightarrow> main_program outcome" where
  "do_callback env k p =
     (case pr_server p of
        GrpcServer s \<Rightarrow>
          then_do (grpc_server_do env (GDone (done_of k s)) s) (\<lambda>(_, s'). Ret (p\<lparr>pr_server := GrpcServer s'\<rparr>))
      | _ \<Rightarrow> Ret p)"

fun main_do :: "env \<Rightarrow> (server_event, open_lib) prog_event \<Rightarrow> main_program \<Rightarrow> main_program outcome" where
  "main_do env (ServerEvent e) p =
     (if main_waits e then prog_do (session_do env) (session_open env) (ServerEvent e) p else Blocked)"
| "main_do env (OpenEvent k a) p = prog_do (session_do env) (session_open env) (OpenEvent k a) p"
| "main_do env (RunEvent k g) p =
     then_do (prog_do (session_do env) (session_open env) (RunEvent k g) p) (\<lambda>p'.
       if runs_callback k p p' then do_callback env k p' else Ret p')"

fun main_run :: "env \<Rightarrow> (server_event, open_lib) prog_event list \<Rightarrow> main_program \<Rightarrow> main_program outcome" where
  "main_run env [] p = Ret p"
| "main_run env (ev # evs) p = then_do (main_do env ev p) (main_run env evs)"

subsection \<open>With a gRPC listener it is the linked program\<close>

definition of_grpc :: "grpc_program \<Rightarrow> main_program" where
  "of_grpc q = \<lparr>pr_server = GrpcServer (pr_server q), pr_client = pr_client q, pr_tasks = pr_tasks q\<rparr>"

lemma of_grpc_simps [simp]:
  "pr_server (of_grpc q) = GrpcServer (pr_server q)" "pr_client (of_grpc q) = pr_client q"
  "pr_tasks (of_grpc q) = pr_tasks q"
  "(of_grpc q)\<lparr>pr_tasks := ts\<rparr> = of_grpc (q\<lparr>pr_tasks := ts\<rparr>)"
  "(of_grpc q)\<lparr>pr_client := c\<rparr> = of_grpc (q\<lparr>pr_client := c\<rparr>)"
  "(of_grpc q)\<lparr>pr_server := GrpcServer s\<rparr> = of_grpc (q\<lparr>pr_server := s\<rparr>)"
  by (simp_all add: of_grpc_def)

lemma of_grpc_server:
  assumes "pr_server p = GrpcServer s"
  obtains q where "p = of_grpc q" "pr_server q = s"
  by (rule that [of "\<lparr>pr_server = s, pr_client = pr_client p, pr_tasks = pr_tasks p\<rparr>"])
    (use assms in \<open>simp_all add: of_grpc_def\<close>)

definition lift_grpc :: "grpc_program outcome \<Rightarrow> main_program outcome" where
  "lift_grpc r = then_do r (\<lambda>q. Ret (of_grpc q))"

lemma lift_grpc_simps [simp]:
  "lift_grpc (Ret q) = Ret (of_grpc q)" "lift_grpc (Panic m) = Panic m" "lift_grpc (Fatal m) = Fatal m"
  "lift_grpc Blocked = Blocked"
  by (simp_all add: lift_grpc_def)

lemma main_do_grpc_run: "main_do env (RunEvent k g) (of_grpc q) = lift_grpc (linked_do env (RunEvent k g) q)"
proof (cases "k < length (pr_tasks q)")
  case True
  show ?thesis
  proof (cases "pr_tasks q ! k")
    case (Running h)
    show ?thesis
    proof (cases "hstep g h")
      case (Ret h')
      show ?thesis
      proof (cases "grpc_server_do env (GDone (done_of k (pr_server q))) (pr_server q)")
        case (Ret x)
        then show ?thesis using True Running \<open>hstep g h = Ret h'\<close>
          by (cases x) (simp add: runs_callback_def do_callback_def)
      qed (use True Running Ret in \<open>simp_all add: runs_callback_def do_callback_def\<close>)
    qed (use True Running in simp_all)
  qed (use True in simp)
qed simp

lemma main_do_grpc_open: "main_do env (OpenEvent k a) (of_grpc q) = lift_grpc (linked_do env (OpenEvent k a) q)"
proof (cases "k < length (pr_tasks q)")
  case True
  show ?thesis
  proof (cases "pr_tasks q ! k")
    case (Starting down)
    with True show ?thesis by (cases "session_open env a (pr_client q)") auto
  qed (use True in simp)
qed simp

lemma main_do_grpc_server:
  assumes "main_waits (GrpcEv e)"
  shows "main_do env (ServerEvent (GrpcEv e)) (of_grpc q) = lift_grpc (linked_do env (ServerEvent e) q)"
proof -
  have l: "linked_do env (ServerEvent e) q = prog_do (grpc_server_do env) (session_open env) (ServerEvent e) q"
    using assms by (cases e) auto
  show ?thesis
  proof (cases "grpc_server_do env e (pr_server q)")
    case (Ret x)
    obtain r s where "x = (r, s)" by (cases x)
    with Ret assms show ?thesis unfolding l by (cases r rule: option.exhaust; cases "the r") auto
  qed (use assms in \<open>simp_all add: l\<close>)
qed

subsection \<open>No event panics\<close>

text \<open>
  Without Close, the goroutine of Serve is the only one to close closedCh: it has not closed it while it
  runs, and no second one is started once there has been one.
\<close>

definition serve_ok :: "grpc_server \<Rightarrow> bool" where
  "serve_ok s \<longleftrightarrow>
     (0 < gs_serving s \<longrightarrow> gs_closedCh s = OpenChan \<and> gs_serving s = 1 \<and> gs_rpcServer s \<noteq> None) \<and>
     (gs_rpcServer s = None \<longrightarrow> gs_closedCh s = OpenChan)"

lemma serve_ok_step:
  assumes "grpc_server_do env e s = Ret (r, s')" and "e \<noteq> GClose" and "serve_ok s"
  shows "serve_ok s'"
  using assms
  by (cases e) (auto simp: serve_ok_def go_simps grpc_server_bootstrap_def split: if_splits sum.splits)

lemma grpc_server_no_panic:
  assumes "main_waits (GrpcEv e)" and "serve_ok s"
  shows "grpc_server_do env e s \<noteq> Panic m"
  using assms
  by (cases e) (auto simp: serve_ok_def then_do_panic_iff split: sum.splits prod.splits option.splits)

lemma prog_do_server:
  assumes "prog_do sdo copen (ServerEvent e) p = Ret p'"
  obtains r where "sdo e (pr_server p) = Ret (r, pr_server p')"
proof -
  from assms obtain r s where rs: "sdo e (pr_server p) = Ret (r, s)" by (fastforce simp: go_simps)
  with assms have "pr_server p' = s" by (cases r rule: option.exhaust; cases "the r") auto
  with rs that show thesis by blast
qed

lemma linked_do_serve_ok:
  assumes "linked_do env ev q = Ret q'" and "ev \<noteq> ServerEvent GClose" and "serve_ok (pr_server q)"
  shows "serve_ok (pr_server q')"
proof (cases ev)
  case (ServerEvent e)
  with assms(1) have "prog_do (grpc_server_do env) (session_open env) (ServerEvent e) q = Ret q'"
    by (cases e) auto
  then obtain r where "grpc_server_do env e (pr_server q) = Ret (r, pr_server q')" by (rule prog_do_server)
  from serve_ok_step [OF this] assms(2,3) ServerEvent show ?thesis by simp
next
  case (OpenEvent k a)
  with assms show ?thesis by (auto simp: go_simps split: if_splits task.splits)
next
  case (RunEvent k g)
  with assms(1) obtain p1 where p1: "prog_do (grpc_server_do env) (session_open env) (RunEvent k g) q = Ret p1"
      and q': "q' = p1 \<or> (\<exists>r s. grpc_server_do env (GDone (done_of k (pr_server p1))) (pr_server p1) = Ret (r, s) \<and>
        q' = p1\<lparr>pr_server := s\<rparr>)"
    by (auto simp: go_simps simp del: grpc_server_do.simps split: if_splits)
  from p1 have "pr_server p1 = pr_server q" by (auto simp: go_simps split: if_splits task.splits)
  with q' assms(3) serve_ok_step show ?thesis by fastforce
qed

lemma listener_no_panic: "listener_Accept l \<noteq> Panic m"
  by (auto simp: listener_Accept_def split: list.splits)

lemma session_do_no_panic:
  assumes "main_waits e" and "\<forall>s. server \<noteq> GrpcServer s"
  shows "session_do env e server \<noteq> Panic m"
proof (cases "(env, e, server)" rule: session_do.cases)
  case (1 env e s)
  with assms(1) show ?thesis
    by (cases e) (auto simp: then_do_panic_iff std_AcceptStream_def listener_no_panic split: sum.splits prod.splits)
next
  case (2 env e s)
  with assms(2) show ?thesis by simp
next
  case (3 env e s)
  with assms(1) show ?thesis
    by (cases e) (auto simp: then_do_panic_iff listener_no_panic Let_def
        split: accept_pc.splits sum.splits prod.splits)
next
  case (4 env e s)
  then show ?thesis by (cases e) (auto simp: then_do_panic_iff split: option.splits)
qed simp_all

lemma session_open_no_panic: "session_open env a c \<noteq> Panic m"
  by (cases "(env, a, c)" rule: session_open.cases)
    (auto simp: then_do_panic_iff std_client_open_def std_OpenStream_def grpc_client_open_def grpc_OpenStream_def
      capnp_client_open_def capnp_OpenStream_def md_client_open_def md_OpenStream_def Let_def
      split: sum.splits prod.splits option.splits)

lemma task_step_no_panic:
  assumes "task_ok (Running h)"
  shows "hstep g h \<noteq> Panic m"
  using assms hstep_no_panic reaches_closing by fastforce

subsection \<open>The invariant\<close>

definition main_inv :: "main_program \<Rightarrow> bool" where
  "main_inv p \<longleftrightarrow>
     prog.program_ok p \<and> (\<forall>q. p = of_grpc q \<longrightarrow> linked_inv q \<and> serve_ok (pr_server q))"

lemma of_grpc_ok: "prog.program_ok (of_grpc q) \<longleftrightarrow> grpc_prog.program_ok q"
  by (simp add: prog.program_ok_def grpc_prog.program_ok_def)

lemma of_grpc_inj [simp]: "of_grpc q = of_grpc q' \<longleftrightarrow> q = q'"
  by (cases q; cases q') (simp add: of_grpc_def)

text \<open>With a gRPC listener every event is one of the linked program; with another, one of the program.\<close>

lemma main_do_grpc:
  assumes "main_do env ev (of_grpc q) = Ret p'"
  obtains ev' q' where "linked_do env ev' q = Ret q'" "p' = of_grpc q'" "ev' \<noteq> ServerEvent GClose"
proof -
  have lift: "\<exists>q'. r = Ret q' \<and> p' = of_grpc q'" if "lift_grpc r = Ret p'" for r
    using that by (auto simp: lift_grpc_def then_do_Ret_iff)
  show thesis
  proof (cases ev)
    case (ServerEvent e)
    with assms obtain ge where e: "e = GrpcEv ge" and w: "main_waits (GrpcEv ge)"
      by (cases e) (auto split: if_splits)
    from lift [of "linked_do env (ServerEvent ge) q"] assms ServerEvent e main_do_grpc_server [OF w]
    obtain q' where "linked_do env (ServerEvent ge) q = Ret q'" "p' = of_grpc q'" by metis
    moreover have "ServerEvent ge \<noteq> ServerEvent GClose" using w by simp
    ultimately show thesis by (rule that)
  next
    case (OpenEvent k a)
    from lift [of "linked_do env (OpenEvent k a) q"] assms OpenEvent main_do_grpc_open
    obtain q' where "linked_do env (OpenEvent k a) q = Ret q'" "p' = of_grpc q'" by metis
    then show thesis by (rule that) simp
  next
    case (RunEvent k g)
    from lift [of "linked_do env (RunEvent k g) q"] assms RunEvent main_do_grpc_run
    obtain q' where "linked_do env (RunEvent k g) q = Ret q'" "p' = of_grpc q'" by metis
    then show thesis by (rule that) simp
  qed
qed

lemma main_do_other:
  assumes "main_do env ev p = Ret p'" and "\<forall>s. pr_server p \<noteq> GrpcServer s"
  shows "prog_do (session_do env) (session_open env) ev p = Ret p' \<and> (\<forall>s. pr_server p' \<noteq> GrpcServer s)"
proof -
  have callback: "do_callback env k p1 = Ret p1" if "\<forall>s. pr_server p1 \<noteq> GrpcServer s" for k p1
    using that by (simp add: do_callback_def split: server_session.split)
  have keeps: "\<forall>s. pr_server p1 \<noteq> GrpcServer s" if "prog_do (session_do env) (session_open env) ev p = Ret p1" for ev p1
  proof (cases ev)
    case (ServerEvent e)
    with that obtain r where "session_do env e (pr_server p) = Ret (r, pr_server p1)" by (metis prog_do_server)
    with assms(2) show ?thesis by (cases "(env, e, pr_server p)" rule: session_do.cases) (auto simp: go_simps)
  qed (use that assms(2) in \<open>auto simp: go_simps split: if_splits task.splits\<close>)
  show ?thesis
  proof (cases ev)
    case (RunEvent k g)
    with assms(1) obtain p1 where "prog_do (session_do env) (session_open env) (RunEvent k g) p = Ret p1"
        "(if runs_callback k p p1 then do_callback env k p1 else Ret p1) = Ret p'"
      by (auto simp: then_do_Ret_iff simp del: prog_do.simps)
    with keeps callback RunEvent show ?thesis by (metis outcome.inject(1))
  qed (use assms(1) keeps in \<open>auto split: if_splits simp del: prog_do.simps\<close>)
qed

lemma main_inv_other: "\<forall>s. pr_server p \<noteq> GrpcServer s \<Longrightarrow> main_inv p \<longleftrightarrow> prog.program_ok p"
  by (auto simp: main_inv_def)

lemma main_inv_grpc: "main_inv (of_grpc q) \<longleftrightarrow> linked_inv q \<and> serve_ok (pr_server q)"
  by (auto simp: main_inv_def of_grpc_ok linked_inv_def)

lemma main_do_inv:
  assumes "main_do env ev p = Ret p'" and "main_inv p"
  shows "main_inv p'"
proof (cases "\<exists>s. pr_server p = GrpcServer s")
  case True
  then obtain q where q: "p = of_grpc q" using of_grpc_server by blast
  from main_do_grpc [OF assms(1) [unfolded q]] obtain ev' q' where
      "linked_do env ev' q = Ret q'" "p' = of_grpc q'" "ev' \<noteq> ServerEvent GClose" by blast
  with linked_do_inv linked_do_serve_ok assms(2) q show ?thesis by (simp add: main_inv_grpc)
next
  case False
  with main_do_other [OF assms(1)] assms(2) have other: "\<forall>s. pr_server p' \<noteq> GrpcServer s" "prog.program_ok p"
      "prog_do (session_do env) (session_open env) ev p = Ret p'"
    by (auto simp: main_inv_other)
  with prog.prog_do_ok [OF other(2,3)] show ?thesis by (simp add: main_inv_other)
qed

lemma main_run_inv: "main_run env evs p = Ret p' \<Longrightarrow> main_inv p \<Longrightarrow> main_inv p'"
  by (induction evs arbitrary: p) (auto simp: then_do_Ret_iff dest: main_do_inv simp del: main_do.simps)

lemma newServerSession_grpc:
  assumes "newServerSession main_registries env args = Ret (GrpcServer g)"
  obtains network address tls where "g = grpc_NewServerSession network address tls"
proof -
  from assms obtain network tls addr creator where
      cr: "serverSessionCreators main_registries network = Some (Some creator)"
        "creator env args = Ret (Inr (GrpcServer g))"
    by (rule newServerSession_Ret)
  with that show thesis
    by (auto simp: main_server_creators netListen_def mdcapnpListen_def grpcListen_def capnpListen_def go_simps
        split: if_splits)
qed

lemma main_inv_start:
  assumes "main_start env args = Ret p0"
  shows "main_inv p0"
proof -
  from assms obtain s c where s: "newServerSession main_registries env args = Ret s"
      and c: "newClientSession main_registries env args = Ret c" and p0: "p0 = program_start s c"
    by (auto simp: main_start_def go_simps)
  show ?thesis
  proof (cases "\<exists>g. s = GrpcServer g")
    case True
    then obtain g where g: "s = GrpcServer g" by blast
    with s obtain network address tls where new: "g = grpc_NewServerSession network address tls"
      using newServerSession_grpc by blast
    have "p0 = of_grpc (program_start g c)" using p0 g by (simp add: of_grpc_def program_start_def)
    moreover have "linked_inv (program_start g c)" unfolding new by (rule linked_inv_start [OF newClientSession_inv [OF c]])
    moreover have "serve_ok g" by (simp add: new serve_ok_def grpc_NewServerSession_def)
    ultimately show ?thesis by (simp add: main_inv_grpc program_start_def)
  next
    case False
    then have "\<forall>g. pr_server p0 \<noteq> GrpcServer g" using p0 by (simp add: program_start_def)
    moreover have "prog.program_ok p0"
      using main_start_cases [OF assms] prog.program_ok_start by metis
    ultimately show ?thesis by (simp add: main_inv_other)
  qed
qed

lemma main_do_no_panic:
  assumes inv: "main_inv p"
  shows "main_do env ev p \<noteq> Panic m"
proof (cases ev)
  case (ServerEvent e)
  have "session_do env e (pr_server p) \<noteq> Panic m" if w: "main_waits e"
  proof (cases "\<exists>s. pr_server p = GrpcServer s")
    case True
    then obtain q where q: "p = of_grpc q" using of_grpc_server by blast
    with inv have "serve_ok (pr_server q)" by (simp add: main_inv_grpc)
    with q w grpc_server_no_panic show ?thesis by (cases e) (auto simp: then_do_panic_iff)
  qed (use session_do_no_panic [OF w] in blast)
  with ServerEvent show ?thesis by (auto simp: then_do_panic_iff split: option.splits sum.splits prod.splits)
next
  case (OpenEvent k a)
  with session_open_no_panic show ?thesis
    by (auto simp: then_do_panic_iff split: if_splits task.splits prod.splits)
next
  case (RunEvent k g)
  show ?thesis
  proof (cases "\<exists>s. pr_server p = GrpcServer s")
    case True
    then obtain q where q: "p = of_grpc q" using of_grpc_server by blast
    with inv have "linked_do env (RunEvent k g) q \<noteq> Panic m" by (simp add: main_inv_grpc linked_run_no_panic del: linked_do.simps)
    with RunEvent q main_do_grpc_run [of env k g q] show ?thesis
      by (cases "linked_do env (RunEvent k g) q") (simp_all del: main_do.simps linked_do.simps)
  next
    case False
    have "prog_do (session_do env) (session_open env) (RunEvent k g) p \<noteq> Panic m"
    proof
      assume "prog_do (session_do env) (session_open env) (RunEvent k g) p = Panic m"
      then obtain h where h: "k < length (pr_tasks p)" "pr_tasks p ! k = Running h" "hstep g h = Panic m"
        by (auto simp: then_do_panic_iff split: if_splits task.splits)
      then have "task_ok (Running h)" using inv nth_mem by (metis main_inv_def prog.program_ok_def)
      with h(3) task_step_no_panic show False by blast
    qed
    moreover have "do_callback env k p' \<noteq> Panic m" if "prog_do (session_do env) (session_open env) (RunEvent k g) p = Ret p'" for p'
    proof -
      from that have "pr_server p' = pr_server p" by (auto simp: go_simps split: if_splits task.splits)
      with False show ?thesis by (simp add: do_callback_def split: server_session.split)
    qed
    ultimately show ?thesis
      using RunEvent by (auto simp: then_do_panic_iff simp del: prog_do.simps split: if_splits)
  qed
qed

lemma main_do_Fatal_iff:
  "main_do env ev p = Fatal m \<longleftrightarrow>
     m = ''Failed to accept downstream'' \<and>
     (\<exists>e err s. ev = ServerEvent e \<and> main_waits e \<and> session_do env e (pr_server p) = Ret (Some (Inl err), s))"
proof (cases ev)
  case (RunEvent k g)
  have "do_callback env k p' \<noteq> Fatal m" for p'
    using session_do_no_Fatal [of env "GrpcEv (GDone i)" "GrpcServer s" for i s]
    by (auto simp: do_callback_def then_do_Fatal_iff simp del: grpc_server_do.simps split: server_session.split)
  with RunEvent prog_do_Fatal_iff show ?thesis by (auto simp: then_do_Fatal_iff simp del: prog_do.simps split: if_splits)
qed (use prog_do_Fatal_iff in \<open>auto simp del: prog_do.simps split: if_splits\<close>)

subsection \<open>Property\<close>

text \<open>
  C34. A running program, whatever sessions it was started with and whatever its peers, sessions and
  goroutines do, never panics, and it is ended by an error of AcceptStream and by nothing else: what
  happens to a stream, an upstream that cannot be opened included, ends at most its own goroutine.
\<close>

theorem main_ends_iff_accept_fails:
  assumes "main_start env args = Ret p0" and "main_run env evs p0 = Ret p"
  shows "main_do env ev p \<noteq> Panic m \<and>
    (main_do env ev p = Fatal m \<longleftrightarrow>
       m = ''Failed to accept downstream'' \<and>
       (\<exists>e err s. ev = ServerEvent e \<and> main_waits e \<and> session_do env e (pr_server p) = Ret (Some (Inl err), s)))"
  using main_do_no_panic [OF main_run_inv [OF assms(2) main_inv_start [OF assms(1)]]] main_do_Fatal_iff by blast

text \<open>The witness: a connection is accepted, then the listener fails.\<close>

definition failing_env :: env where
  "failing_env = sample_env\<lparr>env_Listen := \<lambda>_ _. Inr \<lparr>l_accepts = [Inr (new_conn TCPConn [] []), Inl ErrNetClosed],
     l_close_res = None, l_closes = 0\<rparr>\<rparr>"

lemma failing_start:
  "main_start failing_env run_args =
     Ret (program_start
       (StdServer \<lparr>ss_listener = \<lparr>l_accepts = [Inr (new_conn TCPConn [] []), Inl ErrNetClosed], l_close_res = None,
          l_closes = 0\<rparr>\<rparr>)
       (StdClient \<lparr>sc_network = ''tcp'', sc_address = ''h:2'', sc_tlsConfig = None\<rparr>))"
  by (simp add: main_start_def newServerSession_def newClientSession_def main_server_creators
      main_client_creators std_schemes_def run_addresses netListen_def netDial_def dial_with_def
      listen_with_def failing_env_def)

lemma failing_dial: "env_Dial failing_env network address = Inr (new_conn TCPConn [] [])"
  by (simp add: failing_env_def sample_env_def Let_def)

lemma failing_run:
  "\<exists>p0 p. main_start failing_env run_args = Ret p0 \<and>
     main_run failing_env [ServerEvent (StdEv StdAccept), OpenEvent 0 StdLib] p0 = Ret p \<and>
     (\<exists>s. session_do failing_env (StdEv StdAccept) (pr_server p) = Ret (Some (Inl ErrNetClosed), s))"
  by (simp add: failing_start failing_dial program_start_def std_AcceptStream_def listener_Accept_def
      std_client_open_def std_OpenStream_def Let_def)

theorem main_ends_iff_accept_fails_witness:
  "\<exists>evs p0 p. main_start failing_env run_args = Ret p0 \<and> main_run failing_env evs p0 = Ret p \<and>
     main_do failing_env (ServerEvent (StdEv StdAccept)) p = Fatal ''Failed to accept downstream'' \<and>
     main_do failing_env (RunEvent 0 MainG) p \<noteq> Panic ''close of closed channel''"
proof -
  obtain p0 p s where r: "main_start failing_env run_args = Ret p0"
      "main_run failing_env [ServerEvent (StdEv StdAccept), OpenEvent 0 StdLib] p0 = Ret p"
      "session_do failing_env (StdEv StdAccept) (pr_server p) = Ret (Some (Inl ErrNetClosed), s)"
    using failing_run by blast
  let ?ev = "ServerEvent (StdEv StdAccept)" and ?m = "''Failed to accept downstream''"
  have "main_waits (StdEv StdAccept)" by simp
  with r(3) have "\<exists>e err s. ?ev = ServerEvent e \<and> main_waits e \<and>
      session_do failing_env e (pr_server p) = Ret (Some (Inl err), s)"
    by blast
  with main_ends_iff_accept_fails [OF r(1,2), where ev = ?ev and m = ?m]
  have "main_do failing_env ?ev p = Fatal ?m" by simp
  moreover have "main_do failing_env (RunEvent 0 MainG) p \<noteq> Panic ''close of closed channel''"
    using main_ends_iff_accept_fails [OF r(1,2), where ev = "RunEvent 0 MainG"] by blast
  ultimately show ?thesis using r(1,2) by blast
qed

end
