(* ===== verification/CapnpLib.thy ===== *)
theory CapnpLib
  imports GoPrelude
begin

text \<open>
  What capnpnet/proxy.capnp.go uses of the Cap'n Proto library, which is not under src/. The
  descriptors that the generated code builds and hands over (ObjectSize, Method, Send, Schema) are
  records; the library's own types are type variables and its functions the fields of two records,
  capnp_msg (messages and the objects in them) and capnp_rpc (clients and servers), so nothing is
  assumed of them here. The state \<open>'w\<close> is everything the library keeps: the messages, their
  capability tables, the calls under way.
\<close>

subsection \<open>Descriptors\<close>

record ObjectSize =
  DataSize :: "32 word"
  PointerCount :: "16 word"

record Method =
  InterfaceID :: "64 word"
  MethodID :: "16 word"
  InterfaceName :: string
  MethodName :: string

text \<open>
  A call to send. \<open>PlaceArgs\<close> is a Go function value, nil as None; it writes the arguments into the
  struct that the library has allocated for them, of the size \<open>ArgsSize\<close>.
\<close>

record ('w, 'st) Send =
  SendMethod :: Method
  ArgsSize :: ObjectSize
  PlaceArgs :: "('st \<Rightarrow> ('w, err option) action) option"

definition zero_size :: ObjectSize where
  "zero_size = \<lparr>DataSize = 0, PointerCount = 0\<rparr>"

text \<open>An entry of a server's table: \<open>'r\<close> is the effect of running an implementation's method.\<close>

record ('ctx, 'call, 'r) server_method =
  sm_Method :: Method
  sm_Impl :: "'ctx \<Rightarrow> 'call \<Rightarrow> 'r"

record Schema =
  SchemaString :: bytes
  SchemaNodes :: "64 word list"
  SchemaCompressed :: bool

subsection \<open>Messages\<close>

text \<open>
  Conversions that look at the value alone are functions; what reads or writes a message is an
  action. \<open>Ptr_zero\<close> is capnp.Ptr\{\}, \<open>Struct_zero\<close> capnp.Struct\{\}; \<open>CapTable_Add\<close> adds to the table
  of the message it is given, \<open>Field\<close> has the default bytes as its last argument.
\<close>

record ('w, 'm, 'sg, 'st, 'p, 'i, 'c, 'l, 'f) capnp_msg =
  Ptr_zero :: 'p
  Struct_zero :: 'st
  NewStruct :: "'sg \<Rightarrow> ObjectSize \<Rightarrow> ('w, 'st \<times> err option) action"
  NewRootStruct :: "'sg \<Rightarrow> ObjectSize \<Rightarrow> ('w, 'st \<times> err option) action"
  NewPointerList :: "'sg \<Rightarrow> 32 word \<Rightarrow> ('w, 'l \<times> err option) action"
  NewCompositeList :: "'sg \<Rightarrow> ObjectSize \<Rightarrow> 32 word \<Rightarrow> ('w, 'l \<times> err option) action"
  Message_Root :: "'m \<Rightarrow> ('w, 'p \<times> err option) action"
  Marshal :: "64 word \<Rightarrow> 'st \<Rightarrow> ('w, string \<times> err option) action"
  Struct_Ptr :: "'st \<Rightarrow> 16 word \<Rightarrow> ('w, 'p \<times> err option) action"
  Struct_HasPtr :: "'st \<Rightarrow> 16 word \<Rightarrow> ('w, bool) action"
  Struct_SetPtr :: "'st \<Rightarrow> 16 word \<Rightarrow> 'p \<Rightarrow> ('w, err option) action"
  Struct_SetData :: "'st \<Rightarrow> 16 word \<Rightarrow> bytes \<Rightarrow> ('w, err option) action"
  Struct_EncodeAsPtr :: "'st \<Rightarrow> 'sg \<Rightarrow> 'p"
  Struct_DecodeFromPtr :: "'st \<Rightarrow> 'p \<Rightarrow> 'st"
  Struct_ToPtr :: "'st \<Rightarrow> 'p"
  Struct_IsValid :: "'st \<Rightarrow> bool"
  Struct_Message :: "'st \<Rightarrow> 'm"
  Struct_Segment :: "'st \<Rightarrow> 'sg"
  Segment_Message :: "'sg \<Rightarrow> 'm"
  CapTable_Add :: "'m \<Rightarrow> 'c \<Rightarrow> ('w, 32 word) action"
  NewInterface :: "'sg \<Rightarrow> 32 word \<Rightarrow> 'i"
  Interface_ToPtr :: "'i \<Rightarrow> 'p"
  Interface_Client :: "'i \<Rightarrow> ('w, 'c) action"
  Ptr_Struct :: "'p \<Rightarrow> 'st"
  Ptr_Interface :: "'p \<Rightarrow> 'i"
  Ptr_Data :: "'p \<Rightarrow> ('w, bytes) action"
  Future_Ptr :: "'f \<Rightarrow> ('w, 'p \<times> err option) action"
  Future_Field :: "'f \<Rightarrow> 16 word \<Rightarrow> bytes option \<Rightarrow> 'f"
  Future_Client :: "'f \<Rightarrow> 'c"
  Client_zero :: 'c
  Client_String :: "'c \<Rightarrow> ('w, string) action"
  Client_AddRef :: "'c \<Rightarrow> ('w, 'c) action"
  Client_Release :: "'c \<Rightarrow> ('w, unit) action"
  Client_EncodeAsPtr :: "'c \<Rightarrow> 'sg \<Rightarrow> ('w, 'p) action"
  Client_DecodeFromPtr :: "'c \<Rightarrow> 'p \<Rightarrow> ('w, 'c) action"
  Client_IsValid :: "'c \<Rightarrow> ('w, bool) action"
  Client_IsSame :: "'c \<Rightarrow> 'c \<Rightarrow> ('w, bool) action"
  Client_WaitStreaming :: "'c \<Rightarrow> ('w, err option) action"

subsection \<open>Clients and servers\<close>

text \<open>
  \<open>'b\<close> is the brand of a server (the implementation itself), \<open>'sd\<close> its Shutdown method,
  \<open>'a\<close> an answer, \<open>'rel\<close> a release function, \<open>'lim\<close> a flow limiter, \<open>'g\<close> a schema registry.
\<close>

record ('w, 'm, 'sg, 'st, 'p, 'i, 'c, 'l, 'f, 'ctx, 'call, 'r, 'b, 'sd, 'srv, 'a, 'rel, 'lim, 'g) capnp_rpc =
    "('w, 'm, 'sg, 'st, 'p, 'i, 'c, 'l, 'f) capnp_msg" +
  Client_SendCall :: "'c \<Rightarrow> 'ctx \<Rightarrow> ('w, 'st) Send \<Rightarrow> ('w, 'a \<times> 'rel) action"
  Client_SendStreamCall :: "'c \<Rightarrow> 'ctx \<Rightarrow> ('w, 'st) Send \<Rightarrow> ('w, err option) action"
  Answer_Future :: "'a \<Rightarrow> 'f"
  Client_Resolve :: "'c \<Rightarrow> 'ctx \<Rightarrow> ('w, err option) action"
  Client_SetFlowLimiter :: "'c \<Rightarrow> 'lim \<Rightarrow> ('w, unit) action"
  Client_GetFlowLimiter :: "'c \<Rightarrow> ('w, 'lim) action"
  server_New :: "('ctx, 'call, 'r) server_method list \<Rightarrow> 'b \<Rightarrow> 'sd option \<Rightarrow> ('w, 'srv) action"
  NewClient :: "'srv \<Rightarrow> ('w, 'c) action"
  Call_Args :: "'call \<Rightarrow> 'st"
  Call_AllocResults :: "'call \<Rightarrow> ObjectSize \<Rightarrow> ('w, 'st \<times> err option) action"
  Registry_Register :: "'g \<Rightarrow> Schema \<Rightarrow> ('w, unit) action"

subsection \<open>Conversions around a call of the library\<close>

text \<open>
  The generated types are the library's under new names: a datatype with one constructor each. A
  method calls the library's and converts the result, with its error next to it or alone.
\<close>

definition conv :: "('a \<Rightarrow> 'b) \<Rightarrow> ('w, 'a) action \<Rightarrow> ('w, 'b) action" where
  "conv C a w = then_do (a w) (\<lambda>(x, w'). Ret (C x, w'))"

definition conv_err :: "('a \<Rightarrow> 'b) \<Rightarrow> ('w, 'a \<times> err option) action \<Rightarrow> ('w, 'b \<times> err option) action" where
  "conv_err C = conv (\<lambda>(x, e). (C x, e))"

lemma conv_Ret [simp]: "a w = Ret (x, w') \<Longrightarrow> conv C a w = Ret (C x, w')"
  by (simp add: conv_def)

lemma conv_err_Ret [simp]: "a w = Ret ((x, e), w') \<Longrightarrow> conv_err C a w = Ret ((C x, e), w')"
  by (simp add: conv_err_def)

lemma conv_Ret_iff [go_simps]: "conv C a w = Ret (y, w') \<longleftrightarrow> (\<exists>x. a w = Ret (x, w') \<and> y = C x)"
  by (auto simp: conv_def then_do_Ret_iff)

lemma conv_err_Ret_iff [go_simps]:
  "conv_err C a w = Ret ((y, e), w') \<longleftrightarrow> (\<exists>x. a w = Ret ((x, e), w') \<and> y = C x)"
  by (auto simp: conv_err_def go_simps)

lemma conv_Panic_iff [simp]: "conv C a w = Panic m \<longleftrightarrow> a w = Panic m"
  by (cases "a w") (auto simp: conv_def)

end
