(* ===== verification/CapnpSchema.thy ===== *)
theory CapnpSchema
  imports CapnpLib
begin

text \<open>
  capnpnet/proxy.capnp.go, the code that the schema proxy.capnp gives: for each of its two interfaces
  a client type with one method per call, the interface a server implements, the table of methods and
  the types of the calls; for each of its four structs the constructors, accessors, list and future.
  The first argument \<open>L\<close> of a definition is the library. A type T of the library under a new name is
  a datatype with the conversion \<open>of_T\<close> back. Lists are lists of the library whose element type the
  datatypes CapList and StructList do not repeat.
\<close>

datatype 'l CapList = CapList 'l
datatype 'l StructList = StructList 'l

subsection \<open>Proxy\<close>

datatype 'c Proxy = Proxy (of_Proxy: 'c)

datatype 'c Proxy_ByteStream = Proxy_ByteStream (of_Proxy_ByteStream: 'c)

definition Proxy_TypeID :: "64 word" where "Proxy_TypeID = 0x9f9ee0cb62fc453f"
definition Proxy_ByteStream_TypeID :: "64 word" where "Proxy_ByteStream_TypeID = 0xf7006550409b1b37"

text \<open>The methods that pass to the library's client.\<close>

definition Proxy_WaitStreaming where "Proxy_WaitStreaming L c = Client_WaitStreaming L (of_Proxy c)"
definition Proxy_String where
  "Proxy_String L c = conv (\<lambda>str. ''Proxy('' @ str @ '')'') (Client_String L (of_Proxy c))"
definition Proxy_AddRef where "Proxy_AddRef L c = conv Proxy (Client_AddRef L (of_Proxy c))"
definition Proxy_Release where "Proxy_Release L c = Client_Release L (of_Proxy c)"
definition Proxy_Resolve where "Proxy_Resolve L c ctx = Client_Resolve L (of_Proxy c) ctx"
definition Proxy_EncodeAsPtr where "Proxy_EncodeAsPtr L c seg = Client_EncodeAsPtr L (of_Proxy c) seg"
definition Proxy_DecodeFromPtr where
  "Proxy_DecodeFromPtr L p = conv Proxy (Client_DecodeFromPtr L (Client_zero L) p)"
definition Proxy_IsValid where "Proxy_IsValid L c = Client_IsValid L (of_Proxy c)"
definition Proxy_IsSame where "Proxy_IsSame L c other = Client_IsSame L (of_Proxy c) (of_Proxy other)"
definition Proxy_SetFlowLimiter where
  "Proxy_SetFlowLimiter L c lim = Client_SetFlowLimiter L (of_Proxy c) lim"
definition Proxy_GetFlowLimiter where "Proxy_GetFlowLimiter L c = Client_GetFlowLimiter L (of_Proxy c)"

subsection \<open>Proxy.ByteStream\<close>

text \<open>The methods that pass to the library's client.\<close>

definition Proxy_ByteStream_WaitStreaming where
  "Proxy_ByteStream_WaitStreaming L c = Client_WaitStreaming L (of_Proxy_ByteStream c)"
definition Proxy_ByteStream_String where
  "Proxy_ByteStream_String L c =
     conv (\<lambda>str. ''Proxy_ByteStream('' @ str @ '')'') (Client_String L (of_Proxy_ByteStream c))"
definition Proxy_ByteStream_AddRef where
  "Proxy_ByteStream_AddRef L c = conv Proxy_ByteStream (Client_AddRef L (of_Proxy_ByteStream c))"
definition Proxy_ByteStream_Release where
  "Proxy_ByteStream_Release L c = Client_Release L (of_Proxy_ByteStream c)"
definition Proxy_ByteStream_Resolve where
  "Proxy_ByteStream_Resolve L c ctx = Client_Resolve L (of_Proxy_ByteStream c) ctx"
definition Proxy_ByteStream_EncodeAsPtr where
  "Proxy_ByteStream_EncodeAsPtr L c seg = Client_EncodeAsPtr L (of_Proxy_ByteStream c) seg"
definition Proxy_ByteStream_DecodeFromPtr where
  "Proxy_ByteStream_DecodeFromPtr L p =
     conv Proxy_ByteStream (Client_DecodeFromPtr L (Client_zero L) p)"
definition Proxy_ByteStream_IsValid where
  "Proxy_ByteStream_IsValid L c = Client_IsValid L (of_Proxy_ByteStream c)"
definition Proxy_ByteStream_IsSame where
  "Proxy_ByteStream_IsSame L c other =
     Client_IsSame L (of_Proxy_ByteStream c) (of_Proxy_ByteStream other)"
definition Proxy_ByteStream_SetFlowLimiter where
  "Proxy_ByteStream_SetFlowLimiter L c lim = Client_SetFlowLimiter L (of_Proxy_ByteStream c) lim"
definition Proxy_ByteStream_GetFlowLimiter where
  "Proxy_ByteStream_GetFlowLimiter L c = Client_GetFlowLimiter L (of_Proxy_ByteStream c)"

subsection \<open>Proxy ByteStream write Params\<close>

datatype 'st Proxy_ByteStream_write_Params = Proxy_ByteStream_write_Params (of_Proxy_ByteStream_write_Params: 'st)

definition Proxy_ByteStream_write_Params_TypeID :: "64 word" where
  "Proxy_ByteStream_write_Params_TypeID = 0xaaaa9b68ef4f4590"

definition NewProxy_ByteStream_write_Params where
  "NewProxy_ByteStream_write_Params L s =
     conv_err Proxy_ByteStream_write_Params (NewStruct L s \<lparr>DataSize = 0, PointerCount = 1\<rparr>)"

definition NewRootProxy_ByteStream_write_Params where
  "NewRootProxy_ByteStream_write_Params L s =
     conv_err Proxy_ByteStream_write_Params (NewRootStruct L s \<lparr>DataSize = 0, PointerCount = 1\<rparr>)"

definition ReadRootProxy_ByteStream_write_Params where
  "ReadRootProxy_ByteStream_write_Params L msg =
     conv_err (\<lambda>root. Proxy_ByteStream_write_Params (Ptr_Struct L root)) (Message_Root L msg)"

definition Proxy_ByteStream_write_Params_String where
  "Proxy_ByteStream_write_Params_String L s =
     conv fst (Marshal L 0xaaaa9b68ef4f4590 (of_Proxy_ByteStream_write_Params s))"
definition Proxy_ByteStream_write_Params_EncodeAsPtr where
  "Proxy_ByteStream_write_Params_EncodeAsPtr L s seg =
     Struct_EncodeAsPtr L (of_Proxy_ByteStream_write_Params s) seg"
definition Proxy_ByteStream_write_Params_DecodeFromPtr where
  "Proxy_ByteStream_write_Params_DecodeFromPtr L p =
     Proxy_ByteStream_write_Params (Struct_DecodeFromPtr L (Struct_zero L) p)"
definition Proxy_ByteStream_write_Params_ToPtr where
  "Proxy_ByteStream_write_Params_ToPtr L s = Struct_ToPtr L (of_Proxy_ByteStream_write_Params s)"
definition Proxy_ByteStream_write_Params_IsValid where
  "Proxy_ByteStream_write_Params_IsValid L s =
     Struct_IsValid L (of_Proxy_ByteStream_write_Params s)"
definition Proxy_ByteStream_write_Params_Message where
  "Proxy_ByteStream_write_Params_Message L s =
     Struct_Message L (of_Proxy_ByteStream_write_Params s)"
definition Proxy_ByteStream_write_Params_Segment where
  "Proxy_ByteStream_write_Params_Segment L s =
     Struct_Segment L (of_Proxy_ByteStream_write_Params s)"

text \<open>The one field, a Data in pointer 0; a failed Ptr still gives the bytes of the pointer it returned.\<close>

definition Proxy_ByteStream_write_Params_Bytes where
  "Proxy_ByteStream_write_Params_Bytes L s w =
     then_do (Struct_Ptr L (of_Proxy_ByteStream_write_Params s) 0 w) (\<lambda>((p, err), w1).
     then_do (Ptr_Data L p w1) (\<lambda>(bs, w2). Ret ((bs, err), w2)))"

definition Proxy_ByteStream_write_Params_HasBytes where
  "Proxy_ByteStream_write_Params_HasBytes L s =
     Struct_HasPtr L (of_Proxy_ByteStream_write_Params s) 0"
definition Proxy_ByteStream_write_Params_SetBytes where
  "Proxy_ByteStream_write_Params_SetBytes L s v =
     Struct_SetData L (of_Proxy_ByteStream_write_Params s) 0 v"

definition NewProxy_ByteStream_write_Params_List where
  "NewProxy_ByteStream_write_Params_List L s sz =
     conv_err StructList (NewCompositeList L s \<lparr>DataSize = 0, PointerCount = 1\<rparr> sz)"

datatype 'f Proxy_ByteStream_write_Params_Future = Proxy_ByteStream_write_Params_Future (of_Proxy_ByteStream_write_Params_Future: 'f)

definition Proxy_ByteStream_write_Params_Future_Struct where
  "Proxy_ByteStream_write_Params_Future_Struct L f =
     conv_err (\<lambda>p. Proxy_ByteStream_write_Params (Ptr_Struct L p)) (Future_Ptr L (of_Proxy_ByteStream_write_Params_Future f))"


subsection \<open>Proxy ByteStream end Params\<close>

datatype 'st Proxy_ByteStream_end_Params = Proxy_ByteStream_end_Params (of_Proxy_ByteStream_end_Params: 'st)

definition Proxy_ByteStream_end_Params_TypeID :: "64 word" where
  "Proxy_ByteStream_end_Params_TypeID = 0xa6a7dfc73e38bff1"

definition NewProxy_ByteStream_end_Params where
  "NewProxy_ByteStream_end_Params L s =
     conv_err Proxy_ByteStream_end_Params (NewStruct L s \<lparr>DataSize = 0, PointerCount = 0\<rparr>)"

definition NewRootProxy_ByteStream_end_Params where
  "NewRootProxy_ByteStream_end_Params L s =
     conv_err Proxy_ByteStream_end_Params (NewRootStruct L s \<lparr>DataSize = 0, PointerCount = 0\<rparr>)"

definition ReadRootProxy_ByteStream_end_Params where
  "ReadRootProxy_ByteStream_end_Params L msg =
     conv_err (\<lambda>root. Proxy_ByteStream_end_Params (Ptr_Struct L root)) (Message_Root L msg)"

definition Proxy_ByteStream_end_Params_String where
  "Proxy_ByteStream_end_Params_String L s =
     conv fst (Marshal L 0xa6a7dfc73e38bff1 (of_Proxy_ByteStream_end_Params s))"
definition Proxy_ByteStream_end_Params_EncodeAsPtr where
  "Proxy_ByteStream_end_Params_EncodeAsPtr L s seg =
     Struct_EncodeAsPtr L (of_Proxy_ByteStream_end_Params s) seg"
definition Proxy_ByteStream_end_Params_DecodeFromPtr where
  "Proxy_ByteStream_end_Params_DecodeFromPtr L p =
     Proxy_ByteStream_end_Params (Struct_DecodeFromPtr L (Struct_zero L) p)"
definition Proxy_ByteStream_end_Params_ToPtr where
  "Proxy_ByteStream_end_Params_ToPtr L s = Struct_ToPtr L (of_Proxy_ByteStream_end_Params s)"
definition Proxy_ByteStream_end_Params_IsValid where
  "Proxy_ByteStream_end_Params_IsValid L s = Struct_IsValid L (of_Proxy_ByteStream_end_Params s)"
definition Proxy_ByteStream_end_Params_Message where
  "Proxy_ByteStream_end_Params_Message L s = Struct_Message L (of_Proxy_ByteStream_end_Params s)"
definition Proxy_ByteStream_end_Params_Segment where
  "Proxy_ByteStream_end_Params_Segment L s = Struct_Segment L (of_Proxy_ByteStream_end_Params s)"

definition NewProxy_ByteStream_end_Params_List where
  "NewProxy_ByteStream_end_Params_List L s sz =
     conv_err StructList (NewCompositeList L s \<lparr>DataSize = 0, PointerCount = 0\<rparr> sz)"

datatype 'f Proxy_ByteStream_end_Params_Future = Proxy_ByteStream_end_Params_Future (of_Proxy_ByteStream_end_Params_Future: 'f)

definition Proxy_ByteStream_end_Params_Future_Struct where
  "Proxy_ByteStream_end_Params_Future_Struct L f =
     conv_err (\<lambda>p. Proxy_ByteStream_end_Params (Ptr_Struct L p)) (Future_Ptr L (of_Proxy_ByteStream_end_Params_Future f))"


subsection \<open>Proxy ByteStream end Results\<close>

datatype 'st Proxy_ByteStream_end_Results = Proxy_ByteStream_end_Results (of_Proxy_ByteStream_end_Results: 'st)

definition Proxy_ByteStream_end_Results_TypeID :: "64 word" where
  "Proxy_ByteStream_end_Results_TypeID = 0xc6ddb7564e5419fd"

definition NewProxy_ByteStream_end_Results where
  "NewProxy_ByteStream_end_Results L s =
     conv_err Proxy_ByteStream_end_Results (NewStruct L s \<lparr>DataSize = 0, PointerCount = 0\<rparr>)"

definition NewRootProxy_ByteStream_end_Results where
  "NewRootProxy_ByteStream_end_Results L s =
     conv_err Proxy_ByteStream_end_Results (NewRootStruct L s \<lparr>DataSize = 0, PointerCount = 0\<rparr>)"

definition ReadRootProxy_ByteStream_end_Results where
  "ReadRootProxy_ByteStream_end_Results L msg =
     conv_err (\<lambda>root. Proxy_ByteStream_end_Results (Ptr_Struct L root)) (Message_Root L msg)"

definition Proxy_ByteStream_end_Results_String where
  "Proxy_ByteStream_end_Results_String L s =
     conv fst (Marshal L 0xc6ddb7564e5419fd (of_Proxy_ByteStream_end_Results s))"
definition Proxy_ByteStream_end_Results_EncodeAsPtr where
  "Proxy_ByteStream_end_Results_EncodeAsPtr L s seg =
     Struct_EncodeAsPtr L (of_Proxy_ByteStream_end_Results s) seg"
definition Proxy_ByteStream_end_Results_DecodeFromPtr where
  "Proxy_ByteStream_end_Results_DecodeFromPtr L p =
     Proxy_ByteStream_end_Results (Struct_DecodeFromPtr L (Struct_zero L) p)"
definition Proxy_ByteStream_end_Results_ToPtr where
  "Proxy_ByteStream_end_Results_ToPtr L s = Struct_ToPtr L (of_Proxy_ByteStream_end_Results s)"
definition Proxy_ByteStream_end_Results_IsValid where
  "Proxy_ByteStream_end_Results_IsValid L s = Struct_IsValid L (of_Proxy_ByteStream_end_Results s)"
definition Proxy_ByteStream_end_Results_Message where
  "Proxy_ByteStream_end_Results_Message L s = Struct_Message L (of_Proxy_ByteStream_end_Results s)"
definition Proxy_ByteStream_end_Results_Segment where
  "Proxy_ByteStream_end_Results_Segment L s = Struct_Segment L (of_Proxy_ByteStream_end_Results s)"

definition NewProxy_ByteStream_end_Results_List where
  "NewProxy_ByteStream_end_Results_List L s sz =
     conv_err StructList (NewCompositeList L s \<lparr>DataSize = 0, PointerCount = 0\<rparr> sz)"

datatype 'f Proxy_ByteStream_end_Results_Future = Proxy_ByteStream_end_Results_Future (of_Proxy_ByteStream_end_Results_Future: 'f)

definition Proxy_ByteStream_end_Results_Future_Struct where
  "Proxy_ByteStream_end_Results_Future_Struct L f =
     conv_err (\<lambda>p. Proxy_ByteStream_end_Results (Ptr_Struct L p)) (Future_Ptr L (of_Proxy_ByteStream_end_Results_Future f))"


subsection \<open>Proxy openStream Params\<close>

datatype 'st Proxy_openStream_Params = Proxy_openStream_Params (of_Proxy_openStream_Params: 'st)

definition Proxy_openStream_Params_TypeID :: "64 word" where
  "Proxy_openStream_Params_TypeID = 0xb73943930ce09927"

definition NewProxy_openStream_Params where
  "NewProxy_openStream_Params L s =
     conv_err Proxy_openStream_Params (NewStruct L s \<lparr>DataSize = 0, PointerCount = 1\<rparr>)"

definition NewRootProxy_openStream_Params where
  "NewRootProxy_openStream_Params L s =
     conv_err Proxy_openStream_Params (NewRootStruct L s \<lparr>DataSize = 0, PointerCount = 1\<rparr>)"

definition ReadRootProxy_openStream_Params where
  "ReadRootProxy_openStream_Params L msg =
     conv_err (\<lambda>root. Proxy_openStream_Params (Ptr_Struct L root)) (Message_Root L msg)"

definition Proxy_openStream_Params_String where
  "Proxy_openStream_Params_String L s =
     conv fst (Marshal L 0xb73943930ce09927 (of_Proxy_openStream_Params s))"
definition Proxy_openStream_Params_EncodeAsPtr where
  "Proxy_openStream_Params_EncodeAsPtr L s seg =
     Struct_EncodeAsPtr L (of_Proxy_openStream_Params s) seg"
definition Proxy_openStream_Params_DecodeFromPtr where
  "Proxy_openStream_Params_DecodeFromPtr L p =
     Proxy_openStream_Params (Struct_DecodeFromPtr L (Struct_zero L) p)"
definition Proxy_openStream_Params_ToPtr where
  "Proxy_openStream_Params_ToPtr L s = Struct_ToPtr L (of_Proxy_openStream_Params s)"
definition Proxy_openStream_Params_IsValid where
  "Proxy_openStream_Params_IsValid L s = Struct_IsValid L (of_Proxy_openStream_Params s)"
definition Proxy_openStream_Params_Message where
  "Proxy_openStream_Params_Message L s = Struct_Message L (of_Proxy_openStream_Params s)"
definition Proxy_openStream_Params_Segment where
  "Proxy_openStream_Params_Segment L s = Struct_Segment L (of_Proxy_openStream_Params s)"

text \<open>The one field, a capability in pointer 0. Setting an invalid one sets the null pointer.\<close>

definition Proxy_openStream_Params_Down where
  "Proxy_openStream_Params_Down L s w =
     then_do (Struct_Ptr L (of_Proxy_openStream_Params s) 0 w) (\<lambda>((p, _), w1).
     conv Proxy_ByteStream (Interface_Client L (Ptr_Interface L p)) w1)"

definition Proxy_openStream_Params_HasDown where
  "Proxy_openStream_Params_HasDown L s = Struct_HasPtr L (of_Proxy_openStream_Params s) 0"

definition Proxy_openStream_Params_SetDown where
  "Proxy_openStream_Params_SetDown L s v w =
     then_do (Proxy_ByteStream_IsValid L v w) (\<lambda>(valid, w1).
       if \<not> valid then Struct_SetPtr L (of_Proxy_openStream_Params s) 0 (Ptr_zero L) w1
       else
         (let seg = Proxy_openStream_Params_Segment L s
          in then_do (CapTable_Add L (Segment_Message L seg) (of_Proxy_ByteStream v) w1) (\<lambda>(cap, w2).
               Struct_SetPtr L (of_Proxy_openStream_Params s) 0 (Interface_ToPtr L (NewInterface L seg cap)) w2)))"

definition NewProxy_openStream_Params_List where
  "NewProxy_openStream_Params_List L s sz =
     conv_err StructList (NewCompositeList L s \<lparr>DataSize = 0, PointerCount = 1\<rparr> sz)"

datatype 'f Proxy_openStream_Params_Future = Proxy_openStream_Params_Future (of_Proxy_openStream_Params_Future: 'f)

definition Proxy_openStream_Params_Future_Struct where
  "Proxy_openStream_Params_Future_Struct L f =
     conv_err (\<lambda>p. Proxy_openStream_Params (Ptr_Struct L p)) (Future_Ptr L (of_Proxy_openStream_Params_Future f))"

definition Proxy_openStream_Params_Future_Down where
  "Proxy_openStream_Params_Future_Down L p =
     Proxy_ByteStream (Future_Client L (Future_Field L (of_Proxy_openStream_Params_Future p) 0 None))"


subsection \<open>Proxy openStream Results\<close>

datatype 'st Proxy_openStream_Results = Proxy_openStream_Results (of_Proxy_openStream_Results: 'st)

definition Proxy_openStream_Results_TypeID :: "64 word" where
  "Proxy_openStream_Results_TypeID = 0xe9b64e98f306de02"

definition NewProxy_openStream_Results where
  "NewProxy_openStream_Results L s =
     conv_err Proxy_openStream_Results (NewStruct L s \<lparr>DataSize = 0, PointerCount = 1\<rparr>)"

definition NewRootProxy_openStream_Results where
  "NewRootProxy_openStream_Results L s =
     conv_err Proxy_openStream_Results (NewRootStruct L s \<lparr>DataSize = 0, PointerCount = 1\<rparr>)"

definition ReadRootProxy_openStream_Results where
  "ReadRootProxy_openStream_Results L msg =
     conv_err (\<lambda>root. Proxy_openStream_Results (Ptr_Struct L root)) (Message_Root L msg)"

definition Proxy_openStream_Results_String where
  "Proxy_openStream_Results_String L s =
     conv fst (Marshal L 0xe9b64e98f306de02 (of_Proxy_openStream_Results s))"
definition Proxy_openStream_Results_EncodeAsPtr where
  "Proxy_openStream_Results_EncodeAsPtr L s seg =
     Struct_EncodeAsPtr L (of_Proxy_openStream_Results s) seg"
definition Proxy_openStream_Results_DecodeFromPtr where
  "Proxy_openStream_Results_DecodeFromPtr L p =
     Proxy_openStream_Results (Struct_DecodeFromPtr L (Struct_zero L) p)"
definition Proxy_openStream_Results_ToPtr where
  "Proxy_openStream_Results_ToPtr L s = Struct_ToPtr L (of_Proxy_openStream_Results s)"
definition Proxy_openStream_Results_IsValid where
  "Proxy_openStream_Results_IsValid L s = Struct_IsValid L (of_Proxy_openStream_Results s)"
definition Proxy_openStream_Results_Message where
  "Proxy_openStream_Results_Message L s = Struct_Message L (of_Proxy_openStream_Results s)"
definition Proxy_openStream_Results_Segment where
  "Proxy_openStream_Results_Segment L s = Struct_Segment L (of_Proxy_openStream_Results s)"

text \<open>The one field, a capability in pointer 0. Setting an invalid one sets the null pointer.\<close>

definition Proxy_openStream_Results_Up where
  "Proxy_openStream_Results_Up L s w =
     then_do (Struct_Ptr L (of_Proxy_openStream_Results s) 0 w) (\<lambda>((p, _), w1).
     conv Proxy_ByteStream (Interface_Client L (Ptr_Interface L p)) w1)"

definition Proxy_openStream_Results_HasUp where
  "Proxy_openStream_Results_HasUp L s = Struct_HasPtr L (of_Proxy_openStream_Results s) 0"

definition Proxy_openStream_Results_SetUp where
  "Proxy_openStream_Results_SetUp L s v w =
     then_do (Proxy_ByteStream_IsValid L v w) (\<lambda>(valid, w1).
       if \<not> valid then Struct_SetPtr L (of_Proxy_openStream_Results s) 0 (Ptr_zero L) w1
       else
         (let seg = Proxy_openStream_Results_Segment L s
          in then_do (CapTable_Add L (Segment_Message L seg) (of_Proxy_ByteStream v) w1) (\<lambda>(cap, w2).
               Struct_SetPtr L (of_Proxy_openStream_Results s) 0 (Interface_ToPtr L (NewInterface L seg cap)) w2)))"

definition NewProxy_openStream_Results_List where
  "NewProxy_openStream_Results_List L s sz =
     conv_err StructList (NewCompositeList L s \<lparr>DataSize = 0, PointerCount = 1\<rparr> sz)"

datatype 'f Proxy_openStream_Results_Future = Proxy_openStream_Results_Future (of_Proxy_openStream_Results_Future: 'f)

definition Proxy_openStream_Results_Future_Struct where
  "Proxy_openStream_Results_Future_Struct L f =
     conv_err (\<lambda>p. Proxy_openStream_Results (Ptr_Struct L p)) (Future_Ptr L (of_Proxy_openStream_Results_Future f))"

definition Proxy_openStream_Results_Future_Up where
  "Proxy_openStream_Results_Future_Up L p =
     Proxy_ByteStream (Future_Client L (Future_Field L (of_Proxy_openStream_Results_Future p) 0 None))"

subsection \<open>Calls\<close>

text \<open>
  The client's methods. A nil \<open>params\<close> leaves the argument size zero and places nothing.
\<close>

definition Proxy_OpenStream where
  "Proxy_OpenStream L c ctx params =
     (let s0 = \<lparr>SendMethod = \<lparr>InterfaceID = 0x9f9ee0cb62fc453f, MethodID = 0,
                                InterfaceName = ''proxy.capnp:Proxy'', MethodName = ''openStream''\<rparr>,
                ArgsSize = zero_size, PlaceArgs = None\<rparr>;
          s = (case params of
                 None \<Rightarrow> s0
               | Some f \<Rightarrow> s0\<lparr>ArgsSize := \<lparr>DataSize = 0, PointerCount = 1\<rparr>,
                              PlaceArgs := Some (\<lambda>s. f (Proxy_openStream_Params s))\<rparr>)
      in conv (\<lambda>(ans, release). (Proxy_openStream_Results_Future (Answer_Future L ans), release))
           (Client_SendCall L (of_Proxy c) ctx s))"

definition Proxy_ByteStream_Write where
  "Proxy_ByteStream_Write L c ctx params =
     (let s0 = \<lparr>SendMethod = \<lparr>InterfaceID = 0xf7006550409b1b37, MethodID = 0,
                                InterfaceName = ''proxy.capnp:Proxy.ByteStream'', MethodName = ''write''\<rparr>,
                ArgsSize = zero_size, PlaceArgs = None\<rparr>;
          s = (case params of
                 None \<Rightarrow> s0
               | Some f \<Rightarrow> s0\<lparr>ArgsSize := \<lparr>DataSize = 0, PointerCount = 1\<rparr>,
                              PlaceArgs := Some (\<lambda>s. f (Proxy_ByteStream_write_Params s))\<rparr>)
      in Client_SendStreamCall L (of_Proxy_ByteStream c) ctx s)"

definition Proxy_ByteStream_End where
  "Proxy_ByteStream_End L c ctx params =
     (let s0 = \<lparr>SendMethod = \<lparr>InterfaceID = 0xf7006550409b1b37, MethodID = 1,
                                InterfaceName = ''proxy.capnp:Proxy.ByteStream'', MethodName = ''end''\<rparr>,
                ArgsSize = zero_size, PlaceArgs = None\<rparr>;
          s = (case params of
                 None \<Rightarrow> s0
               | Some f \<Rightarrow> s0\<lparr>ArgsSize := \<lparr>DataSize = 0, PointerCount = 0\<rparr>,
                              PlaceArgs := Some (\<lambda>s. f (Proxy_ByteStream_end_Params s))\<rparr>)
      in conv (\<lambda>(ans, release). (Proxy_ByteStream_end_Results_Future (Answer_Future L ans), release))
           (Client_SendCall L (of_Proxy_ByteStream c) ctx s))"

subsection \<open>Servers\<close>

text \<open>
  A server call of each method, the arguments it carries and the results it allocates. The results of
  write are the library's StreamResult, an empty struct.
\<close>

datatype 'call Proxy_openStream = Proxy_openStream (of_Proxy_openStream: 'call)
datatype 'call Proxy_ByteStream_write = Proxy_ByteStream_write (of_Proxy_ByteStream_write: 'call)
datatype 'call Proxy_ByteStream_end = Proxy_ByteStream_end (of_Proxy_ByteStream_end: 'call)

definition Proxy_openStream_Args where
  "Proxy_openStream_Args L c = Proxy_openStream_Params (Call_Args L (of_Proxy_openStream c))"
definition Proxy_ByteStream_write_Args where
  "Proxy_ByteStream_write_Args L c =
     Proxy_ByteStream_write_Params (Call_Args L (of_Proxy_ByteStream_write c))"
definition Proxy_ByteStream_end_Args where
  "Proxy_ByteStream_end_Args L c =
     Proxy_ByteStream_end_Params (Call_Args L (of_Proxy_ByteStream_end c))"

datatype 'st StreamResult = StreamResult 'st

definition Proxy_openStream_AllocResults where
  "Proxy_openStream_AllocResults L c =
     conv_err Proxy_openStream_Results (Call_AllocResults L (of_Proxy_openStream c) \<lparr>DataSize = 0, PointerCount = 1\<rparr>)"

definition Proxy_ByteStream_write_AllocResults where
  "Proxy_ByteStream_write_AllocResults L c =
     conv_err StreamResult (Call_AllocResults L (of_Proxy_ByteStream_write c) \<lparr>DataSize = 0, PointerCount = 0\<rparr>)"

definition Proxy_ByteStream_end_AllocResults where
  "Proxy_ByteStream_end_AllocResults L c =
     conv_err Proxy_ByteStream_end_Results (Call_AllocResults L (of_Proxy_ByteStream_end c) \<lparr>DataSize = 0, PointerCount = 0\<rparr>)"

text \<open>
  What a server implements. \<open>self\<close> is the implementation as the brand of its server, \<open>shutdowner\<close> what
  the type assertion to server.Shutdowner gives.
\<close>

record ('ctx, 'call, 'r, 'b, 'sd) Proxy_Server =
  ps_OpenStream :: "'ctx \<Rightarrow> 'call Proxy_openStream \<Rightarrow> 'r"
  ps_self :: 'b
  ps_shutdowner :: "'sd option"

record ('ctx, 'call, 'r, 'b, 'sd) Proxy_ByteStream_Server =
  bs_Write :: "'ctx \<Rightarrow> 'call Proxy_ByteStream_write \<Rightarrow> 'r"
  bs_End :: "'ctx \<Rightarrow> 'call Proxy_ByteStream_end \<Rightarrow> 'r"
  bs_self :: 'b
  bs_shutdowner :: "'sd option"

text \<open>
  The tables of methods, appended to the methods given. A nil or empty slice without room is first
  replaced by an empty one with room, which changes no element.
\<close>

definition Proxy_Methods where
  "Proxy_Methods methods s = methods @
     [\<lparr>sm_Method = \<lparr>InterfaceID = 0x9f9ee0cb62fc453f, MethodID = 0,
                   InterfaceName = ''proxy.capnp:Proxy'', MethodName = ''openStream''\<rparr>,
       sm_Impl = \<lambda>ctx call. ps_OpenStream s ctx (Proxy_openStream call)\<rparr>]"

definition Proxy_ByteStream_Methods where
  "Proxy_ByteStream_Methods methods s = methods @
     [\<lparr>sm_Method = \<lparr>InterfaceID = 0xf7006550409b1b37, MethodID = 0,
                   InterfaceName = ''proxy.capnp:Proxy.ByteStream'', MethodName = ''write''\<rparr>,
       sm_Impl = \<lambda>ctx call. bs_Write s ctx (Proxy_ByteStream_write call)\<rparr>,
      \<lparr>sm_Method = \<lparr>InterfaceID = 0xf7006550409b1b37, MethodID = 1,
                   InterfaceName = ''proxy.capnp:Proxy.ByteStream'', MethodName = ''end''\<rparr>,
       sm_Impl = \<lambda>ctx call. bs_End s ctx (Proxy_ByteStream_end call)\<rparr>]"

definition Proxy_NewServer where
  "Proxy_NewServer L s = server_New L (Proxy_Methods [] s) (ps_self s) (ps_shutdowner s)"

definition Proxy_ServerToClient where
  "Proxy_ServerToClient L s w =
     then_do (Proxy_NewServer L s w) (\<lambda>(srv, w1). conv Proxy (NewClient L srv) w1)"

definition Proxy_ByteStream_NewServer where
  "Proxy_ByteStream_NewServer L s =
     server_New L (Proxy_ByteStream_Methods [] s) (bs_self s) (bs_shutdowner s)"

definition Proxy_ByteStream_ServerToClient where
  "Proxy_ByteStream_ServerToClient L s w =
     then_do (Proxy_ByteStream_NewServer L s w) (\<lambda>(srv, w1). conv Proxy_ByteStream (NewClient L srv) w1)"

definition NewProxy_List where "NewProxy_List L s sz = conv_err CapList (NewPointerList L s sz)"

definition NewProxy_ByteStream_List where
  "NewProxy_ByteStream_List L s sz = conv_err CapList (NewPointerList L s sz)"

subsection \<open>The schema\<close>

text \<open>The compressed schema as the bytes of the string literal.\<close>

definition schema_89a1f516c2d6455d :: bytes where
  "schema_89a1f516c2d6455d =
     [120, 218, 132, 146, 61, 104, 20, 81, 16, 199, 255, 51, 111, 47, 155, 64, 142, 227, 101, 69,
      137, 34, 129, 224, 7, 164, 56, 77, 82, 248, 129, 152, 35, 114, 8, 130, 113, 247, 20, 145,
      128, 200, 198, 123, 160, 224, 238, 45, 187, 27, 46, 91, 88, 138, 88, 8, 126, 52, 158, 1,
      197, 66, 133, 116, 54, 6, 11, 137, 90, 104, 33, 150, 218, 169, 177, 212, 70, 68, 130, 141,
      97, 101, 47, 188, 219, 83, 12, 169, 223, 127, 126, 191, 121, 51, 179, 119, 23, 85, 140, 209,
      226, 158, 2, 216, 57, 84, 232, 73, 39, 170, 191, 103, 222, 46, 223, 187, 15, 217, 47, 210,
      179, 213, 15, 175, 54, 175, 60, 184, 6, 144, 117, 153, 111, 89, 87, 120, 11, 96, 221, 228,
      163, 214, 115, 54, 129, 244, 199, 210, 254, 195, 111, 62, 63, 126, 4, 185, 157, 0, 195, 4,
      198, 31, 242, 36, 193, 72, 111, 84, 79, 124, 191, 48, 191, 176, 176, 246, 82, 160, 236, 233,
      58, 215, 8, 100, 181, 120, 2, 148, 238, 110, 45, 247, 223, 62, 114, 96, 17, 114, 160, 19,
      120, 198, 195, 89, 224, 101, 59, 176, 58, 120, 106, 234, 244, 226, 199, 215, 93, 236, 47, 124,
      44, 99, 243, 167, 158, 159, 119, 166, 158, 126, 237, 46, 125, 199, 35, 89, 233, 251, 172, 116,
      105, 223, 182, 249, 138, 173, 126, 201, 1, 145, 127, 7, 100, 173, 240, 55, 139, 132, 9, 88,
      171, 124, 213, 58, 46, 76, 156, 73, 131, 176, 49, 151, 148, 207, 187, 20, 248, 193, 65, 59,
      108, 204, 81, 226, 24, 148, 35, 104, 58, 157, 76, 98, 117, 50, 14, 21, 132, 235, 57, 134,
      40, 0, 157, 230, 73, 183, 34, 229, 52, 88, 246, 153, 105, 35, 80, 190, 14, 87, 200, 38,
      234, 24, 250, 180, 33, 41, 107, 162, 235, 149, 149, 95, 223, 97, 187, 161, 235, 69, 208, 193,
      255, 230, 154, 225, 197, 88, 173, 37, 41, 114, 12, 97, 0, 6, 1, 178, 56, 6, 56, 189,
      130, 156, 77, 76, 67, 51, 73, 172, 34, 42, 130, 169, 136, 92, 44, 114, 160, 238, 206, 245,
      50, 148, 233, 122, 127, 161, 70, 114, 84, 169, 222, 104, 250, 36, 245, 24, 64, 36, 187, 136,
      198, 186, 95, 169, 169, 104, 246, 82, 28, 1, 27, 216, 107, 42, 42, 101, 193, 110, 253, 214,
      92, 47, 102, 131, 117, 229, 252, 175, 188, 148, 17, 109, 34, 167, 183, 189, 27, 125, 121, 228,
      63, 121, 209, 28, 191, 123, 174, 37, 71, 199, 192, 114, 167, 73, 212, 185, 87, 210, 199, 37,
      7, 135, 193, 178, 104, 14, 181, 231, 91, 33, 83, 249, 245, 246, 218, 254, 4, 0, 0, 255,
      255, 150, 148, 233, 205]"

definition RegisterSchema where
  "RegisterSchema L reg =
     Registry_Register L reg
       \<lparr>SchemaString = schema_89a1f516c2d6455d,
        SchemaNodes =
          [0x9f9ee0cb62fc453f,
           0xa6a7dfc73e38bff1,
           0xaaaa9b68ef4f4590,
           0xb73943930ce09927,
           0xc6ddb7564e5419fd,
           0xe9b64e98f306de02,
           0xf7006550409b1b37],
        SchemaCompressed = True\<rparr>"

end
