(* ===== verification/CapnpWire.thy ===== *)
theory CapnpWire
  imports CapnpSchema CapnpStream
begin

text \<open>
  The calls of capnpnet/capnp_net.go made through the generated code: capnpStream.Write and End on the
  caller's side, byteStreamReader.Write and End as the methods of a server on the other. CapnpStream
  models a call as a value that arrives; here it is shown that a call made by the code of one
  side arrives as that value at the code of the other, with what the library documents as hypotheses.
\<close>

subsection \<open>The callers' and the servers' code\<close>

definition background :: unit where "background = ()"

text \<open>capnpStream.Write and CloseWrite on a writer of the generated type; the flag is \<open>closed\<close>.\<close>

definition wire_Write where
  "wire_Write L writer closed b w =
     (if closed then Ret ((0, Some ErrClosedPipe), w)
      else
        then_do (Proxy_ByteStream_Write L writer background
                  (Some (\<lambda>p. Proxy_ByteStream_write_Params_SetBytes L p b)) w) (\<lambda>(err, w1).
          case err of
            Some e \<Rightarrow> Ret ((0, Some e), w1)
          | None \<Rightarrow> Ret ((int (length b), None), w1)))"

text \<open>byteStreamReader's methods as a server runs them, on the library's state and the reader.\<close>

definition byteStreamReader_Write :: "_ \<Rightarrow> _ \<Rightarrow> _ \<Rightarrow> _ \<Rightarrow> byteStreamReader \<Rightarrow> _" where
  "byteStreamReader_Write L ctx call w s =
     then_do (Proxy_ByteStream_write_Params_Bytes L (Proxy_ByteStream_write_Args L call) w) (\<lambda>((bytes, err), w1).
       case err of
         Some e \<Rightarrow> Ret (s\<lparr>bsr_replies := bsr_replies s @ [Some e]\<rparr>, w1)
       | None \<Rightarrow>
           (case pipe_write bytes (bsr_pipe s) of
              (Some e, p) \<Rightarrow> Ret (s\<lparr>bsr_pipe := p, bsr_replies := bsr_replies s @ [Some e]\<rparr>, w1)
            | (None, p) \<Rightarrow> Ret (s\<lparr>bsr_pipe := p\<rparr>, w1)))"

definition byteStreamReader_End :: "_ \<Rightarrow> _ \<Rightarrow> _ \<Rightarrow> byteStreamReader \<Rightarrow> _" where
  "byteStreamReader_End ctx call w s =
     (let p = pipe_close_writer (bsr_pipe s)
      in Ret (s\<lparr>bsr_pipe := p,
               bsr_replies := bsr_replies s @ reply_of_waiting (bsr_pipe s) p @ [None]\<rparr>, w))"

text \<open>A byteStreamReader as a server of the interface: it has no Shutdown method.\<close>

definition byteStreamReader_server where
  "byteStreamReader_server L self =
     \<lparr>bs_Write = byteStreamReader_Write L, bs_End = byteStreamReader_End,
      bs_self = self, bs_shutdowner = None\<rparr>"

subsection \<open>What the library documents\<close>

text \<open>
  A server runs the method of its table that has the interface and method number of the call.
\<close>

definition find_method where
  "find_method ms m =
     find (\<lambda>e. InterfaceID (sm_Method e) = InterfaceID m \<and> MethodID (sm_Method e) = MethodID m) ms"

text \<open>The argument struct is allocated with the size asked for and filled by \<open>PlaceArgs\<close>.\<close>

definition place_args ::
    "(ObjectSize \<Rightarrow> ('w, 'st \<times> err option) action) \<Rightarrow> ('w, 'st) Send \<Rightarrow> ('w, 'st \<times> err option) action" where
  "place_args new send w =
     then_do (new (ArgsSize send) w) (\<lambda>((st, e), w1).
       case e of
         Some e \<Rightarrow> Ret ((st, Some e), w1)
       | None \<Rightarrow>
           (case PlaceArgs send of
              None \<Rightarrow> Ret ((st, None), w1)
            | Some f \<Rightarrow> conv (\<lambda>e. (st, e)) (f st) w1))"

text \<open>
  Calls on a client of a server with the table \<open>ms\<close>: place the arguments, find the method, and
  hand the run of its implementation over (\<open>enq\<close> for streaming calls, \<open>enq_call\<close> for others, both
  arbitrary). \<open>new\<close> is the library's allocator, \<open>mk\<close> makes the server call that carries a struct.
\<close>

definition runs_method where
  "runs_method new mk ctx ms send fail enq w =
     then_do (place_args new send w) (\<lambda>((st, e), w1).
       case e of
         Some e \<Rightarrow> fail e w1
       | None \<Rightarrow>
           (case find_method ms (SendMethod send) of
              None \<Rightarrow> fail (Errorf ''unimplemented'') w1
            | Some m \<Rightarrow> enq (sm_Impl m ctx (mk st)) w1))"

definition serves_calls where
  "serves_calls L new mk enq fail_call enq_call \<longleftrightarrow>
     (\<forall>st. Call_Args L (mk st) = st) \<and>
     (\<forall>ms b sd w srv w1 c w2 ctx send v.
        server_New L ms b sd w = Ret (srv, w1) \<longrightarrow> NewClient L srv w1 = Ret (c, w2) \<longrightarrow>
        Client_SendStreamCall L c ctx send v =
          runs_method new mk ctx ms send (\<lambda>e v1. Ret (Some e, v1)) enq v \<and>
        Client_SendCall L c ctx send v =
          runs_method new mk ctx ms send fail_call enq_call v)"

text \<open>Bytes set in a pointer of a struct are read back from it.\<close>

definition holds_data where
  "holds_data L \<longleftrightarrow>
     (\<forall>st i b w w'. Struct_SetData L st i b w = Ret (None, w') \<longrightarrow>
        (\<exists>p w1 w2. Struct_Ptr L st i w' = Ret ((p, None), w1) \<and> Ptr_Data L p w1 = Ret (b, w2)))"

text \<open>
  A capability added to a message's table and set in a pointer of a struct of that message is read
  back from it; the null pointer reads as the null client.
\<close>

definition holds_caps where
  "holds_caps L \<longleftrightarrow>
     (\<forall>st i c w k w1 w2.
        CapTable_Add L (Segment_Message L (Struct_Segment L st)) c w = Ret (k, w1) \<longrightarrow>
        Struct_SetPtr L st i (Interface_ToPtr L (NewInterface L (Struct_Segment L st) k)) w1 = Ret (None, w2) \<longrightarrow>
        (\<exists>p w3 w4. Struct_Ptr L st i w2 = Ret ((p, None), w3) \<and>
           Interface_Client L (Ptr_Interface L p) w3 = Ret (c, w4))) \<and>
     (\<forall>st i w w2.
        Struct_SetPtr L st i (Ptr_zero L) w = Ret (None, w2) \<longrightarrow>
        (\<exists>p w3 w4. Struct_Ptr L st i w2 = Ret ((p, None), w3) \<and>
           Interface_Client L (Ptr_Interface L p) w3 = Ret (Client_zero L, w4)))"

subsection \<open>A call is served by the method it names\<close>

lemma runs_method_done:
  assumes "runs_method new mk ctx ms send (\<lambda>e v1. Ret (Some e, v1)) enq w = Ret (None, w')"
  obtains st w1 m where "place_args new send w = Ret ((st, None), w1)"
    "find_method ms (SendMethod send) = Some m" "enq (sm_Impl m ctx (mk st)) w1 = Ret (None, w')"
proof -
  from assms obtain st e w1 where pa: "place_args new send w = Ret ((st, e), w1)"
      and rest: "(case e of Some e \<Rightarrow> Ret (Some e, w1) | None \<Rightarrow>
           (case find_method ms (SendMethod send) of
              None \<Rightarrow> Ret (Some (Errorf ''unimplemented''), w1)
            | Some m \<Rightarrow> enq (sm_Impl m ctx (mk st)) w1)) = Ret (None, w')"
    unfolding runs_method_def by (auto simp: then_do_Ret_iff)
  from rest have "e = None" by (cases e) auto
  moreover from rest this obtain m where "find_method ms (SendMethod send) = Some m"
    by (cases "find_method ms (SendMethod send)") auto
  ultimately show thesis using that pa rest by simp
qed

lemma place_args_Ret:
  assumes "place_args new \<lparr>SendMethod = m, ArgsSize = sz, PlaceArgs = Some f\<rparr> w = Ret ((st, None), w')"
  obtains w1 where "new sz w = Ret ((st, None), w1)" "f st w1 = Ret (None, w')"
  using assms by (auto simp: place_args_def go_simps split: option.splits)

lemma find_method_simps:
  "find_method [] m = None"
  "find_method (e # ms) m =
     (if InterfaceID (sm_Method e) = InterfaceID m \<and> MethodID (sm_Method e) = MethodID m then Some e
      else find_method ms m)"
  by (simp_all add: find_method_def)

lemma ServerToClient_Ret:
  assumes "Proxy_ByteStream_ServerToClient L srv w = Ret (c, w')"
  obtains s w1 where
    "server_New L (Proxy_ByteStream_Methods [] srv) (bs_self srv) (bs_shutdowner srv) w = Ret (s, w1)"
    "NewClient L s w1 = Ret (of_Proxy_ByteStream c, w')"
  using assms
  by (auto simp: Proxy_ByteStream_ServerToClient_def Proxy_ByteStream_NewServer_def go_simps)

lemma serves_stream_call:
  assumes "serves_calls L new mk enq fail_call enq_call"
    and "Proxy_ByteStream_ServerToClient L srv w = Ret (c, w')"
  shows "Client_SendStreamCall L (of_Proxy_ByteStream c) ctx send v =
      runs_method new mk ctx (Proxy_ByteStream_Methods [] srv) send (\<lambda>e v1. Ret (Some e, v1)) enq v"
    and "Client_SendCall L (of_Proxy_ByteStream c) ctx send v =
      runs_method new mk ctx (Proxy_ByteStream_Methods [] srv) send fail_call enq_call v"
    and "Call_Args L (mk st) = st"
proof -
  from assms(2) obtain s w1 where
      "server_New L (Proxy_ByteStream_Methods [] srv) (bs_self srv) (bs_shutdowner srv) w = Ret (s, w1)"
      and "NewClient L s w1 = Ret (of_Proxy_ByteStream c, w')"
    by (rule ServerToClient_Ret)
  with assms(1) show "Client_SendStreamCall L (of_Proxy_ByteStream c) ctx send v =
      runs_method new mk ctx (Proxy_ByteStream_Methods [] srv) send (\<lambda>e v1. Ret (Some e, v1)) enq v"
    and "Client_SendCall L (of_Proxy_ByteStream c) ctx send v =
      runs_method new mk ctx (Proxy_ByteStream_Methods [] srv) send fail_call enq_call v"
    unfolding serves_calls_def by blast+
  from assms(1) show "Call_Args L (mk st) = st" by (simp add: serves_calls_def)
qed

text \<open>
  The Write call of one side, made through the generated stub, runs the Write of the server behind the
  client, with a call whose arguments hold the bytes.
\<close>

lemma write_call_runs:
  assumes lib: "serves_calls L new mk enq fail_call enq_call" "holds_data L"
    and client: "Proxy_ByteStream_ServerToClient L srv w = Ret (c, w')"
    and call: "Proxy_ByteStream_Write L c ctx
      (Some (\<lambda>p. Proxy_ByteStream_write_Params_SetBytes L p b)) v = Ret (None, v')"
  obtains call v1 v2 where "enq (bs_Write srv ctx call) v1 = Ret (None, v')"
    "Proxy_ByteStream_write_Params_Bytes L (Proxy_ByteStream_write_Args L call) v1 = Ret ((b, None), v2)"
proof -
  note run = call [unfolded Proxy_ByteStream_Write_def Let_def option.case Send.simps
      serves_stream_call(1) [OF lib(1) client]]
  from run obtain st v1 m
    where pl: "place_args new \<lparr>SendMethod = \<lparr>InterfaceID = 0xf7006550409b1b37, MethodID = 0,
        InterfaceName = ''proxy.capnp:Proxy.ByteStream'', MethodName = ''write''\<rparr>,
        ArgsSize = \<lparr>DataSize = 0, PointerCount = 1\<rparr>,
        PlaceArgs = Some (\<lambda>s. Proxy_ByteStream_write_Params_SetBytes L (Proxy_ByteStream_write_Params s) b)\<rparr> v
        = Ret ((st, None), v1)"
      and m: "m = hd (Proxy_ByteStream_Methods [] srv)"
      and enq: "enq (sm_Impl m ctx (mk st)) v1 = Ret (None, v')"
    by (rule runs_method_done) (auto simp: Proxy_ByteStream_Methods_def find_method_simps)
  from pl obtain v0 where "Struct_SetData L st 0 b v0 = Ret (None, v1)"
    by (rule place_args_Ret) (auto simp: Proxy_ByteStream_write_Params_SetBytes_def)
  with lib(2) obtain p w1 w2 where "Struct_Ptr L st 0 v1 = Ret ((p, None), w1)" "Ptr_Data L p w1 = Ret (b, w2)"
    unfolding holds_data_def by blast
  then have "Proxy_ByteStream_write_Params_Bytes L
      (Proxy_ByteStream_write_Args L (Proxy_ByteStream_write (mk st))) v1 = Ret ((b, None), w2)"
    by (simp add: Proxy_ByteStream_write_Params_Bytes_def Proxy_ByteStream_write_Args_def
        serves_stream_call(3) [OF lib(1) client])
  moreover from enq m have "enq (bs_Write srv ctx (Proxy_ByteStream_write (mk st))) v1 = Ret (None, v')"
    by (simp add: Proxy_ByteStream_Methods_def)
  ultimately show thesis by (rule that [rotated])
qed

text \<open>End and OpenStream: what the library does with the arguments placed decides the rest.\<close>

lemma runs_method_found:
  assumes "place_args new send w = Ret ((st, None), w1)" and "find_method ms (SendMethod send) = Some m"
  shows "runs_method new mk ctx ms send fail enq w = enq (sm_Impl m ctx (mk st)) w1"
  using assms by (simp add: runs_method_def)

lemma end_call_runs:
  assumes lib: "serves_calls L new mk enq fail_call enq_call"
    and client: "Proxy_ByteStream_ServerToClient L srv w = Ret (c, w')"
    and new: "new zero_size v = Ret ((st, None), v1)"
  shows "Proxy_ByteStream_End L c ctx (Some (\<lambda>_ u. Ret (None, u))) v =
    conv (\<lambda>(ans, release). (Proxy_ByteStream_end_Results_Future (Answer_Future L ans), release))
      (enq_call (bs_End srv ctx (Proxy_ByteStream_end (mk st)))) v1"
proof -
  let ?send = "\<lparr>SendMethod = \<lparr>InterfaceID = 0xf7006550409b1b37, MethodID = 1,
      InterfaceName = ''proxy.capnp:Proxy.ByteStream'', MethodName = ''end''\<rparr>,
    ArgsSize = \<lparr>DataSize = 0, PointerCount = 0\<rparr>, PlaceArgs = Some (\<lambda>_ u. Ret (None, u))\<rparr>"
  have "place_args new ?send v = Ret ((st, None), v1)"
    using new by (simp add: place_args_def zero_size_def)
  then have "Client_SendCall L (of_Proxy_ByteStream c) ctx ?send v =
      enq_call (bs_End srv ctx (Proxy_ByteStream_end (mk st))) v1"
    by (simp add: serves_stream_call(2) [OF lib client] Proxy_ByteStream_Methods_def find_method_simps
        runs_method_found)
  then show ?thesis
    by (simp add: Proxy_ByteStream_End_def conv_def)
qed

lemma Proxy_ServerToClient_Ret:
  assumes "Proxy_ServerToClient L srv w = Ret (c, w')"
  obtains s w1 where
    "server_New L (Proxy_Methods [] srv) (ps_self srv) (ps_shutdowner srv) w = Ret (s, w1)"
    "NewClient L s w1 = Ret (of_Proxy c, w')"
  using assms by (auto simp: Proxy_ServerToClient_def Proxy_NewServer_def go_simps)

lemma serves_proxy_call:
  assumes "serves_calls L new mk enq fail_call enq_call" and "Proxy_ServerToClient L srv w = Ret (c, w')"
  shows "Client_SendCall L (of_Proxy c) ctx send v =
      runs_method new mk ctx (Proxy_Methods [] srv) send fail_call enq_call v"
    and "Call_Args L (mk st) = st"
proof -
  from assms(2) obtain s w1 where
      "server_New L (Proxy_Methods [] srv) (ps_self srv) (ps_shutdowner srv) w = Ret (s, w1)"
      and "NewClient L s w1 = Ret (of_Proxy c, w')"
    by (rule Proxy_ServerToClient_Ret)
  with assms(1) show "Client_SendCall L (of_Proxy c) ctx send v =
      runs_method new mk ctx (Proxy_Methods [] srv) send fail_call enq_call v"
    unfolding serves_calls_def by blast
  from assms(1) show "Call_Args L (mk st) = st" by (simp add: serves_calls_def)
qed

lemma open_call_runs:
  assumes lib: "serves_calls L new mk enq fail_call enq_call"
    and client: "Proxy_ServerToClient L srv w = Ret (c, w')"
    and new: "new \<lparr>DataSize = 0, PointerCount = 1\<rparr> v = Ret ((st, None), v1)"
    and set: "f (Proxy_openStream_Params st) v1 = Ret (None, v2)"
  shows "Proxy_OpenStream L c ctx (Some f) v =
    conv (\<lambda>(ans, release). (Proxy_openStream_Results_Future (Answer_Future L ans), release))
      (enq_call (ps_OpenStream srv ctx (Proxy_openStream (mk st)))) v2"
proof -
  let ?send = "\<lparr>SendMethod = \<lparr>InterfaceID = 0x9f9ee0cb62fc453f, MethodID = 0,
      InterfaceName = ''proxy.capnp:Proxy'', MethodName = ''openStream''\<rparr>,
    ArgsSize = \<lparr>DataSize = 0, PointerCount = 1\<rparr>, PlaceArgs = Some (\<lambda>s. f (Proxy_openStream_Params s))\<rparr>"
  have "place_args new ?send v = Ret ((st, None), v2)"
    using new set by (simp add: place_args_def)
  then have "Client_SendCall L (of_Proxy c) ctx ?send v =
      enq_call (ps_OpenStream srv ctx (Proxy_openStream (mk st))) v2"
    by (simp add: serves_proxy_call(1) [OF lib client] Proxy_Methods_def find_method_simps
        runs_method_found)
  then show ?thesis by (simp add: Proxy_OpenStream_def conv_def)
qed

subsection \<open>Capabilities\<close>

text \<open>Setting and reading a capability in pointer 0: SetDown and Down, SetUp and Up are instances.\<close>

definition set_cap where
  "set_cap L st d w =
     then_do (Client_IsValid L d w) (\<lambda>(valid, w1).
       if \<not> valid then Struct_SetPtr L st 0 (Ptr_zero L) w1
       else
         then_do (CapTable_Add L (Segment_Message L (Struct_Segment L st)) d w1) (\<lambda>(cap, w2).
           Struct_SetPtr L st 0 (Interface_ToPtr L (NewInterface L (Struct_Segment L st) cap)) w2))"

definition get_cap where
  "get_cap L st w =
     then_do (Struct_Ptr L st 0 w) (\<lambda>((p, _), w1).
       conv Proxy_ByteStream (Interface_Client L (Ptr_Interface L p)) w1)"

lemma setters_are_set_cap:
  "Proxy_openStream_Params_SetDown L p d w = set_cap L (of_Proxy_openStream_Params p) (of_Proxy_ByteStream d) w"
  "Proxy_openStream_Results_SetUp L r d w = set_cap L (of_Proxy_openStream_Results r) (of_Proxy_ByteStream d) w"
  unfolding set_cap_def Proxy_openStream_Params_SetDown_def Proxy_openStream_Results_SetUp_def
    Proxy_ByteStream_IsValid_def Proxy_openStream_Params_Segment_def Proxy_openStream_Results_Segment_def Let_def
  by (rule refl)+

lemma getters_are_get_cap:
  "Proxy_openStream_Params_Down L p w = get_cap L (of_Proxy_openStream_Params p) w"
  "Proxy_openStream_Results_Up L r w = get_cap L (of_Proxy_openStream_Results r) w"
  by (simp_all add: get_cap_def Proxy_openStream_Params_Down_def Proxy_openStream_Results_Up_def)

lemma set_cap_get_cap:
  assumes "holds_caps L" and "Client_IsValid L d w = Ret (valid, w0)" and "set_cap L st d w = Ret (None, w')"
  shows "\<exists>w2. get_cap L st w' = Ret (Proxy_ByteStream (if valid then d else Client_zero L), w2)"
proof (cases valid)
  case True
  with assms(2,3) obtain k w1
    where "CapTable_Add L (Segment_Message L (Struct_Segment L st)) d w0 = Ret (k, w1)"
      and "Struct_SetPtr L st 0 (Interface_ToPtr L (NewInterface L (Struct_Segment L st) k)) w1 = Ret (None, w')"
    by (auto simp: set_cap_def go_simps)
  with assms(1) obtain p w3 w4 where "Struct_Ptr L st 0 w' = Ret ((p, None), w3)"
      "Interface_Client L (Ptr_Interface L p) w3 = Ret (d, w4)"
    unfolding holds_caps_def by blast
  then show ?thesis by (simp add: get_cap_def True)
next
  case False
  with assms(2,3) have "Struct_SetPtr L st 0 (Ptr_zero L) w0 = Ret (None, w')"
    by (auto simp: set_cap_def go_simps)
  with assms(1) obtain p w3 w4 where "Struct_Ptr L st 0 w' = Ret ((p, None), w3)"
      "Interface_Client L (Ptr_Interface L p) w3 = Ret (Client_zero L, w4)"
    unfolding holds_caps_def by blast
  then show ?thesis by (simp add: get_cap_def False)
qed

subsection \<open>What the reader does with a call\<close>

lemma byteStreamReader_Write_serves:
  assumes "Proxy_ByteStream_write_Params_Bytes L (Proxy_ByteStream_write_Args L call) w = Ret ((b, e), w')"
  shows "byteStreamReader_Write L ctx call w s =
    Ret (serve_call (CallWrite (case e of Some e \<Rightarrow> Inl e | None \<Rightarrow> Inr b)) s, w')"
  using assms
  by (auto simp: byteStreamReader_Write_def bsr_Write_def split: option.split prod.split)

lemma byteStreamReader_End_serves:
  "byteStreamReader_End ctx call w s = Ret (serve_call CallEnd s, w)"
  by (simp add: byteStreamReader_End_def bsr_End_def Let_def)

lemma wire_Write_capnp_Write:
  assumes "wire_Write L c closed b v = Ret ((n, None), v')"
  shows "capnp_Write b (s\<lparr>cs_closed := closed, cs_wres := None # ws\<rparr>) =
      Ret ((n, None), s\<lparr>cs_closed := closed, cs_wres := ws, cs_sent := cs_sent s @ [b]\<rparr>)"
    and "Proxy_ByteStream_Write L c background
      (Some (\<lambda>p. Proxy_ByteStream_write_Params_SetBytes L p b)) v = Ret (None, v')"
  using assms
  by (auto simp: wire_Write_def capnp_Write_def then_do_Ret_iff split: if_splits option.splits)

subsection \<open>Fields lie inside the structs allocated for them\<close>

text \<open>
  What the library documents of sizes: a struct keeps the number of pointers it was allocated with (\<open>szof\<close>), and
  setting a pointer panics only outside of it. \<open>calm\<close>: an action that does not panic and keeps sizes.
\<close>

definition calm where
  "calm szof a \<longleftrightarrow>
     (\<forall>w m. a w \<noteq> Panic m) \<and>
     (\<forall>w x w' st. a w = Ret (x, w') \<longrightarrow> szof st w' = szof st w)"

definition sized ::
    "_ \<Rightarrow> (ObjectSize \<Rightarrow> ('w, 'st \<times> err option) action) \<Rightarrow> ('st \<Rightarrow> 'w \<Rightarrow> 16 word) \<Rightarrow> bool" where
  "sized L new szof \<longleftrightarrow>
     (\<forall>sz w m. new sz w \<noteq> Panic m) \<and>
     (\<forall>sz w st w'. new sz w = Ret ((st, None), w') \<longrightarrow> szof st w' = PointerCount sz) \<and>
     (\<forall>call sz w m. Call_AllocResults L call sz w \<noteq> Panic m) \<and>
     (\<forall>call sz w st w'. Call_AllocResults L call sz w = Ret ((st, None), w') \<longrightarrow> szof st w' = PointerCount sz) \<and>
     (\<forall>st i p w m. i < szof st w \<longrightarrow> Struct_SetPtr L st i p w \<noteq> Panic m) \<and>
     (\<forall>st i b w m. i < szof st w \<longrightarrow> Struct_SetData L st i b w \<noteq> Panic m) \<and>
     (\<forall>m c. calm szof (CapTable_Add L m c)) \<and> (\<forall>c. calm szof (Client_IsValid L c))"

lemma then_do_Panic_iff:
  "then_do r f = Panic m \<longleftrightarrow> r = Panic m \<or> (\<exists>x. r = Ret x \<and> f x = Panic m)"
  by (cases r) auto

lemma sizedD:
  assumes "sized L new szof"
  shows "new sz w \<noteq> Panic m" "new sz w = Ret ((st, None), w') \<Longrightarrow> szof st w' = PointerCount sz"
    "Call_AllocResults L call sz w \<noteq> Panic m"
    "Call_AllocResults L call sz w = Ret ((st, None), w') \<Longrightarrow> szof st w' = PointerCount sz"
    "i < szof st w \<Longrightarrow> Struct_SetPtr L st i p w \<noteq> Panic m"
    "i < szof st w \<Longrightarrow> Struct_SetData L st i b w \<noteq> Panic m"
    "calm szof (CapTable_Add L ms c)" "calm szof (Client_IsValid L c)"
  using assms by (simp_all add: sized_def)

lemma set_cap_in_range:
  assumes lib: "sized L new szof" and sz: "0 < szof st w"
  shows "set_cap L st d w \<noteq> Panic m"
proof
  assume panic: "set_cap L st d w = Panic m"
  note calm = sizedD(7) [OF lib, unfolded calm_def] sizedD(8) [OF lib, unfolded calm_def]
  from panic calm(2) obtain valid w1 where v: "Client_IsValid L d w = Ret (valid, w1)"
    by (auto simp: set_cap_def then_do_Panic_iff)
  with calm(2) sz have sz1: "0 < szof st w1" by metis
  with panic v sizedD(5) [OF lib this] obtain cap w2
    where a: "CapTable_Add L (Segment_Message L (Struct_Segment L st)) d w1 = Ret (cap, w2)"
      and p: "Struct_SetPtr L st 0 (Interface_ToPtr L (NewInterface L (Struct_Segment L st) cap)) w2 = Panic m"
    using calm(1) by (auto simp: set_cap_def then_do_Panic_iff split: if_splits)
  from a calm(1) sz1 have "0 < szof st w2" by metis
  with p sizedD(5) [OF lib] show False by blast
qed

lemma place_args_in_range:
  assumes lib: "sized L new szof"
    and f: "\<And>st w. szof st w = PointerCount sz \<Longrightarrow> f st w \<noteq> Panic m"
  shows "place_args new \<lparr>SendMethod = mt, ArgsSize = sz, PlaceArgs = Some f\<rparr> v \<noteq> Panic m"
  using sizedD(1,2) [OF lib] f
  by (auto simp: place_args_def then_do_Panic_iff split: option.splits)

lemma runs_method_calm:
  assumes "place_args new send v \<noteq> Panic m"
    and "\<And>e w. fail e w \<noteq> Panic m" and "\<And>r w. enq r w \<noteq> Panic m"
  shows "runs_method new mk ctx ms send fail enq v \<noteq> Panic m"
  using assms by (auto simp: runs_method_def then_do_Panic_iff split: option.splits)

end
