(* ===== verification/CapnpCalls.thy ===== *)
theory CapnpCalls
  imports CapnpWire
begin

text \<open>
  What holds of the calls of capnpnet/capnp_net.go through the generated code, and a library in memory
  that has the documented behaviour assumed: one message, a client is the table of methods of its
  server, a call runs its method at once.
\<close>

subsection \<open>A library in memory\<close>

datatype mem_ptr = MNull | MData bytes | MCap nat | MStruct nat

text \<open>
  The pointers of every struct of the message, its capability table and, for the implementation
  whose methods run, a byteStreamReader.
\<close>

record 'x mem =
  mem_structs :: "mem_ptr list list"
  mem_caps :: "'x list"
  mem_reader :: byteStreamReader

definition mem_new :: "ObjectSize \<Rightarrow> ('x mem, nat \<times> err option) action" where
  "mem_new sz w =
     Ret ((length (mem_structs w), None),
          w\<lparr>mem_structs := mem_structs w @ [replicate (unat (PointerCount sz)) MNull]\<rparr>)"

definition mem_get :: "nat \<Rightarrow> 16 word \<Rightarrow> 'x mem \<Rightarrow> mem_ptr" where
  "mem_get st i w =
     (if st < length (mem_structs w) \<and> unat i < length (mem_structs w ! st)
      then mem_structs w ! st ! unat i else MNull)"

definition mem_set :: "nat \<Rightarrow> 16 word \<Rightarrow> mem_ptr \<Rightarrow> ('x mem, err option) action" where
  "mem_set st i p w =
     (if st < length (mem_structs w) \<and> unat i < length (mem_structs w ! st)
      then Ret (None, w\<lparr>mem_structs := (mem_structs w)[st := (mem_structs w ! st)[unat i := p]]\<rparr>)
      else Panic ''capnp: set field outside struct boundaries'')"

definition mem_size :: "nat \<Rightarrow> 'x mem \<Rightarrow> 16 word" where
  "mem_size st w =
     (if st < length (mem_structs w) \<and> length (mem_structs w ! st) < 2 ^ 16
      then of_nat (length (mem_structs w ! st)) else 0)"

definition mem_client :: "('x \<Rightarrow> 'c) \<Rightarrow> 'c \<Rightarrow> nat option \<Rightarrow> ('x mem, 'c) action" where
  "mem_client prj zero i w =
     Ret (case i of Some k \<Rightarrow> if k < length (mem_caps w) then prj (mem_caps w ! k) else zero | None \<Rightarrow> zero, w)"

text \<open>The capability table is full at 2^32 entries, the ids being of 32 bits.\<close>

definition mem_add :: "('c \<Rightarrow> 'x) \<Rightarrow> 'c \<Rightarrow> ('x mem, 32 word) action" where
  "mem_add emb c w =
     (if length (mem_caps w) < 2 ^ 32
      then Ret (of_nat (length (mem_caps w)), w\<lparr>mem_caps := mem_caps w @ [emb c]\<rparr>)
      else Fatal ''out of memory'')"

definition mem_enq :: "('r \<Rightarrow> 'x mem \<Rightarrow> 'x mem outcome) \<Rightarrow> 'r \<Rightarrow> ('x mem, err option) action" where
  "mem_enq run r w = then_do (run r w) (\<lambda>w'. Ret (None, w'))"

definition mem_enq_call :: "('r \<Rightarrow> 'x mem \<Rightarrow> 'x mem outcome) \<Rightarrow> 'r \<Rightarrow> ('x mem, err option \<times> unit) action" where
  "mem_enq_call run r w = then_do (run r w) (\<lambda>w'. Ret ((None, ()), w'))"

definition mem_lib ::
    "('c \<Rightarrow> 'x) \<Rightarrow> ('x \<Rightarrow> 'c) \<Rightarrow> ('r \<Rightarrow> 'x mem \<Rightarrow> 'x mem outcome) \<Rightarrow>
     ('c \<Rightarrow> (unit, nat, 'r) server_method list) \<Rightarrow> ((unit, nat, 'r) server_method list \<Rightarrow> 'c) \<Rightarrow>
     ('x mem, unit, unit, nat, mem_ptr, nat option, 'c, nat, mem_ptr \<times> err option, unit, nat, 'r, unit, unit,
      (unit, nat, 'r) server_method list, err option, unit, unit, unit) capnp_rpc" where
  "mem_lib emb prj run tbl cl =
     \<lparr>Ptr_zero = MNull, Struct_zero = 0,
      NewStruct = (\<lambda>_. mem_new), NewRootStruct = (\<lambda>_. mem_new),
      NewPointerList = (\<lambda>_ _ w. Ret ((0, None), w)), NewCompositeList = (\<lambda>_ _ _ w. Ret ((0, None), w)),
      Message_Root = (\<lambda>_ w. Ret ((MStruct 0, None), w)), Marshal = (\<lambda>_ _ w. Ret (('''', None), w)),
      Struct_Ptr = (\<lambda>st i w. Ret ((mem_get st i w, None), w)),
      Struct_HasPtr = (\<lambda>st i w. Ret (mem_get st i w \<noteq> MNull, w)),
      Struct_SetPtr = mem_set, Struct_SetData = (\<lambda>st i b. mem_set st i (MData b)),
      Struct_EncodeAsPtr = (\<lambda>st _. MStruct st),
      Struct_DecodeFromPtr = (\<lambda>_ p. case p of MStruct st \<Rightarrow> st | _ \<Rightarrow> 0),
      Struct_ToPtr = MStruct, Struct_IsValid = (\<lambda>_. True), Struct_Message = (\<lambda>_. ()),
      Struct_Segment = (\<lambda>_. ()), Segment_Message = (\<lambda>_. ()),
      CapTable_Add = (\<lambda>_. mem_add emb), NewInterface = (\<lambda>_ k. Some (unat k)),
      Interface_ToPtr = (\<lambda>i. case i of Some k \<Rightarrow> MCap k | None \<Rightarrow> MNull),
      Interface_Client = mem_client prj (cl []),
      Ptr_Struct = (\<lambda>p. case p of MStruct st \<Rightarrow> st | _ \<Rightarrow> 0),
      Ptr_Interface = (\<lambda>p. case p of MCap k \<Rightarrow> Some k | _ \<Rightarrow> None),
      Ptr_Data = (\<lambda>p w. Ret (case p of MData b \<Rightarrow> b | _ \<Rightarrow> [], w)),
      Future_Ptr = (\<lambda>f w. Ret (f, w)), Future_Field = (\<lambda>_ _ _. (MNull, None)), Future_Client = (\<lambda>_. cl []),
      Client_zero = cl [], Client_String = (\<lambda>_ w. Ret (''client'', w)), Client_AddRef = (\<lambda>c w. Ret (c, w)),
      Client_Release = (\<lambda>_ w. Ret ((), w)), Client_EncodeAsPtr = (\<lambda>_ _ w. Ret (MNull, w)),
      Client_DecodeFromPtr = (\<lambda>c _ w. Ret (c, w)), Client_IsValid = (\<lambda>c w. Ret (tbl c \<noteq> [], w)),
      Client_IsSame = (\<lambda>_ _ w. Ret (False, w)), Client_WaitStreaming = (\<lambda>_ w. Ret (None, w)),
      Client_SendCall = (\<lambda>c ctx send.
        runs_method mem_new (\<lambda>st. st) ctx (tbl c) send (\<lambda>e w. Ret ((Some e, ()), w)) (mem_enq_call run)),
      Client_SendStreamCall = (\<lambda>c ctx send.
        runs_method mem_new (\<lambda>st. st) ctx (tbl c) send (\<lambda>e w. Ret (Some e, w)) (mem_enq run)),
      Answer_Future = (\<lambda>e. (MNull, e)), Client_Resolve = (\<lambda>_ _ w. Ret (None, w)),
      Client_SetFlowLimiter = (\<lambda>_ _ w. Ret ((), w)), Client_GetFlowLimiter = (\<lambda>_ w. Ret ((), w)),
      server_New = (\<lambda>ms _ _ w. Ret (ms, w)), NewClient = (\<lambda>ms w. Ret (cl ms, w)),
      Call_Args = (\<lambda>st. st), Call_AllocResults = (\<lambda>_. mem_new),
      Registry_Register = (\<lambda>_ _ w. Ret ((), w))\<rparr>"

lemma mem_set_get:
  "mem_set st i p w = Ret (e, w') \<Longrightarrow> e = None \<and> mem_get st i w' = p \<and> mem_caps w' = mem_caps w"
  by (auto simp: mem_set_def mem_get_def split: if_splits)

lemma mem_lib_holds_data: "holds_data (mem_lib emb prj run tbl cl)"
  by (auto simp: holds_data_def mem_lib_def dest!: mem_set_get)

lemma mem_add_Ret:
  "mem_add emb c w = Ret (k, w') \<Longrightarrow>
   unat k = length (mem_caps w) \<and> mem_caps w' = mem_caps w @ [emb c]"
  by (auto simp: mem_add_def unat_of_nat take_bit_nat_eq_self split: if_splits)

lemma mem_lib_holds_caps:
  assumes "\<And>c. prj (emb c) = c"
  shows "holds_caps (mem_lib emb prj run tbl cl)"
  using assms
  by (auto simp: holds_caps_def mem_lib_def mem_client_def dest!: mem_set_get mem_add_Ret)

lemma mem_lib_serves_calls:
  assumes "\<And>ms. tbl (cl ms) = ms"
  shows "serves_calls (mem_lib emb prj run tbl cl) mem_new (\<lambda>st. st) (mem_enq run)
    (\<lambda>e w. Ret ((Some e, ()), w)) (mem_enq_call run)"
  by (auto simp: serves_calls_def mem_lib_def assms)

lemma mem_size_set:
  "mem_size st w \<noteq> 0 \<Longrightarrow> i < mem_size st w \<Longrightarrow> mem_set st i p w \<noteq> Panic m"
  by (auto simp: mem_size_def mem_set_def word_less_nat_alt unat_of_nat take_bit_nat_eq_self split: if_splits)

lemma mem_size_new:
  "mem_new sz w = Ret ((st, None), w') \<Longrightarrow> mem_size st w' = PointerCount sz"
  using unsigned_less [of "PointerCount sz"] by (auto simp: mem_new_def mem_size_def nth_append)

text \<open>Adding a capability or asking for validity changes no struct.\<close>

lemma mem_calm: "calm mem_size (mem_add emb c)" "calm mem_size (\<lambda>w. Ret (x, w))"
  by (auto simp: calm_def mem_add_def mem_size_def split: if_splits)

lemma mem_lib_sized: "sized (mem_lib emb prj run tbl cl) mem_new mem_size"
proof -
  have "i < mem_size st w \<Longrightarrow> mem_set st i p w \<noteq> Panic m" for i st p m and w :: "'a mem"
    by (rule mem_size_set) auto
  moreover have "mem_new sz w \<noteq> Panic m" for sz m and w :: "'a mem"
    by (simp add: mem_new_def)
  ultimately show ?thesis
    by (simp add: sized_def mem_lib_def mem_calm mem_size_new)
qed

subsection \<open>The calls of a stream\<close>

lemma byteStreamReader_server_simps [simp]:
  "bs_Write (byteStreamReader_server L self) = byteStreamReader_Write L"
  "bs_End (byteStreamReader_server L self) = byteStreamReader_End"
  by (simp_all add: byteStreamReader_server_def)

text \<open>
  C9. A Write of capnpStream that returns no error, made through the generated stub on a client of
  the peer's byteStreamReader, is the abstract Write of the stream model, and it makes the library run
  on the peer's reader exactly the call the model lists for it, with exactly the bytes written.
\<close>

theorem capnp_write_refines:
  assumes lib: "serves_calls L new mk enq fail_call enq_call" "holds_data L"
    and client: "Proxy_ByteStream_ServerToClient L (byteStreamReader_server L self) w = Ret (c, w')"
    and sent: "wire_Write L c closed b v = Ret ((n, None), v')"
  shows "capnp_Write b (s\<lparr>cs_closed := closed, cs_wres := None # ws\<rparr>) =
      Ret ((n, None), s\<lparr>cs_closed := closed, cs_wres := ws, cs_sent := cs_sent s @ [b]\<rparr>) \<and>
    (\<exists>run v1 v2. enq run v1 = Ret (None, v') \<and>
       (\<forall>r. run v1 r = Ret (serve_call (CallWrite (Inr b)) r, v2)))"
proof -
  from lib client wire_Write_capnp_Write(2) [OF sent] obtain cl v1 v2
    where "enq (byteStreamReader_Write L background cl) v1 = Ret (None, v')"
      and "Proxy_ByteStream_write_Params_Bytes L (Proxy_ByteStream_write_Args L cl) v1 = Ret ((b, None), v2)"
    by (rule write_call_runs) simp
  then have "\<exists>run v1 v2. enq run v1 = Ret (None, v') \<and>
      (\<forall>r. run v1 r = Ret (serve_call (CallWrite (Inr b)) r, v2))"
    by (intro exI [of _ "byteStreamReader_Write L background cl"] exI [of _ v1] exI [of _ v2])
      (simp add: byteStreamReader_Write_serves)
  with wire_Write_capnp_Write(1) [OF sent] show ?thesis by blast
qed

text \<open>The library in memory as the server of one reader, kept in its state.\<close>

type_synonym reader_run = "unit mem \<Rightarrow> byteStreamReader \<Rightarrow> (byteStreamReader \<times> unit mem) outcome"

definition run_on_reader :: "reader_run \<Rightarrow> unit mem \<Rightarrow> unit mem outcome" where
  "run_on_reader r w = then_do (r w (mem_reader w)) (\<lambda>(s, w'). Ret (w'\<lparr>mem_reader := s\<rparr>))"

abbreviation reader_lib where
  "reader_lib \<equiv> mem_lib (\<lambda>_. ()) (\<lambda>_. []) run_on_reader (\<lambda>c. c) (\<lambda>ms. ms)"

abbreviation reader_client where
  "reader_client \<equiv> Proxy_ByteStream (Proxy_ByteStream_Methods []
     (byteStreamReader_server reader_lib () :: (unit, nat, reader_run, unit, unit) Proxy_ByteStream_Server))"

definition mem_start :: "'x mem" where
  "mem_start = \<lparr>mem_structs = [], mem_caps = [], mem_reader = newByteStreamReader\<rparr>"

lemma mem_ServerToClient:
  "Proxy_ByteStream_ServerToClient (mem_lib emb prj run tbl cl) srv w =
   Ret (Proxy_ByteStream (cl (Proxy_ByteStream_Methods [] srv)), w)"
  by (simp add: Proxy_ByteStream_ServerToClient_def Proxy_ByteStream_NewServer_def mem_lib_def conv_def)

lemma wire_write_run:
  "wire_Write reader_lib reader_client False [1, 2] mem_start =
   Ret ((2, None), mem_start\<lparr>mem_structs := [[MData [1, 2]]],
     mem_reader := serve_call (CallWrite (Inr [1, 2])) newByteStreamReader\<rparr>)"
  by (simp add: wire_Write_def Proxy_ByteStream_Write_def mem_lib_def runs_method_def place_args_def
      mem_new_def mem_set_def mem_get_def mem_enq_def run_on_reader_def conv_def mem_start_def
      Proxy_ByteStream_write_Params_SetBytes_def Proxy_ByteStream_Methods_def find_method_def
      byteStreamReader_Write_def Proxy_ByteStream_write_Params_Bytes_def Proxy_ByteStream_write_Args_def
      bsr_Write_def pipe_write_def newByteStreamReader_def new_pipe_def)

lemma capnp_write_refines_witness:
  "wire_Write reader_lib reader_client False [1, 2] mem_start = Ret ((2, None),
     mem_start\<lparr>mem_structs := [[MData [1, 2]]],
       mem_reader := serve_call (CallWrite (Inr [1, 2])) newByteStreamReader\<rparr>) \<and>
   capnp_Write [1, 2] (newCapnpStream newByteStreamReader [] [None] None) =
     Ret ((2, None), (newCapnpStream newByteStreamReader [] [] None)\<lparr>cs_sent := [[1, 2]]\<rparr>)"
  using capnp_write_refines [OF mem_lib_serves_calls mem_lib_holds_data mem_ServerToClient wire_write_run,
      where s = "newCapnpStream newByteStreamReader [] [] None" and ws = "[]"] wire_write_run
  by (simp add: newCapnpStream_def)

subsection \<open>Opening a stream\<close>

text \<open>
  C21. The OpenStream call of the client, made through the generated stub, runs OpenStream of the
  server behind the client, and Down of its arguments is the capability that SetDown was given, or the
  null client when that was not valid.
\<close>

theorem open_call_carries_down:
  assumes lib: "serves_calls L new mk enq fail_call enq_call" "holds_caps L"
    and client: "Proxy_ServerToClient L srv w = Ret (c, w')"
    and new: "new \<lparr>DataSize = 0, PointerCount = 1\<rparr> v = Ret ((st, None), v1)"
    and valid: "Proxy_ByteStream_IsValid L d v1 = Ret (valid, v0)"
    and set: "Proxy_openStream_Params_SetDown L (Proxy_openStream_Params st) d v1 = Ret (None, v2)"
  shows "\<exists>call v3.
    Proxy_OpenStream L c ctx (Some (\<lambda>p. Proxy_openStream_Params_SetDown L p d)) v =
      conv (\<lambda>(ans, release). (Proxy_openStream_Results_Future (Answer_Future L ans), release))
        (enq_call (ps_OpenStream srv ctx call)) v2 \<and>
    Proxy_openStream_Params_Down L (Proxy_openStream_Args L call) v2 =
      Ret (if valid then d else Proxy_ByteStream (Client_zero L), v3)"
proof -
  from set_cap_get_cap [OF lib(2) valid [unfolded Proxy_ByteStream_IsValid_def]
      set [unfolded setters_are_set_cap Proxy_openStream_Params.sel]]
  obtain v3 where got: "get_cap L st v2 =
      Ret (Proxy_ByteStream (if valid then of_Proxy_ByteStream d else Client_zero L), v3)"
    by blast
  have "Proxy_openStream_Params_Down L (Proxy_openStream_Args L (Proxy_openStream (mk st))) v2 =
      Ret (if valid then d else Proxy_ByteStream (Client_zero L), v3)"
    using got serves_proxy_call(2) [OF lib(1) client]
    by (simp add: getters_are_get_cap Proxy_openStream_Args_def)
  with open_call_runs [OF lib(1) client new, of "\<lambda>p. Proxy_openStream_Params_SetDown L p d", OF set]
  show ?thesis by blast
qed

text \<open>The library in memory with the clients themselves in its capability table.\<close>

datatype cap_run = RanOpen nat | RanWrite nat | RanEnd nat

definition cap_lib where
  "cap_lib = (mem_lib (\<lambda>c. c) (\<lambda>c. c) (\<lambda>_ w. Ret w) (\<lambda>c. c) (\<lambda>ms. ms)
     :: (_, _, _, _, _, _, _, _, _, _, _, cap_run, _, _, _, _, _, _, _) capnp_rpc)"

definition cap_enq :: "cap_run \<Rightarrow> _" where "cap_enq = mem_enq (\<lambda>_ w. Ret w)"
definition cap_enq_call :: "cap_run \<Rightarrow> _" where "cap_enq_call = mem_enq_call (\<lambda>_ w. Ret w)"

lemma cap_lib_laws:
  "serves_calls cap_lib mem_new (\<lambda>st. st) cap_enq (\<lambda>e w. Ret ((Some e, ()), w)) cap_enq_call"
  "holds_caps cap_lib" "sized cap_lib mem_new mem_size"
  by (simp_all add: cap_lib_def cap_enq_def cap_enq_call_def mem_lib_serves_calls mem_lib_holds_caps mem_lib_sized)

definition open_srv :: "(unit, nat, cap_run, unit, unit) Proxy_Server" where
  "open_srv = \<lparr>ps_OpenStream = (\<lambda>_ call. RanOpen (of_Proxy_openStream call)), ps_self = (), ps_shutdowner = None\<rparr>"

definition down_srv :: "(unit, nat, cap_run, unit, unit) Proxy_ByteStream_Server" where
  "down_srv = \<lparr>bs_Write = (\<lambda>_ call. RanWrite (of_Proxy_ByteStream_write call)),
     bs_End = (\<lambda>_ call. RanEnd (of_Proxy_ByteStream_end call)), bs_self = (), bs_shutdowner = None\<rparr>"

definition down_client where
  "down_client = Proxy_ByteStream (Proxy_ByteStream_Methods [] down_srv)"

lemma cap_ServerToClient:
  "Proxy_ServerToClient cap_lib srv w = Ret (Proxy (Proxy_Methods [] srv), w)"
  "Proxy_ByteStream_ServerToClient cap_lib bsrv w = Ret (Proxy_ByteStream (Proxy_ByteStream_Methods [] bsrv), w)"
  by (simp_all add: Proxy_ServerToClient_def Proxy_NewServer_def cap_lib_def mem_lib_def conv_def
      Proxy_ByteStream_ServerToClient_def Proxy_ByteStream_NewServer_def)

definition one_struct :: "(unit, nat, cap_run) server_method list mem" where
  "one_struct = mem_start\<lparr>mem_structs := [[MNull]]\<rparr>"

definition with_down :: "(unit, nat, cap_run) server_method list mem" where
  "with_down = mem_start\<lparr>mem_structs := [[MCap 0]], mem_caps := [of_Proxy_ByteStream down_client]\<rparr>"

lemma mem_new_start:
  "mem_new \<lparr>DataSize = 0, PointerCount = 1\<rparr> mem_start = Ret ((0, None), one_struct)"
  by (simp add: mem_new_def mem_start_def one_struct_def)

lemma down_client_valid: "Proxy_ByteStream_IsValid cap_lib down_client w = Ret (True, w)"
  by (simp add: Proxy_ByteStream_IsValid_def down_client_def cap_lib_def mem_lib_def Proxy_ByteStream_Methods_def)

lemma down_client_set:
  "Proxy_openStream_Params_SetDown cap_lib (Proxy_openStream_Params 0) down_client one_struct = Ret (None, with_down)"
  by (simp add: setters_are_set_cap set_cap_def down_client_def cap_lib_def mem_lib_def mem_add_def mem_set_def
      mem_start_def Proxy_ByteStream_Methods_def one_struct_def with_down_def)

lemma open_call_carries_down_witness:
  "\<exists>call v3.
    Proxy_OpenStream cap_lib (Proxy (Proxy_Methods [] open_srv)) ()
      (Some (\<lambda>p. Proxy_openStream_Params_SetDown cap_lib p down_client)) mem_start =
      conv (\<lambda>(ans, release). (Proxy_openStream_Results_Future (Answer_Future cap_lib ans), release))
        (cap_enq_call (ps_OpenStream open_srv () call)) with_down \<and>
    Proxy_openStream_Params_Down cap_lib (Proxy_openStream_Args cap_lib call) with_down = Ret (down_client, v3)"
  using open_call_carries_down [OF cap_lib_laws(1,2) cap_ServerToClient(1) mem_new_start down_client_valid down_client_set]
  by (simp only: if_True)

subsection \<open>Sizes\<close>

text \<open>
  C22. The sizes the generated code asks for fit the fields it sets: the arguments of write and
  openStream, whose structs have the size in the call, and the results of openStream, which
  AllocResults sizes, are set without the library's panic for a field outside of its struct.
\<close>

theorem fields_fit_sizes:
  assumes lib: "serves_calls L new mk enq fail_call enq_call" "sized L new szof"
    and calm: "\<And>r u m. enq r u \<noteq> Panic m" "\<And>r u m. enq_call r u \<noteq> Panic m" "\<And>e u m. fail_call e u \<noteq> Panic m"
    and stream: "Proxy_ByteStream_ServerToClient L srv w = Ret (c, w')"
    and proxy: "Proxy_ServerToClient L psrv z = Ret (p, z')"
  shows "Proxy_ByteStream_Write L c ctx (Some (\<lambda>a. Proxy_ByteStream_write_Params_SetBytes L a b)) v \<noteq> Panic m \<and>
    Proxy_OpenStream L p ctx (Some (\<lambda>a. Proxy_openStream_Params_SetDown L a d)) v \<noteq> Panic m \<and>
    (Proxy_openStream_AllocResults L call v = Ret ((res, None), v1) \<longrightarrow>
       Proxy_openStream_Results_SetUp L res d v1 \<noteq> Panic m)"
proof (intro conjI impI)
  show "Proxy_ByteStream_Write L c ctx (Some (\<lambda>a. Proxy_ByteStream_write_Params_SetBytes L a b)) v \<noteq> Panic m"
    unfolding Proxy_ByteStream_Write_def Let_def option.case Send.simps serves_stream_call(1) [OF lib(1) stream]
    by (intro runs_method_calm place_args_in_range [OF lib(2)] calm)
      (simp_all add: Proxy_ByteStream_write_Params_SetBytes_def sizedD(6) [OF lib(2)])
  show "Proxy_OpenStream L p ctx (Some (\<lambda>a. Proxy_openStream_Params_SetDown L a d)) v \<noteq> Panic m"
    unfolding Proxy_OpenStream_def Let_def option.case Send.simps conv_Panic_iff serves_proxy_call(1) [OF lib(1) proxy]
    by (intro runs_method_calm place_args_in_range [OF lib(2)] calm)
      (simp_all add: setters_are_set_cap set_cap_in_range [OF lib(2)])
  assume "Proxy_openStream_AllocResults L call v = Ret ((res, None), v1)"
  then have "szof (of_Proxy_openStream_Results res) v1 = 1"
    using sizedD(4) [OF lib(2)] by (fastforce simp: Proxy_openStream_AllocResults_def conv_err_Ret_iff)
  then show "Proxy_openStream_Results_SetUp L res d v1 \<noteq> Panic m"
    by (simp add: setters_are_set_cap set_cap_in_range [OF lib(2)])
qed

lemma fields_fit_sizes_witness:
  "\<forall>m. Proxy_openStream_Results_SetUp cap_lib (Proxy_openStream_Results 0) down_client one_struct \<noteq> Panic m"
proof
  fix m
  have "Proxy_openStream_AllocResults cap_lib (Proxy_openStream 0) mem_start =
      Ret ((Proxy_openStream_Results 0, None), one_struct)"
    by (simp add: Proxy_openStream_AllocResults_def cap_lib_def mem_lib_def mem_new_start)
  moreover have "cap_enq r u \<noteq> Panic m" "cap_enq_call r u \<noteq> Panic m" for r u m
    by (simp_all add: cap_enq_def cap_enq_call_def mem_enq_def mem_enq_call_def)
  note fields_fit_sizes [OF cap_lib_laws(1,3) this _ cap_ServerToClient(2,1)]
  ultimately show "Proxy_openStream_Results_SetUp cap_lib (Proxy_openStream_Results 0) down_client one_struct \<noteq> Panic m"
    by blast
qed

end
