(* ===== verification/MdApi.thy ===== *)
theory MdApi
  imports MdStream
begin

text \<open>
  mdcapnp/handwritten_api.go call by call: how the Proxy and ByteStream capabilities build a call and
  hand it to the RPC library. MdStream has the calls as values (which interface, which method, which
  bytes); here they are built with the library's functions, the fields of \<open>md_lib\<close>, and Write is
  shown to send the call that value describes. Sizes are in words of the serialization library.
\<close>

subsection \<open>The libraries\<close>

text \<open>
  \<open>'cf\<close> is a call future, \<open>'cs\<close> a call being set up, \<open>'b\<close> a struct builder, \<open>'st\<close> a struct, \<open>'msg\<close> a
  message builder, \<open>'h\<close> a call handler, \<open>'rv\<close> a remote vat, \<open>'cap\<close> a capability client.
\<close>

record ('w, 'ctx, 'cf, 'cs, 'b, 'st, 'msg, 'h, 'rv, 'cap) md_lib =
  RemoteCall :: "'cf \<Rightarrow> 'cs \<Rightarrow> ('w, 'cf) action"
  WaitReturnResultsCapability :: "'ctx \<Rightarrow> 'cf \<Rightarrow> ('w, err + 'cap) action"
  Vat_Bootstrap :: "'rv \<Rightarrow> ('w, 'cf) action"
  SetupCallWithNewCap :: "'cf \<Rightarrow> nat \<Rightarrow> nat \<Rightarrow> 'h \<Rightarrow> ('w, 'cs) action"
  SetupCallNoParams :: "'cf \<Rightarrow> nat \<Rightarrow> nat \<Rightarrow> ('w, 'cs) action"
  SetupCallWithStructParams :: "'cf \<Rightarrow> nat \<Rightarrow> nat \<Rightarrow> nat \<Rightarrow> struct_size \<Rightarrow> ('w, 'cs \<times> 'b) action"
  set_WantShallowReturnCopy :: "bool \<Rightarrow> 'cs \<Rightarrow> 'cs"
  NewStructBuilder :: "'msg \<Rightarrow> struct_size \<Rightarrow> ('w, 'b \<times> err option) action"
  Builder_SetData :: "'b \<Rightarrow> nat \<Rightarrow> bytes \<Rightarrow> ('w, err option) action"
  Struct_Data :: "'st \<Rightarrow> nat \<Rightarrow> 'w \<Rightarrow> bytes"
  StorageWordCount :: "nat \<Rightarrow> nat \<times> err option"
  TotalSize :: "struct_size \<Rightarrow> nat"

subsection \<open>Proxy\<close>

datatype 'cf Proxy = Proxy (of_Proxy: 'cf)
datatype 'cf ByteStream = ByteStream (of_ByteStream: 'cf)

definition Proxy_Wait where
  "Proxy_Wait M ctx p = WaitReturnResultsCapability M ctx (of_Proxy p)"

definition ProxyAsRemoteVatBootstrap where
  "ProxyAsRemoteVatBootstrap M rv w = then_do (Vat_Bootstrap M rv w) (\<lambda>(f, w'). Ret (Proxy f, w'))"

definition Proxy_call_OpenStream where
  "Proxy_call_OpenStream M p down w =
     then_do (SetupCallWithNewCap M (of_Proxy p) Proxy_InterfaceId Proxy_OpenStream_MethodId down w) (\<lambda>(cs, w1).
     then_do (RemoteCall M (of_Proxy p) cs w1) (\<lambda>(f, w2). Ret (ByteStream f, w2)))"

subsection \<open>ByteStream\<close>

definition ByteStream_Wait where
  "ByteStream_Wait M ctx bs = WaitReturnResultsCapability M ctx (of_ByteStream bs)"

datatype 'b writeRequestBuilder = writeRequestBuilder (of_writeRequestBuilder: 'b)

definition writeRequestBuilder_SetData where
  "writeRequestBuilder_SetData M b bytes = Builder_SetData M (of_writeRequestBuilder b) 0 bytes"

definition newWriteRequestBuilder where
  "newWriteRequestBuilder M serMsg w =
     then_do (NewStructBuilder M serMsg writeRequestSize w) (\<lambda>((b, e), w'). Ret ((writeRequestBuilder b, e), w'))"

datatype 'st WriteRequest = WriteRequest (of_WriteRequest: 'st)

definition WriteRequest_Data where
  "WriteRequest_Data M s w = Struct_Data M (of_WriteRequest s) 0 w"

text \<open>A future without results.\<close>

datatype 'cf VoidFuture = VoidFuture 'cf

text \<open>
  Write: the second result of StorageWordCount and the result of SetData are dropped, as in the code.
\<close>

definition ByteStream_call_Write where
  "ByteStream_call_Write M bs bytes w =
     (let vSerSize = fst (StorageWordCount M (length bytes))
      in then_do (SetupCallWithStructParams M (of_ByteStream bs) (TotalSize M writeRequestSize + vSerSize)
            ByteStream_InterfaceId ByteStream_Write_MethodId writeRequestSize w) (\<lambda>((cs, b), w1).
         then_do (writeRequestBuilder_SetData M (writeRequestBuilder b) bytes w1) (\<lambda>(_, w2).
         then_do (RemoteCall M (of_ByteStream bs) (set_WantShallowReturnCopy M True cs) w2) (\<lambda>(f, w3).
           Ret (VoidFuture f, w3)))))"

definition ByteStream_call_End where
  "ByteStream_call_End M bs w =
     then_do (SetupCallNoParams M (of_ByteStream bs) ByteStream_InterfaceId ByteStream_End_MethodId w) (\<lambda>(cs, w1).
     then_do (RemoteCall M (of_ByteStream bs) cs w1) (\<lambda>(f, w2). Ret (VoidFuture f, w2)))"

subsection \<open>The call that Write sends\<close>

text \<open>
  Against any library: Write sets up the call of the stream model, with its size, interface and method,
  stores the bytes in its parameters, and sends it whatever storing them returned.
\<close>

lemma ByteStream_call_Write_sends:
  assumes "setup = MdStream.ByteStream_Write (\<lambda>n. fst (StorageWordCount M n)) (TotalSize M) bytes"
    and "SetupCallWithStructParams M (of_ByteStream bs) (su_size setup) (mc_iid (su_call setup)) (mc_mid (su_call setup))
      writeRequestSize w = Ret ((cs, b), w1)"
    and "Builder_SetData M b 0 bytes w1 = Ret (e, w2)"
  shows "ByteStream_call_Write M bs bytes w =
    then_do (RemoteCall M (of_ByteStream bs) (set_WantShallowReturnCopy M (su_shallow setup) cs) w2) (\<lambda>(f, w3).
      Ret (VoidFuture f, w3))"
  using assms by (simp add: ByteStream_call_Write_def writeRequestBuilder_SetData_def MdStream.ByteStream_Write_def Let_def)

end
