(* ===== verification/GrpcApi.thy ===== *)
theory GrpcApi
  imports GrpcSession
begin

text \<open>
  The generated code of grpcnet: Packet of proxy.pb.go, and of proxy_grpc.pb.go the client stub, the
  service description and the registration of a server. Connections, streams and the registrar of
  the gRPC library are type variables and arguments.
\<close>

subsection \<open>Packet\<close>

text \<open>The message as its one field; what protobuf keeps beside it is not looked at. A pointer may be nil.\<close>

record Packet =
  Data :: bytes

definition Packet_GetData :: "Packet option \<Rightarrow> bytes" where
  "Packet_GetData x = (case x of Some p \<Rightarrow> Data p | None \<Rightarrow> [])"

subsection \<open>Client\<close>

definition Proxy_OpenStream_FullMethodName :: string where
  "Proxy_OpenStream_FullMethodName = ''/grpcnet.Proxy/OpenStream''"

datatype 'ss GenericServerStream = GenericServerStream (ServerStream: 'ss)
datatype 'cs GenericClientStream = GenericClientStream (ClientStream: 'cs)

text \<open>A server: OpenStream, and what testEmbeddedByValue does when the server has that method.\<close>

record ('ss, 'r) ProxyServer =
  px_OpenStream :: "'ss GenericServerStream \<Rightarrow> 'r"
  px_testEmbeddedByValue :: "unit outcome option"

record ('ss, 'r) StreamDesc =
  StreamName :: string
  StreamHandler :: "('ss, 'r) ProxyServer \<Rightarrow> 'ss \<Rightarrow> 'r"
  ServerStreams :: bool
  ClientStreams :: bool

record ('ss, 'r) ServiceDesc =
  ServiceName :: string
  Streams :: "('ss, 'r) StreamDesc list"
  Metadata :: string

definition Proxy_OpenStream_Handler :: "('ss, 'r) ProxyServer \<Rightarrow> 'ss \<Rightarrow> 'r" where
  "Proxy_OpenStream_Handler srv stream = px_OpenStream srv (GenericServerStream stream)"

definition Proxy_ServiceDesc :: "('ss, 'r) ServiceDesc" where
  "Proxy_ServiceDesc =
     \<lparr>ServiceName = ''grpcnet.Proxy'',
      Streams =
        [\<lparr>StreamName = ''OpenStream'', StreamHandler = Proxy_OpenStream_Handler,
          ServerStreams = True, ClientStreams = True\<rparr>],
      Metadata = ''proxy.proto''\<rparr>"

datatype 'cc proxyClient = proxyClient (proxyClient_cc: 'cc)

definition NewProxyClient :: "'cc \<Rightarrow> 'cc proxyClient" where
  "NewProxyClient cc = proxyClient cc"

text \<open>\<open>NewStream\<close> is the connection's; StaticMethod comes before the options given.\<close>

definition proxyClient_OpenStream where
  "proxyClient_OpenStream NewStream StaticMethod c ctx opts w =
     then_do (NewStream (proxyClient_cc c) ctx (hd (Streams Proxy_ServiceDesc)) Proxy_OpenStream_FullMethodName
         (StaticMethod # opts) w) (\<lambda>(r, w').
       case r of
         Inl (e :: err) \<Rightarrow> Ret (Inl e, w')
       | Inr stream \<Rightarrow> Ret (Inr (GenericClientStream stream), w'))"

subsection \<open>Server\<close>

text \<open>The method a server without its own OpenStream has.\<close>

definition UnimplementedProxyServer_OpenStream :: "'ss GenericServerStream \<Rightarrow> err option" where
  "UnimplementedProxyServer_OpenStream _ = Some (Errorf ''Unimplemented: method OpenStream not implemented'')"

text \<open>A nil pointer embedded in the server panics here, before the service is registered.\<close>

definition RegisterProxyServer where
  "RegisterProxyServer RegisterService srv w =
     (case px_testEmbeddedByValue srv of
        None \<Rightarrow> RegisterService Proxy_ServiceDesc srv w
      | Some t \<Rightarrow> then_do t (\<lambda>_. RegisterService Proxy_ServiceDesc srv w))"

subsection \<open>Calls\<close>

text \<open>
  A server of the library finds a streaming method by its full name, the names of the service and
  of the method behind slashes.
\<close>

definition find_stream :: "('ss, 'r) ServiceDesc list \<Rightarrow> string \<Rightarrow> ('ss, 'r) StreamDesc option" where
  "find_stream descs full =
     (case [st. sv \<leftarrow> descs, st \<leftarrow> Streams sv, ''/'' @ ServiceName sv @ ''/'' @ StreamName st = full] of
        [] \<Rightarrow> None
      | st # _ \<Rightarrow> Some st)"

text \<open>
  What a connection documents: NewStream makes a pair of streams of the kind described and the
  server runs the handler of the method named with its own one (\<open>start\<close>, arbitrary).
\<close>

definition reaches_server where
  "reaches_server NewStream cc descs srv pair start fail \<longleftrightarrow>
     (\<forall>ctx d full opts w. NewStream cc ctx d full opts w =
        (case find_stream descs full of
           None \<Rightarrow> fail w
         | Some st \<Rightarrow>
             (case pair (ClientStreams d) (ServerStreams d) w of
                (cs, ss, w1) \<Rightarrow> start (StreamHandler st srv ss) cs w1)))"

text \<open>The call of the stub reaches OpenStream of the server that is registered, over a stream open both ways.\<close>

lemma grpc_call_runs_OpenStream:
  assumes "reaches_server NewStream cc [Proxy_ServiceDesc] srv pair start fail"
    and "pair True True w = (cs, ss, w1)"
  shows "proxyClient_OpenStream NewStream StaticMethod (NewProxyClient cc) ctx opts w =
    then_do (start (px_OpenStream srv (GenericServerStream ss)) cs w1) (\<lambda>(r, w').
      case r of Inl e \<Rightarrow> Ret (Inl e, w') | Inr stream \<Rightarrow> Ret (Inr (GenericClientStream stream), w'))"
  using assms
  by (simp add: proxyClient_OpenStream_def reaches_server_def find_stream_def Proxy_ServiceDesc_def
      Proxy_OpenStream_FullMethodName_def NewProxyClient_def Proxy_OpenStream_Handler_def)

end
