(* ===== verification/ProtoMsg.thy ===== *)
theory ProtoMsg
  imports GrpcApi
begin

text \<open>
  The message code of grpcnet/proxy.pb.go: the type Packet as the protobuf runtime sees it, its raw
  descriptor, and the state of the package. The runtime is a record of functions over arbitrary types;
  message infos and pointers to them are indices into file_proxy_proto_msgTypes.
\<close>

subsection \<open>The runtime\<close>

record ('mi, 'gt) TypeBuilder =
  GoPackagePath :: string
  RawDescriptor :: bytes
  NumEnums :: nat
  NumMessages :: nat
  NumExtensions :: nat
  NumServices :: nat
  GoTypes :: "'gt list option"
  DependencyIndexes :: "int list option"
  MessageInfos :: "'mi list"

text \<open>The message with what protobuf keeps beside its field; the state holds the type once it is known.\<close>

record proto_packet =
  pp_state :: "nat option"
  pp_Data :: bytes
  pp_unknownFields :: bytes
  pp_sizeCache :: int

record ('mi, 'gt, 'file) protoimpl =
  MessageStringOf :: "proto_packet option \<Rightarrow> string"
  CompressGZIP :: "bytes \<Rightarrow> bytes"
  Build :: "('mi, 'gt) TypeBuilder \<Rightarrow> 'file \<times> 'mi list"
  PkgPath :: string

subsection \<open>Packet\<close>

definition zero_packet :: proto_packet where
  "zero_packet = \<lparr>pp_state = None, pp_Data = [], pp_unknownFields = [], pp_sizeCache = 0\<rparr>"

definition proto_Reset :: "proto_packet \<Rightarrow> proto_packet" where
  "proto_Reset x = zero_packet\<lparr>pp_state := Some 0\<rparr>"

definition proto_String :: "('mi, 'gt, 'file) protoimpl \<Rightarrow> proto_packet option \<Rightarrow> string" where
  "proto_String X x = MessageStringOf X x"

text \<open>ProtoReflect gives the message's own state, or for a nil pointer the type's view of it.\<close>

datatype reflected = MessageState proto_packet | MessageOf nat

definition proto_ProtoReflect :: "proto_packet option \<Rightarrow> reflected \<times> proto_packet option" where
  "proto_ProtoReflect x =
     (case x of
        Some p \<Rightarrow>
          (let p' = (if pp_state p = None then p\<lparr>pp_state := Some 0\<rparr> else p)
           in (MessageState p', Some p'))
      | None \<Rightarrow> (MessageOf 0, None))"

subsection \<open>The descriptor\<close>

definition file_proxy_proto_rawDesc :: bytes where
  "file_proxy_proto_rawDesc =
     [10, 11, 112, 114, 111, 120, 121, 46, 112, 114, 111, 116, 111, 18, 7, 103, 114, 112, 99,
      110, 101, 116, 34, 28, 10, 6, 80, 97, 99, 107, 101, 116, 18, 18, 10, 4, 100, 97, 116, 97,
      24, 1, 32, 1, 40, 12, 82, 4, 100, 97, 116, 97, 50, 59, 10, 5, 80, 114, 111, 120, 121, 18,
      50, 10, 10, 79, 112, 101, 110, 83, 116, 114, 101, 97, 109, 18, 15, 46, 103, 114, 112, 99,
      110, 101, 116, 46, 80, 97, 99, 107, 101, 116, 26, 15, 46, 103, 114, 112, 99, 110, 101,
      116, 46, 80, 97, 99, 107, 101, 116, 40, 1, 48, 1, 66, 11, 90, 9, 46, 47, 103, 114, 112,
      99, 110, 101, 116, 98, 6, 112, 114, 111, 116, 111, 51]"

text \<open>
  The package's variables: File_proxy_proto, the sync.Once with the data it guards, the message
  types, and the tables that are nil once they have been used.
\<close>

record ('mi, 'gt, 'file) proto_pkg =
  File_proxy_proto :: "'file option"
  rawDescOnce :: bool
  rawDescData :: bytes
  msgTypes :: "'mi list"
  goTypes :: "'gt list option"
  depIdxs :: "int list option"

definition proto_pkg_start :: "'mi \<Rightarrow> 'gt \<Rightarrow> ('mi, 'gt, 'file) proto_pkg" where
  "proto_pkg_start noinfo nilpacket =
     \<lparr>File_proxy_proto = None, rawDescOnce = False, rawDescData = [], msgTypes = [noinfo],
      goTypes = Some [nilpacket], depIdxs = Some [0, 0, 1, 0, 0, 0, 0]\<rparr>"

definition file_proxy_proto_rawDescGZIP ::
    "('mi, 'gt, 'file) protoimpl \<Rightarrow> ('mi, 'gt, 'file) proto_pkg \<Rightarrow> bytes \<times> ('mi, 'gt, 'file) proto_pkg" where
  "file_proxy_proto_rawDescGZIP X s =
     (let s' = (if rawDescOnce s then s
                else s\<lparr>rawDescOnce := True, rawDescData := CompressGZIP X file_proxy_proto_rawDesc\<rparr>)
      in (rawDescData s', s'))"

definition proto_Descriptor ::
    "('mi, 'gt, 'file) protoimpl \<Rightarrow> ('mi, 'gt, 'file) proto_pkg \<Rightarrow>
     (bytes \<times> nat list) \<times> ('mi, 'gt, 'file) proto_pkg" where
  "proto_Descriptor X s = (let (d, s') = file_proxy_proto_rawDescGZIP X s in ((d, [0]), s'))"

definition file_proxy_proto_init ::
    "('mi, 'gt, 'file) protoimpl \<Rightarrow> ('mi, 'gt, 'file) proto_pkg \<Rightarrow> ('mi, 'gt, 'file) proto_pkg" where
  "file_proxy_proto_init X s =
     (if File_proxy_proto s \<noteq> None then s
      else
        (let (f, infos) = Build X
           \<lparr>GoPackagePath = PkgPath X, RawDescriptor = file_proxy_proto_rawDesc, NumEnums = 0,
            NumMessages = 1, NumExtensions = 0, NumServices = 1, GoTypes = goTypes s,
            DependencyIndexes = depIdxs s, MessageInfos = msgTypes s\<rparr>
         in s\<lparr>File_proxy_proto := Some f, msgTypes := infos, goTypes := None, depIdxs := None\<rparr>))"

subsection \<open>What they do\<close>

text \<open>
  Reset leaves a message with no data whose type is known; ProtoReflect does not change what a
  message holds, and a second call gives the same; the descriptor is compressed once; a second
  initialisation does nothing.
\<close>

lemma proto_Reset_empty: "pp_Data (proto_Reset x) = []" "pp_state (proto_Reset x) = Some 0"
  by (simp_all add: proto_Reset_def zero_packet_def)

lemma proto_ProtoReflect_keeps:
  assumes "proto_ProtoReflect (Some p) = (r, x)"
  obtains p' where "x = Some p'" "pp_Data p' = pp_Data p" "pp_state p' \<noteq> None"
    "proto_ProtoReflect x = (r, x)"
  using assms by (auto simp: proto_ProtoReflect_def Let_def split: if_splits)

lemma rawDescGZIP_once:
  assumes "file_proxy_proto_rawDescGZIP X s = (d, s')"
  shows "file_proxy_proto_rawDescGZIP X' s' = (d, s')"
  using assms by (auto simp: file_proxy_proto_rawDescGZIP_def Let_def split: if_splits)

lemma file_proxy_proto_init_once:
  "file_proxy_proto_init X' (file_proxy_proto_init X s) = file_proxy_proto_init X s"
  by (simp add: file_proxy_proto_init_def split: prod.splits)

end
