(* ===== verification/Flags.thy ===== *)
theory Flags
  imports Program
begin

text \<open>
  The head of main in main.go: the six flags, flag.Parse of the standard library on the arguments of
  the process, the lines printed, Args, the pprof goroutine, and the rest of main (main_start of
  Program). The order in which the maps of session creators are iterated for the help texts, the
  process id and the outcome of http.ListenAndServe are arguments.
\<close>

subsection \<open>Flags\<close>

datatype flag_value = StrV string | BoolV bool

text \<open>A set of flags: the value and the usage text of every flag that is defined.\<close>

type_synonym flagset = "string \<rightharpoonup> flag_value \<times> string"

definition main_flags :: "string list \<Rightarrow> string list \<Rightarrow> flagset" where
  "main_flags listenIter connectIter =
     [''listen'' \<mapsto> (StrV ''tcp://127.0.0.1:1443'',
        ''Listen address, available schemes: '' @ getAvailableListenSchemes listenIter @
        '', add tls to enable TLS, e.g. tcp+tls''),
      ''connect'' \<mapsto> (StrV ''tcp://127.0.0.1:'',
        ''Connect address, available schemes: '' @ getAvailableConnectSchemes connectIter @
        '', add tls to enable TLS, e.g. tcp+tls''),
      ''cert'' \<mapsto> (StrV ''./server-cert.pem'', ''Cert path for listening''),
      ''key'' \<mapsto> (StrV ''./server-key.pem'', ''Key path for listening''),
      ''ca'' \<mapsto> (StrV ''./ca.pem'', ''CA cert path for connecting''),
      ''pprof'' \<mapsto> (BoolV False, ''Enable pprof profiling'')]"

definition str_flag :: "flagset \<Rightarrow> string \<Rightarrow> string" where
  "str_flag fs name = (case fs name of Some (StrV v, _) \<Rightarrow> v | _ \<Rightarrow> [])"

definition bool_flag :: "flagset \<Rightarrow> string \<Rightarrow> bool" where
  "bool_flag fs name = (case fs name of Some (BoolV v, _) \<Rightarrow> v | _ \<Rightarrow> False)"

definition set_flag :: "string \<Rightarrow> flag_value \<Rightarrow> flagset \<Rightarrow> flagset" where
  "set_flag name v fs = (case fs name of Some (_, usage) \<Rightarrow> fs(name \<mapsto> (v, usage)) | None \<Rightarrow> fs)"

subsection \<open>flag.Parse\<close>

text \<open>
  What one argument is to the parser: no flag (the flags end before it), the word -- (they end after
  it), a malformed flag, or the name of a flag with the value after its first equals sign.
\<close>

datatype flag_kind = NoFlag | Terminator | BadSyntax | FlagWord string "string option"

definition cut_value :: "string \<Rightarrow> string \<times> string option" where
  "cut_value name =
     (take 1 name @ takeWhile (\<lambda>c. c \<noteq> CHR ''='') (drop 1 name),
      case dropWhile (\<lambda>c. c \<noteq> CHR ''='') (drop 1 name) of [] \<Rightarrow> None | _ # v \<Rightarrow> Some v)"

fun flag_word :: "string \<Rightarrow> flag_kind" where
  "flag_word (c # d # rest) =
     (if c \<noteq> CHR ''-'' then NoFlag
      else if d = CHR ''-'' \<and> rest = [] then Terminator
      else
        (let name = (if d = CHR ''-'' then rest else d # rest)
         in if hd name = CHR ''-'' \<or> hd name = CHR ''='' then BadSyntax
            else case cut_value name of (n, v) \<Rightarrow> FlagWord n v))"
| "flag_word _ = NoFlag"

definition ParseBool :: "string \<Rightarrow> bool option" where
  "ParseBool s =
     (if s \<in> {''1'', ''t'', ''T'', ''TRUE'', ''true'', ''True''} then Some True
      else if s \<in> {''0'', ''f'', ''F'', ''FALSE'', ''false'', ''False''} then Some False else None)"

datatype flag_error = ErrHelp | Failf string

text \<open>
  A boolean flag takes its value only from after an equals sign; another one takes the next argument
  when it has none there, whatever that argument looks like.
\<close>

fun parse_flags :: "flagset \<Rightarrow> string list \<Rightarrow> flag_error + flagset \<times> string list" where
  "parse_flags fs [] = Inr (fs, [])"
| "parse_flags fs (s # args) =
     (case flag_word s of
        NoFlag \<Rightarrow> Inr (fs, s # args)
      | Terminator \<Rightarrow> Inr (fs, args)
      | BadSyntax \<Rightarrow> Inl (Failf (''bad flag syntax: '' @ s))
      | FlagWord name v \<Rightarrow>
          (case fs name of
             None \<Rightarrow>
               if name = ''help'' \<or> name = ''h'' then Inl ErrHelp
               else Inl (Failf (''flag provided but not defined: -'' @ name))
           | Some (BoolV _, _) \<Rightarrow>
               (case v of
                  None \<Rightarrow> parse_flags (set_flag name (BoolV True) fs) args
                | Some w \<Rightarrow>
                    (case ParseBool w of
                       None \<Rightarrow> Inl (Failf (''invalid boolean value for -'' @ name))
                     | Some b \<Rightarrow> parse_flags (set_flag name (BoolV b) fs) args))
           | Some (StrV _, _) \<Rightarrow>
               (case v of
                  Some w \<Rightarrow> parse_flags (set_flag name (StrV w) fs) args
                | None \<Rightarrow>
                    (case args of
                       [] \<Rightarrow> Inl (Failf (''flag needs an argument: -'' @ name))
                     | w # rest \<Rightarrow> parse_flags (set_flag name (StrV w) fs) rest))))"

subsection \<open>main\<close>

definition main_args :: "flagset \<Rightarrow> Args" where
  "main_args fs =
     \<lparr>Listen = str_flag fs ''listen'', Connect = str_flag fs ''connect'', CertPath = str_flag fs ''cert'',
      KeyPath = str_flag fs ''key'', CAPath = str_flag fs ''ca''\<rparr>"

definition go_bool :: "bool \<Rightarrow> string" where
  "go_bool b = (if b then ''true'' else ''false'')"

text \<open>The lines main prints; \<open>pid\<close> is the process id in decimal.\<close>

definition main_printed :: "string \<Rightarrow> flagset \<Rightarrow> string list" where
  "main_printed pid fs =
     [''Listen: '' @ str_flag fs ''listen'', ''Connect: '' @ str_flag fs ''connect'',
      ''Cert: '' @ str_flag fs ''cert'', ''Key: '' @ str_flag fs ''key'', ''CA: '' @ str_flag fs ''ca'',
      ''Pprof: '' @ go_bool (bool_flag fs ''pprof''), ''PID: '' @ pid]"

text \<open>The goroutine for -pprof logs its start, and the error when ListenAndServe returns one.\<close>

definition pprof_logs :: "flagset \<Rightarrow> err option \<Rightarrow> string list" where
  "pprof_logs fs served =
     (if bool_flag fs ''pprof''
      then ''Starting pprof server on :6060'' # (case served of Some _ \<Rightarrow> [''pprof server error''] | None \<Rightarrow> [])
      else [])"

text \<open>
  main: flag.Parse ends the process with code 0 for -h and -help, with code 2 for any other error.
  Otherwise the values are printed and the sessions made; the arguments left over are not looked at.
\<close>

datatype 'a main_result = Exits nat | Runs "string list" "string list" 'a

definition main ::
    "env \<Rightarrow> string list \<Rightarrow> string list \<Rightarrow> string \<Rightarrow> err option \<Rightarrow> string list \<Rightarrow>
     (server_session, client_session) program outcome main_result" where
  "main env listenIter connectIter pid served argv =
     (case parse_flags (main_flags listenIter connectIter) argv of
        Inl ErrHelp \<Rightarrow> Exits 0
      | Inl (Failf _) \<Rightarrow> Exits 2
      | Inr (fs, _) \<Rightarrow> Runs (main_printed pid fs) (pprof_logs fs served) (main_start env (main_args fs)))"

subsection \<open>Writing flags\<close>

text \<open>The ways to write a flag, with one dash or two: name=value, name and value, or a boolean name alone.\<close>

datatype flag_use = WithEq bool string string | WithSpace bool string string | Switch bool string

definition dashes :: "bool \<Rightarrow> string" where
  "dashes two = (if two then ''--'' else ''-'')"

fun render :: "flag_use \<Rightarrow> string list" where
  "render (WithEq two n v) = [dashes two @ n @ ''='' @ v]"
| "render (WithSpace two n v) = [dashes two @ n, v]"
| "render (Switch two n) = [dashes two @ n]"

definition flag_name :: "string \<Rightarrow> bool" where
  "flag_name n \<longleftrightarrow> n \<noteq> [] \<and> hd n \<noteq> CHR ''-'' \<and> CHR ''='' \<notin> set n"

fun is_str :: "(flag_value \<times> string) option \<Rightarrow> bool" where
  "is_str (Some (StrV _, _)) = True"
| "is_str _ = False"

fun is_bool :: "(flag_value \<times> string) option \<Rightarrow> bool" where
  "is_bool (Some (BoolV _, _)) = True"
| "is_bool _ = False"

fun use_ok :: "flagset \<Rightarrow> flag_use \<Rightarrow> bool" where
  "use_ok fs (WithEq _ n v) \<longleftrightarrow> flag_name n \<and> (is_str (fs n) \<or> is_bool (fs n) \<and> ParseBool v \<noteq> None)"
| "use_ok fs (WithSpace _ n v) \<longleftrightarrow> flag_name n \<and> is_str (fs n)"
| "use_ok fs (Switch _ n) \<longleftrightarrow> flag_name n \<and> is_bool (fs n)"

text \<open>What a use of a flag assigns.\<close>

fun apply_use :: "flag_use \<Rightarrow> flagset \<Rightarrow> flagset" where
  "apply_use (WithEq _ n v) fs =
     set_flag n (if is_str (fs n) then StrV v else BoolV (ParseBool v = Some True)) fs"
| "apply_use (WithSpace _ n v) fs = set_flag n (StrV v) fs"
| "apply_use (Switch _ n) fs = set_flag n (BoolV True) fs"

lemma cut_value_name: "flag_name n \<Longrightarrow> cut_value n = (n, None)"
proof (cases n)
  case (Cons c m)
  assume "flag_name n"
  with Cons have "\<forall>x \<in> set m. x \<noteq> CHR ''=''" by (auto simp: flag_name_def)
  then have "takeWhile (\<lambda>c. c \<noteq> CHR ''='') m = m" "dropWhile (\<lambda>c. c \<noteq> CHR ''='') m = []"
    by (simp_all add: takeWhile_eq_all_conv)
  with Cons show ?thesis by (simp add: cut_value_def del: dropWhile_eq_Nil_conv)
qed (simp add: flag_name_def)

lemma cut_value_eq:
  assumes "flag_name n"
  shows "cut_value (n @ CHR ''='' # v) = (n, Some v)"
proof (cases n)
  case (Cons c m)
  with assms have "\<forall>x \<in> set m. x \<noteq> CHR ''=''" by (auto simp: flag_name_def)
  with Cons show ?thesis by (simp add: cut_value_def takeWhile_append2 dropWhile_append2)
qed (use assms in \<open>simp add: flag_name_def\<close>)

lemma flag_word_name:
  assumes "flag_name n"
  shows "flag_word (dashes two @ n) = FlagWord n None"
    and "flag_word (dashes two @ n @ CHR ''='' # v) = FlagWord n (Some v)"
proof -
  from assms obtain c m where n: "n = c # m" "c \<noteq> CHR ''-''" "c \<noteq> CHR ''=''"
    by (cases n) (auto simp: flag_name_def)
  from n cut_value_name [OF assms] show "flag_word (dashes two @ n) = FlagWord n None"
    by (simp add: dashes_def)
  from n cut_value_eq [OF assms, of v] show "flag_word (dashes two @ n @ CHR ''='' # v) = FlagWord n (Some v)"
    by (simp add: dashes_def)
qed

lemma kind_cases:
  fixes x :: "(flag_value \<times> string) option"
  obtains (undefined) "x = None" | (str) s u where "x = Some (StrV s, u)" | (bool) b u where "x = Some (BoolV b, u)"
  by (cases x rule: is_str.cases; cases x rule: is_bool.cases) auto

lemma parse_use:
  assumes "use_ok fs a"
  shows "parse_flags fs (render a @ rest) = parse_flags (apply_use a fs) rest"
proof (cases a)
  case (WithEq two n v)
  with assms show ?thesis
    by (cases "fs n" rule: kind_cases) (auto simp: flag_word_name)
next
  case (WithSpace two n v)
  with assms show ?thesis
    by (cases "fs n" rule: kind_cases) (auto simp: flag_word_name)
next
  case (Switch two n)
  with assms show ?thesis
    by (cases "fs n" rule: kind_cases) (auto simp: flag_word_name)
qed

text \<open>Uses of flags keep what kind of flag each name is.\<close>

lemma kind_apply:
  assumes "use_ok fs a"
  shows "is_str (apply_use a fs m) = is_str (fs m)" and "is_bool (apply_use a fs m) = is_bool (fs m)"
  using assms
  by (cases a; cases "fs m" rule: kind_cases; auto simp: set_flag_def split: option.splits)+

lemma use_ok_apply: "use_ok fs a \<Longrightarrow> use_ok (apply_use a fs) b = use_ok fs b"
  by (cases b) (simp_all add: kind_apply)

lemma parse_uses:
  "\<forall>a \<in> set us. use_ok fs a \<Longrightarrow>
   parse_flags fs (concat (map render us) @ rest) = parse_flags (fold apply_use us fs) rest"
proof (induction us arbitrary: fs)
  case (Cons a us)
  then have "use_ok fs a" and "\<forall>b \<in> set us. use_ok (apply_use a fs) b" by (auto simp: use_ok_apply)
  with Cons.IH parse_use show ?case by simp
qed simp

text \<open>The value a use gives to the flag named n, and the last one of a sequence of uses.\<close>

fun assigns :: "string \<Rightarrow> flag_use \<Rightarrow> string option" where
  "assigns n (WithEq _ m v) = (if m = n then Some v else None)"
| "assigns n (WithSpace _ m v) = (if m = n then Some v else None)"
| "assigns n (Switch _ m) = None"

definition last_value :: "string \<Rightarrow> string \<Rightarrow> flag_use list \<Rightarrow> string" where
  "last_value n d us = fold (\<lambda>a d. case assigns n a of Some v \<Rightarrow> v | None \<Rightarrow> d) us d"

lemma str_flag_apply:
  assumes "use_ok fs a" and "is_str (fs n)"
  shows "str_flag (apply_use a fs) n = (case assigns n a of Some v \<Rightarrow> v | None \<Rightarrow> str_flag fs n)"
  using assms
  by (cases a; cases "fs n" rule: kind_cases; auto simp: str_flag_def set_flag_def split: option.splits)

lemma str_flag_fold:
  "\<forall>a \<in> set us. use_ok fs a \<Longrightarrow> is_str (fs n) \<Longrightarrow>
   str_flag (fold apply_use us fs) n = last_value n (str_flag fs n) us"
proof (induction us arbitrary: fs)
  case (Cons a us)
  then have ok: "use_ok fs a" and "\<forall>b \<in> set us. use_ok (apply_use a fs) b" by (auto simp: use_ok_apply)
  with Cons.IH [of "apply_use a fs"] Cons.prems show ?case
    by (simp add: last_value_def str_flag_apply kind_apply)
qed (simp add: last_value_def)

lemma main_flags_kinds:
  "is_str (main_flags li ci ''listen'')" "is_str (main_flags li ci ''connect'')"
  "is_str (main_flags li ci ''cert'')" "is_str (main_flags li ci ''key'')" "is_str (main_flags li ci ''ca'')"
  "is_bool (main_flags li ci ''pprof'')"
  by (simp_all add: main_flags_def)

lemma main_flags_values:
  "str_flag (main_flags li ci) ''listen'' = ''tcp://127.0.0.1:1443''"
  "str_flag (main_flags li ci) ''connect'' = ''tcp://127.0.0.1:''"
  "str_flag (main_flags li ci) ''cert'' = ''./server-cert.pem''"
  "str_flag (main_flags li ci) ''key'' = ''./server-key.pem''"
  "str_flag (main_flags li ci) ''ca'' = ''./ca.pem''"
  by (simp_all add: main_flags_def str_flag_def)

text \<open>Once the flags have ended, nothing that follows is parsed.\<close>

lemma parse_flags_stops:
  assumes "flag_word w = NoFlag"
  shows "parse_flags fs args = Inr (fs', []) \<Longrightarrow> parse_flags fs (args @ w # rest) = Inr (fs', w # rest)"
proof (induction fs args rule: parse_flags.induct)
  case (1 fs)
  then show ?case by (simp add: assms)
next
  case (2 fs s args)
  show ?case
  proof (cases "flag_word s")
    case (FlagWord name v)
    show ?thesis
    proof (cases "fs name" rule: kind_cases)
      case (str t u)
      with 2 FlagWord show ?thesis by (cases v; cases args) auto
    next
      case (bool b u)
      with 2 FlagWord show ?thesis by (cases v) (auto split: option.splits)
    qed (use 2 FlagWord in \<open>auto split: if_splits\<close>)
  qed (use 2 in auto)
qed

subsection \<open>Properties\<close>

text \<open>
  C26. However the flags are written on the command line (one dash or two, the value after an equals
  sign or as the next argument, any order, repeated), main starts with, for each of the five
  settings, the last value given, or the default when none is.
\<close>

theorem main_starts_with_last_values:
  assumes "\<forall>a \<in> set us. use_ok (main_flags li ci) a"
  shows "\<exists>printed logs. main env li ci pid served (concat (map render us)) =
    Runs printed logs (main_start env
      \<lparr>Listen = last_value ''listen'' ''tcp://127.0.0.1:1443'' us,
       Connect = last_value ''connect'' ''tcp://127.0.0.1:'' us,
       CertPath = last_value ''cert'' ''./server-cert.pem'' us,
       KeyPath = last_value ''key'' ''./server-key.pem'' us,
       CAPath = last_value ''ca'' ''./ca.pem'' us\<rparr>)"
proof -
  have "parse_flags (main_flags li ci) (concat (map render us)) = Inr (fold apply_use us (main_flags li ci), [])"
    using parse_uses [OF assms, of "[]"] by simp
  then show ?thesis
    by (simp add: main_def main_args_def str_flag_fold [OF assms] main_flags_kinds main_flags_values)
qed

lemma main_starts_with_last_values_witness:
  "\<exists>printed logs. main run_env [''tcp''] [''tcp''] ''7'' None
      [''-listen'', ''capnp://:1'', ''--listen=grpc+tls://:2'', ''-pprof'', ''-ca='', ''-cert'', ''-key''] =
    Runs printed logs (main_start run_env
      \<lparr>Listen = ''grpc+tls://:2'', Connect = ''tcp://127.0.0.1:'', CertPath = ''-key'',
       KeyPath = ''./server-key.pem'', CAPath = ''''\<rparr>)"
  using main_starts_with_last_values
    [of "[WithSpace False ''listen'' ''capnp://:1'', WithEq True ''listen'' ''grpc+tls://:2'',
      Switch False ''pprof'', WithEq False ''ca'' '''', WithSpace False ''cert'' ''-key'']"
      "[''tcp'']" "[''tcp'']" run_env "''7''" None]
  by (simp add: main_flags_kinds flag_name_def dashes_def last_value_def)

text \<open>
  The first argument that is no flag ends the flags, and main looks neither at it nor at
  anything after it: the program runs as if the command line ended there.
\<close>

theorem main_ignores_rest:
  assumes "parse_flags (main_flags li ci) argv = Inr (fs, [])" and "flag_word w = NoFlag"
  shows "main env li ci pid served (argv @ w # rest) = main env li ci pid served argv"
  using assms by (simp add: main_def parse_flags_stops)

text \<open>A value after -pprof is such an argument, so that the -listen after it is lost.\<close>

lemma main_ignores_rest_witness:
  "main run_env [] [] ''7'' None [''-pprof'', ''false'', ''-listen'', ''grpc://:2''] =
   main run_env [] [] ''7'' None [''-pprof'']"
  using main_ignores_rest [of "[]" "[]" "[''-pprof'']" "set_flag ''pprof'' (BoolV True) (main_flags [] [])"
      "''false''" run_env "''7''" None "[''-listen'', ''grpc://:2'']"]
  by (simp add: main_flags_def cut_value_def)

end
