(* ===== verification/Spec2Isabelle.thy ===== *)
theory Spec2Isabelle
  imports Tunnel Ends Refine WellFormed Fair Acks Endings CapnpCalls MdApi ProtoMsg Flags
begin

text \<open>
  Verification of proxy-bench, a stream proxy used to compare transports. The program listens on one
  address, connects to another, and for every stream it accepts opens one upstream and copies bytes
  both ways; either side can be plain TCP or Unix sockets (with or without TLS), gRPC, or one of two
  Cap'n Proto libraries.

  The parts of the program and how they interact.
    main.go: the accept loop, handleStream (one goroutine per stream, which starts a second one),
    copyStream, and the tables of session creators. netx/netx.go: the interfaces Stream,
    ServerSession and ClientSession everything else goes through. std_net.go, grpcnet/grpc_net.go,
    capnpnet/capnp_net.go and mdcapnp/ implement them; the init functions of std_net.go,
    capnp_net.go, grpc_net.go and mdcapnp_net.go register them under their schemes. The RPC
    transports call their libraries through generated code (capnpnet/proxy.capnp.go,
    grpcnet/proxy_grpc.pb.go, grpcnet/proxy.pb.go) and through the handwritten
    mdcapnp/handwritten_api.go.

  Which theory models what.
    GoPrelude: bytes, error values, errors.Join, how a call ends (Ret, Panic, Fatal for log.Fatalf,
    Blocked), signal channels, prefix lemmas.
    Netx: io.Copy's loop over any reader and writer, and the contract of netx.Stream as the locales
    byte_source, byte_sink, exact_sink, copy_pair, exact_copy_pair and netx_stream.
    Pipe: io.Pipe, on which both Cap'n Proto streams rest.
    Address: splitAddress and strings.SplitN.
    StdStream, GrpcStream, CapnpStream, MdStream: the four netx.Stream implementations, one
    definition per method, each interpreted in netx_stream on its own definitions.
    ProxyStream: a netx.Stream value as the sum of the four, its methods dispatched on the dynamic
    type; again an interpretation of the locales.
    Proxy: copyStream as a call, copyStream one call at a time, handleStream and its goroutine as
    steps of a handler state. Handler: the invariants of every schedule. Leftover: what
    happens after handleStream has returned. Ends: the bound on the number of steps. Refine: an
    abstract specification of handleStream, two flows that deliver and lose ends, and the simulation.
    WellFormed: the well-formed states of each stream and what no step of a handler changes about
    them. Acks: what the peer of a Cap'n Proto stream learns from the replies to its calls. Feed:
    streams whose peer is still sending. Packets: the read side of every stream as a
    queue of packets. Pair: two proxies in a row while they run, both directions at once.
    Drain: what is on its way through them can be brought to its end. Fair: that every fair schedule
    brings it there; its locale direction is one direction of a handler, interpreted for both.
    Config: Args and the two TLS configuration functions. Sessions: the contracts server_machine and
    client_machine, the sessions of std_net.go. GrpcSession, CapnpSession, MdSession: the RPC
    sessions, each a machine of its goroutines.
    Registry: the tables, the init functions, newServerSession, newClientSession and the help texts.
    Program: main's loop over any sessions (locale proxy_program) and its interpretation on the
    program's own. Tunnel: two instances of the program in a row, one copy after the other.
    GrpcProgram: a gRPC session and the handlers of its streams, linked: the Close of the stream
    is what the RPC's handler goroutine waits for. Endings: the same for any listener, as main runs
    it: its sessions are never closed; how the process can end.
    Flags: main from its command line on, with the flag package of the standard library.
    CapnpLib: the Cap'n Proto library as the generated code sees it, a record of functions over
    arbitrary types. CapnpSchema: the generated accessors, stubs, servers and futures of
    proxy.capnp.go, function by function. CapnpWire: the calls of capnp_net.go made through them.
    CapnpCalls: those calls on any library that obeys its documented laws, and on one built in
    memory. MdApi: handwritten_api.go call by call. GrpcApi: the generated gRPC stubs and handlers.
    ProtoMsg: the generated messages and reflection tables of proxy.pb.go; the protobuf runtime they
    call is a record of functions.

  How state and operations correspond to the code.
    A struct is a record with the fields of the struct; fields that stand for what is outside the
    repository come first or are documented with the record. What a network, the operating system or
    an RPC library will do is data: lists of the results its calls will have, functions in the record
    env, arguments of the operation. All of them are arbitrary in the theorems, so errors at any
    moment are covered. An operation of type ('s, 'a) action takes the receiver and returns its
    result and the receiver's next state, or panics, or ends the process, or waits. Sessions
    with several goroutines are functions from an event and a state to the next state; every order of
    events is a list of events. Log lines are kept only where they carry the result (copyStream)
    or an otherwise invisible branch (the TLS key log).

  What the lemmas show.
    For each stream: Read returns the bytes sent to it, in order, each once, never more than asked;
    Write hands over a prefix of its argument, all of it when it returns no error; closing hands over
    nothing and loses nothing it should not (the interpretations). From that, once and for all streams:
    copyStream ends, moves a prefix, everything when it returns no error, and counts what it moved,
    mdcapnp's Write excepted; at its end CloseWrite is called once, and its log says whether the peer
    was told. While its peer sends, the read side of every stream refines a queue of packets. For
    handleStream, under every schedule: both directions move prefixes; the direction it waits for is
    complete; the other can be cut off; both streams are closed; nothing panics; the number of steps is
    bounded; every step is one of the specification; the streams stay well-formed; a Write that a Cap'n
    Proto peer was told succeeded has been read to its last byte, and handed on if the copy met no
    error. For two proxies that run at the same time, with anything arriving and anything cut off at any moment: each end is given a
    front of what the other sent, nothing on the way is lost while the copies are alive, no state of
    them is a dead end, and under every fair schedule what either end has sent arrives at the other. For
    the generated code: a Write of capnpStream through the stub, the library and the peer's dispatch is
    the Write of the stream model, OpenStream carries the stream capabilities, and every message is
    allocated large enough for the fields set in it. For the sessions: every stream is handed out at
    most once, why handlers return, what Close does; a gRPC handler returns successfully only once the
    handleStream of its stream is over or the session is closed. For the program: every stream is in a
    state handleStream can reach, nothing panics, and only AcceptStream's errors end the process; the
    panics of the sessions all follow a call of their Close, which main never makes.

  Bounds and fuel.
    io.Copy's loop is a partial function with the value None for not ending; copyStream_ends shows
    that it never has that value, with the measure stream_gas (bytes and packets a stream can still
    deliver). handleStream_bounded gives the number of steps. No definition uses fuel. Integers:
    counts are Go's int and int64, modelled as unbounded integers, because a count that wraps needs
    more than 2^63 bytes; bytes are 8-bit words.

  The libraries as hypotheses.
    CapnpCalls, MdApi and GrpcApi have the RPC libraries as parameters. What the Cap'n Proto library is
    documented to do is named in CapnpCalls (serves_calls, holds_data, holds_caps, sized and their
    like): a call on a client of a local server runs the method of that interface and number, a field
    read back is the field that was set. The library built in memory in CapnpCalls obeys them, and the
    witnesses run on it.

  What is not modelled, and why.
    The libraries themselves (gRPC, protobuf, both Cap'n Proto libraries): they are parameters. The
    pprof HTTP server beyond its start and its log lines. Flow limiters and the options of a vat are
    settings of the Cap'n Proto libraries. Blocked gives no intermediate state: an operation that waits
    half way (the End call of Close, for example) is not seen half done by the other goroutine; and
    CloseWrite of a Cap'n Proto stream, which marks the stream closed before it waits for the answer to
    End, is one step that ends with that answer. The rest of a unixpacket packet that did not fit a
    buffer is dropped by the system before it reaches the model. Two writes to one stream from different
    goroutines do not occur in the program and are not modelled. sync.Mutex is the atomicity of a
    definition, except in capnpnet, where bootstrap holds its mutex across Accept and the model shows
    it.
\<close>

end
